(* ===== verification/Rabbit_Prelude.thy ===== *)
theory Rabbit_Prelude
  imports Main "HOL-Library.Word"
begin

text \<open>
  Shared material of the development: the widths of Go's integers, the errors that the
  \<^verbatim>\<open>io\<close> package hands to its callers, byte sources with \<^verbatim>\<open>io.ReadFull\<close>, the
  little-endian codec of \<^verbatim>\<open>encoding/binary\<close>, Go channels (bounded, closable), and the generic
  lemmas on lists and words on which the component theories rest.
\<close>

unbundle bit_operations_syntax

named_theorems codec_simps \<open>length and round-trip facts of the byte codecs\<close>
named_theorems chan_simps \<open>behaviour of channel operations\<close>
named_theorems relay_simps \<open>unfolding facts of the relay handlers\<close>

section \<open>Machine integers\<close>

type_synonym byte = "8 word"
type_synonym u32 = "32 word"
type_synonym u64 = "64 word"

text \<open>\<^verbatim>\<open>int64\<close> and \<^verbatim>\<open>int32\<close> are the same words, read with \<open>sint\<close>.\<close>

type_synonym i64 = "64 word"
type_synonym i32 = "32 word"

lemma unat_of_nat_u32 [simp]: "n < 4294967296 \<Longrightarrow> unat (of_nat n :: u32) = n"
  by (simp add: unat_of_nat take_bit_eq_mod)

lemma unat_of_nat_u64 [simp]: "n < 18446744073709551616 \<Longrightarrow> unat (of_nat n :: u64) = n"
  by (simp add: unat_of_nat take_bit_eq_mod)

lemma unat_less_u32: "unat (w :: u32) < 4294967296"
  using unsigned_less [of w, where 'a = nat] by simp

lemma of_nat_inj_u32:
  assumes "m < 4294967296" and "n < 4294967296" and "of_nat m = (of_nat n :: u32)"
  shows "m = n"
  using assms by (metis unat_of_nat_u32)

lemma unat_eq_iff_u32: "k < 4294967296 \<Longrightarrow> unat (w :: u32) = k \<longleftrightarrow> w = of_nat k"
  by (metis unat_of_nat_u32 unat_less_u32 word_unat_eq_iff)

section \<open>Errors and byte sources\<close>

text \<open>
  The errors the code distinguishes. \<open>Timeout\<close> is a \<^verbatim>\<open>net.Error\<close> whose
  \<^verbatim>\<open>Timeout()\<close> holds, \<open>NetErr\<close> any other error of a connection, \<open>AuthErr\<close> the failed
  authentication of a sealed message, \<open>CipherErr\<close> the failure to build a cipher,
  \<open>EINVAL\<close> the system error of that name.
\<close>

datatype io_error = EOF | ErrUnexpectedEOF | Timeout | NetErr | AuthErr | CipherErr | EINVAL

text \<open>What a connection does with a write: it takes all bytes, or fails after some of them.\<close>

datatype net_write = WriteOk | WriteErr nat

text \<open>
  A byte source: what will still be delivered, and the error every later read reports once
  those bytes are used up.
\<close>

record source =
  avail :: "byte list"
  final :: io_error

text \<open>
  \<^verbatim>\<open>io.ReadFull\<close>: exactly \<open>n\<close> bytes, or an error. An end of file after some but not all
  bytes is \<open>ErrUnexpectedEOF\<close>; any other error is passed on. Bytes read before the error
  are gone from the source.
\<close>

definition ReadFull :: "nat \<Rightarrow> source \<Rightarrow> (io_error + byte list) \<times> source" where
  "ReadFull n s =
     (if n \<le> length (avail s) then (Inr (take n (avail s)), s\<lparr>avail := drop n (avail s)\<rparr>)
      else (Inl (if avail s \<noteq> [] \<and> final s = EOF then ErrUnexpectedEOF else final s),
            s\<lparr>avail := []\<rparr>))"

text \<open>
  The type of \<^verbatim>\<open>io.ReadFull\<close> over a reader with state \<open>'s\<close>. The code that reads blocks, records
  and salts gets its reader as an argument, and so do the definitions that model it.
\<close>

type_synonym 's full_read = "nat \<Rightarrow> 's \<Rightarrow> (io_error + byte list) \<times> 's"

lemma ReadFull_append [codec_simps]:
  "length xs = n \<Longrightarrow> ReadFull n \<lparr>avail = xs @ ys, final = e\<rparr> = (Inr xs, \<lparr>avail = ys, final = e\<rparr>)"
  by (simp add: ReadFull_def)

lemma ReadFull_short:
  "length (avail s) < n \<Longrightarrow> \<exists>e. ReadFull n s = (Inl e, s\<lparr>avail := []\<rparr>)"
  by (simp add: ReadFull_def)

lemma ReadFull_InrD:
  assumes "ReadFull n s = (Inr xs, s')"
  shows "avail s = xs @ avail s'" and "length xs = n" and "final s' = final s"
  using assms by (auto simp: ReadFull_def split: if_splits)

lemma ReadFull_final: "ReadFull n s = (r, s') \<Longrightarrow> final s' = final s"
  by (auto simp: ReadFull_def split: if_splits)

section \<open>Little-endian words\<close>

text \<open>
  \<^verbatim>\<open>binary.LittleEndian.PutUint32\<close> and \<^verbatim>\<open>PutUint64\<close> are \<open>le_bytes 4\<close> and
  \<open>le_bytes 8\<close>; \<^verbatim>\<open>Uint32\<close> and \<^verbatim>\<open>Uint64\<close> are \<open>le_word\<close> on four and eight bytes.
\<close>

fun le_bytes :: "nat \<Rightarrow> 'a::len word \<Rightarrow> byte list" where
  "le_bytes 0 w = []"
| "le_bytes (Suc n) w = ucast w # le_bytes n (drop_bit 8 w)"

fun le_word :: "byte list \<Rightarrow> 'a::len word" where
  "le_word [] = 0"
| "le_word (b # bs) = ucast b OR push_bit 8 (le_word bs)"

lemma length_le_bytes [simp, codec_simps]: "length (le_bytes n w) = n"
  by (induction n arbitrary: w) auto

lemma le_word_step:
  "(ucast (ucast w :: byte) :: 'a::len word) OR push_bit 8 (take_bit m (drop_bit 8 w)) =
     take_bit (8 + m) w"
  by (rule bit_word_eqI) (auto simp: bit_simps)

lemma le_word_le_bytes: "le_word (le_bytes n w) = take_bit (8 * n) (w :: 'a::len word)"
proof (induction n arbitrary: w)
  case 0
  show ?case by simp
next
  case (Suc n)
  then show ?case by (simp add: le_word_step)
qed

lemma le_word_le_bytes_u32 [simp, codec_simps]: "le_word (le_bytes 4 w) = (w :: u32)"
  by (simp add: le_word_le_bytes take_bit_word_eq_self)

lemma le_word_le_bytes_u64 [simp, codec_simps]: "le_word (le_bytes 8 w) = (w :: u64)"
  by (simp add: le_word_le_bytes take_bit_word_eq_self)

lemma ucast_le_word_Cons:
  fixes v :: "'a::len word"
  shows "8 \<le> LENGTH('a) \<Longrightarrow> ucast (ucast b OR push_bit 8 v) = (b :: byte)"
  by (rule bit_word_eqI) (auto simp: bit_simps)

lemma drop_bit_le_word_Cons:
  fixes v :: "'a::len word"
  assumes "8 + m \<le> LENGTH('a)" and "take_bit m v = v"
  shows "drop_bit 8 (ucast (b :: byte) OR push_bit 8 v) = v"
proof (rule bit_word_eqI)
  fix n assume n: "n < LENGTH('a)"
  have v: "\<not> bit v n" if "\<not> n < m"
    using that assms(2) by (metis bit_take_bit_iff)
  show "bit (drop_bit 8 (ucast b OR push_bit 8 v)) n = bit v n"
    using n v assms(1) by (cases "n < m") (auto simp: bit_simps dest: bit_imp_le_length)
qed

lemma take_bit_le_word:
  "8 * length bs \<le> LENGTH('a) \<Longrightarrow> take_bit (8 * length bs) (le_word bs :: 'a::len word) = le_word bs"
proof (induction bs)
  case Nil
  show ?case by simp
next
  case (Cons b bs)
  let ?v = "le_word bs :: 'a word"
  have IH: "take_bit (8 * length bs) ?v = ?v"
    using Cons by simp
  have v: "\<not> bit ?v n" if "\<not> n < 8 * length bs" for n
    using that IH by (metis bit_take_bit_iff)
  show ?case
  proof (rule bit_word_eqI)
    fix n assume "n < LENGTH('a)"
    show "bit (take_bit (8 * length (b # bs)) (le_word (b # bs) :: 'a word)) n =
          bit (le_word (b # bs) :: 'a word) n"
      using v [of "n - 8"] by (fastforce simp: bit_simps dest: bit_imp_le_length)
  qed
qed

lemma le_bytes_le_word:
  "8 * length bs \<le> LENGTH('a) \<Longrightarrow> le_bytes (length bs) (le_word bs :: 'a::len word) = bs"
proof (induction bs)
  case Nil
  show ?case by simp
next
  case (Cons b bs)
  have "take_bit (8 * length bs) (le_word bs :: 'a word) = le_word bs"
    using Cons.prems by (intro take_bit_le_word) simp
  then have "drop_bit 8 (le_word (b # bs) :: 'a word) = le_word bs"
    using Cons.prems drop_bit_le_word_Cons [of "8 * length bs" "le_word bs :: 'a word" b] by simp
  moreover have "ucast (le_word (b # bs) :: 'a word) = b"
    using Cons.prems ucast_le_word_Cons [where v = "le_word bs :: 'a word" and b = b] by simp
  ultimately show ?case
    using Cons by (simp del: le_word.simps)
qed

lemma le_bytes_le_word_u32 [simp]: "length bs = 4 \<Longrightarrow> le_bytes 4 (le_word bs :: u32) = bs"
  using le_bytes_le_word [of bs, where 'a = 32] by simp

lemma le_bytes_le_word_u64 [simp]: "length bs = 8 \<Longrightarrow> le_bytes 8 (le_word bs :: u64) = bs"
  using le_bytes_le_word [of bs, where 'a = 64] by simp

end
