(* ===== verification/Block.thy ===== *)
theory Block
  imports Rabbit_Prelude
begin

text \<open>
  \<^verbatim>\<open>block/block.go\<close>: the block record, its wire format (\<open>Pack\<close>,
  \<open>NewBlockFromReader\<close>) and the block constructors. The main facts are the two round trips
  of the codec, and that \<open>NewDataBlocks\<close> cuts a byte string into consecutively numbered
  blocks that hold exactly that string.
\<close>

section \<open>Constants\<close>

text \<open>
  All constants stand in one \<^verbatim>\<open>const\<close> group, so \<^verbatim>\<open>iota\<close> keeps counting: the shutdown
  codes are 5, 6 and 7.
\<close>

definition TypeConnect :: byte where "TypeConnect = 0"
definition TypeDisconnect :: byte where "TypeDisconnect = 1"
definition TypeData :: byte where "TypeData = 2"
definition TypePing :: byte where "TypePing = 3"
definition TypePong :: byte where "TypePong = 4"
definition ShutdownRead :: byte where "ShutdownRead = 5"
definition ShutdownWrite :: byte where "ShutdownWrite = 6"
definition ShutdownBoth :: byte where "ShutdownBoth = 7"
definition HeaderSize :: nat where "HeaderSize = 1 + 4 + 8 + 4 + 4"
definition DataSize :: nat where "DataSize = 32 * 1024 - 13"
definition MaxSize :: nat where "MaxSize = HeaderSize + DataSize"

lemmas block_types [simp] =
  TypeConnect_def TypeDisconnect_def TypeData_def TypePing_def TypePong_def
lemmas shutdown_types [simp] = ShutdownRead_def ShutdownWrite_def ShutdownBoth_def

lemma HeaderSize_eq [simp]: "HeaderSize = 21"
  by (simp add: HeaderSize_def)

lemma DataSize_eq: "DataSize = 32755"
  by (simp add: DataSize_def)

lemma DataSize_pos [simp]: "0 < DataSize"
  by (simp add: DataSize_eq)

section \<open>The block record and its wire format\<close>

text \<open>The field \<open>packed\<close> caches the wire form; \<^verbatim>\<open>nil\<close> is \<open>None\<close>.\<close>

record Block =
  Type :: byte
  ConnectionID :: u32
  TimeStamp :: i64
  BlockID :: u32
  BlockLength :: u32
  BlockData :: "byte list"
  packed :: "byte list option"

definition header :: "Block \<Rightarrow> byte list" where
  "header b = Type b # le_bytes 4 (ConnectionID b) @ le_bytes 8 (TimeStamp b) @
     le_bytes 4 (BlockID b) @ le_bytes 4 (BlockLength b)"

definition Pack :: "Block \<Rightarrow> byte list \<times> Block" where
  "Pack b =
     (case packed b of
        Some p \<Rightarrow> (p, b)
      | None \<Rightarrow> let p = header b @ BlockData b in (p, b\<lparr>packed := Some p\<rparr>))"

definition parse_header :: "byte list \<Rightarrow> Block" where
  "parse_header h =
     \<lparr>Type = h ! 0,
      ConnectionID = le_word (take 4 (drop 1 h)),
      TimeStamp = le_word (take 8 (drop 5 h)),
      BlockID = le_word (take 4 (drop 13 h)),
      BlockLength = le_word (take 4 (drop 17 h)),
      BlockData = [], packed = None\<rparr>"

definition NewBlockFromReader_from :: "'s full_read \<Rightarrow> 's \<Rightarrow> (io_error + Block) \<times> 's" where
  "NewBlockFromReader_from rf s =
     (case rf HeaderSize s of
        (Inl e, s1) \<Rightarrow> (Inl e, s1)
      | (Inr h, s1) \<Rightarrow>
          let b = parse_header h in
          if BlockLength b > 0 then
            (case rf (unat (BlockLength b)) s1 of
               (Inl e, s2) \<Rightarrow> (Inl e, s2)
             | (Inr d, s2) \<Rightarrow> (Inr (b\<lparr>BlockData := d\<rparr>), s2))
          else (Inr b, s1))"

text \<open>On a plain byte source:\<close>

definition NewBlockFromReader :: "source \<Rightarrow> (io_error + Block) \<times> source" where
  "NewBlockFromReader = NewBlockFromReader_from ReadFull"

section \<open>Constructors\<close>

text \<open>\<^verbatim>\<open>time.Now().UnixNano()\<close> is the argument \<open>now\<close>; a string is its bytes.\<close>

definition NewConnectBlock :: "i64 \<Rightarrow> u32 \<Rightarrow> u32 \<Rightarrow> byte list \<Rightarrow> Block" where
  "NewConnectBlock now connectID blockID address =
     \<lparr>Type = TypeConnect, ConnectionID = connectID, TimeStamp = now, BlockID = blockID,
      BlockLength = of_nat (length address), BlockData = address, packed = None\<rparr>"

definition newDataBlock :: "i64 \<Rightarrow> u32 \<Rightarrow> u32 \<Rightarrow> byte list \<Rightarrow> Block" where
  "newDataBlock now connectID blockID data =
     snd (Pack \<lparr>Type = TypeData, ConnectionID = connectID, TimeStamp = now, BlockID = blockID,
      BlockLength = of_nat (length data), BlockData = data, packed = None\<rparr>)"

text \<open>
  The loop of \<open>NewDataBlocks\<close>: the cursor advances by \<open>DataSize\<close> or to the end, and each
  block takes \<open>blockID.Inc() - 1\<close>. The final value of the shared counter is returned; the
  clock may move between two blocks, so each reads it through \<open>now\<close> at its cursor.
\<close>

function data_blocks_from ::
    "(nat \<Rightarrow> i64) \<Rightarrow> u32 \<Rightarrow> u32 \<Rightarrow> nat \<Rightarrow> byte list \<Rightarrow> Block list \<times> u32" where
  "data_blocks_from now connectID blockID cursor data =
     (if cursor < length data then
        let end' = (if length data < cursor + DataSize then length data else cursor + DataSize);
            blockID' = blockID + 1;
            blk = newDataBlock (now cursor) connectID (blockID' - 1)
                    (take (end' - cursor) (drop cursor data));
            (blks, fin) = data_blocks_from now connectID blockID' end' data
        in (blk # blks, fin)
      else ([], blockID))"
  by pat_completeness auto
termination
  by (relation "measure (\<lambda>(_, _, _, cursor, data). length data - cursor)")
    (auto simp: DataSize_eq)

declare data_blocks_from.simps [simp del]

definition NewDataBlocks ::
    "(nat \<Rightarrow> i64) \<Rightarrow> u32 \<Rightarrow> u32 \<Rightarrow> byte list \<Rightarrow> Block list \<times> u32" where
  "NewDataBlocks now connectID blockID data = data_blocks_from now connectID blockID 0 data"

definition NewDisconnectBlock :: "i64 \<Rightarrow> u32 \<Rightarrow> u32 \<Rightarrow> byte \<Rightarrow> Block" where
  "NewDisconnectBlock now connectID blockID shutdownType =
     \<lparr>Type = TypeDisconnect, ConnectionID = connectID, TimeStamp = now, BlockID = blockID,
      BlockLength = 1, BlockData = [shutdownType], packed = None\<rparr>"

definition NewPingBlock :: "i64 \<Rightarrow> u32 \<Rightarrow> u32 \<Rightarrow> u64 \<Rightarrow> Block" where
  "NewPingBlock now connectID blockID lancenty =
     \<lparr>Type = TypePing, ConnectionID = connectID, TimeStamp = now, BlockID = blockID,
      BlockLength = 8, BlockData = le_bytes 8 lancenty, packed = None\<rparr>"

definition NewPongBlock :: "i64 \<Rightarrow> u32 \<Rightarrow> u32 \<Rightarrow> u64 \<Rightarrow> Block" where
  "NewPongBlock now connectID blockID timestamp =
     \<lparr>Type = TypePong, ConnectionID = connectID, TimeStamp = now, BlockID = blockID,
      BlockLength = 8, BlockData = le_bytes 8 timestamp, packed = None\<rparr>"

section \<open>Well-formed blocks\<close>

text \<open>
  The length field is the length of the data, and a cached wire form is the current one.
  Every constructor yields such a block as long as its data fits the 32-bit length.
\<close>

definition block_wf :: "Block \<Rightarrow> bool" where
  "block_wf b \<longleftrightarrow>
     unat (BlockLength b) = length (BlockData b) \<and>
     (packed b = None \<or> packed b = Some (header b @ BlockData b))"

definition wire :: "Block \<Rightarrow> byte list" where
  "wire b = fst (Pack b)"

text \<open>The fields a receiver can recover: everything but the cache.\<close>

definition uncached :: "Block \<Rightarrow> Block" where
  "uncached b = b\<lparr>packed := None\<rparr>"

lemma uncached_sels [simp]:
  "Type (uncached b) = Type b" "ConnectionID (uncached b) = ConnectionID b"
  "TimeStamp (uncached b) = TimeStamp b" "BlockID (uncached b) = BlockID b"
  "BlockLength (uncached b) = BlockLength b" "BlockData (uncached b) = BlockData b"
  "packed (uncached b) = None"
  by (simp_all add: uncached_def)

lemma length_header [simp, codec_simps]: "length (header b) = 21"
  by (simp add: header_def)

lemma wire_wf: "block_wf b \<Longrightarrow> wire b = header b @ BlockData b"
  by (auto simp: block_wf_def wire_def Pack_def Let_def split: option.splits)

lemma length_wire: "block_wf b \<Longrightarrow> length (wire b) = 21 + length (BlockData b)"
  by (simp add: wire_wf)

lemma Pack_wf: "block_wf b \<Longrightarrow> block_wf (snd (Pack b))"
  by (auto simp: block_wf_def Pack_def header_def Let_def split: option.splits)

lemma block_wf_uncached: "block_wf b \<Longrightarrow> block_wf (uncached b)"
  by (simp add: block_wf_def)

lemma uncached_Pack [simp]: "uncached (snd (Pack b)) = uncached b"
  by (simp add: Pack_def uncached_def Let_def split: option.splits)

lemma parse_header_header:
  "parse_header (header b) = b\<lparr>BlockData := [], packed := None\<rparr>"
  by (cases b) (simp add: parse_header_def header_def drop_Cons' numeral_eq_Suc [symmetric])


section \<open>The codec round trips\<close>

lemma NewBlockFromReader_wire:
  assumes "block_wf b"
  shows "NewBlockFromReader \<lparr>avail = wire b @ rest, final = e\<rparr> =
           (Inr (uncached b), \<lparr>avail = rest, final = e\<rparr>)"
proof -
  have len: "unat (BlockLength b) = length (BlockData b)"
    using assms by (simp add: block_wf_def)
  have h: "ReadFull 21 \<lparr>avail = wire b @ rest, final = e\<rparr> =
             (Inr (header b), \<lparr>avail = BlockData b @ rest, final = e\<rparr>)"
    using assms by (simp add: wire_wf ReadFull_append)
  have d: "ReadFull (unat (BlockLength b)) \<lparr>avail = BlockData b @ rest, final = e\<rparr> =
             (Inr (BlockData b), \<lparr>avail = rest, final = e\<rparr>)"
    by (simp add: len ReadFull_append)
  have z: "BlockData b = []" if "BlockLength b = 0"
    using len that by simp
  show ?thesis
    using z by (auto simp: NewBlockFromReader_def NewBlockFromReader_from_def h d parse_header_header uncached_def
        word_gt_0 Let_def)
qed

lemma header_parse_header:
  assumes "length h = 21"
  shows "header (parse_header h) = h"
proof -
  have split: "h = [h ! 0] @ take 4 (drop 1 h) @ take 8 (drop 5 h) @ take 4 (drop 13 h) @
                 take 4 (drop 17 h)" (is "_ = ?r")
  proof (rule nth_equalityI)
    show "length h = length ?r" using assms by simp
    fix i assume "i < length h"
    then show "h ! i = ?r ! i"
      using assms by (auto simp: nth_append nth_Cons' )
  qed
  have "header (parse_header h) = ?r"
    by (simp add: header_def parse_header_def assms)
  then show ?thesis
    using split by simp
qed

lemma NewBlockFromReader_InrD:
  assumes "NewBlockFromReader s = (Inr b, s')"
  shows "avail s = wire b @ avail s'" and "block_wf b" and "final s' = final s"
    and "packed b = None"
proof -
  obtain h s1 where h: "ReadFull 21 s = (Inr h, s1)"
    using assms by (auto simp: NewBlockFromReader_def NewBlockFromReader_from_def split: prod.splits sum.splits)
  note hD = ReadFull_InrD [OF h]
  have hh: "header (parse_header h) = h"
    using hD(2) by (rule header_parse_header)
  have pk: "packed (parse_header h) = None" and bd: "BlockData (parse_header h) = []"
    by (simp_all add: parse_header_def)
  have "avail s = wire b @ avail s' \<and> block_wf b \<and> final s' = final s \<and> packed b = None"
  proof (cases "BlockLength (parse_header h) > 0")
    case True
    then obtain d where d: "ReadFull (unat (BlockLength (parse_header h))) s1 = (Inr d, s')"
      and b: "b = (parse_header h)\<lparr>BlockData := d\<rparr>"
      using assms h by (auto simp: NewBlockFromReader_def NewBlockFromReader_from_def Let_def split: prod.splits sum.splits)
    note dD = ReadFull_InrD [OF d]
    have hb: "header b = h"
      using hh by (simp add: b header_def)
    have wf: "block_wf b"
      using dD(2) pk by (simp add: b block_wf_def)
    then show ?thesis
      using hD dD hb by (simp add: wire_wf) (simp add: b pk)
  next
    case False
    then have b: "b = parse_header h" "s' = s1"
      using assms h by (auto simp: NewBlockFromReader_def NewBlockFromReader_from_def Let_def)
    have wf: "block_wf b"
      using False pk bd by (simp add: b block_wf_def word_gt_0)
    then show ?thesis
      using hD hh bd pk by (simp add: wire_wf b)
  qed
  then show "avail s = wire b @ avail s'" "block_wf b" "final s' = final s" "packed b = None"
    by simp_all
qed

text \<open>
  A read fails exactly when the source does not start with a complete block, and then the
  source is used up.
\<close>

lemma NewBlockFromReader_InlD:
  assumes "NewBlockFromReader s = (Inl e, s')"
  shows "avail s' = []"
    and "length (avail s) < 21 \<or>
         length (avail s) < 21 + unat (BlockLength (parse_header (take 21 (avail s))))"
  using assms
  by (auto simp: NewBlockFromReader_def NewBlockFromReader_from_def ReadFull_def Let_def split: prod.splits sum.splits if_splits)

lemma NewBlockFromReader_short:
  assumes "length (avail s) < 21"
  shows "NewBlockFromReader s =
    (Inl (if avail s \<noteq> [] \<and> final s = EOF then ErrUnexpectedEOF else final s), s\<lparr>avail := []\<rparr>)"
  using assms by (simp add: NewBlockFromReader_def NewBlockFromReader_from_def ReadFull_def)

section \<open>The contract of a self-delimiting codec\<close>

text \<open>
  What the relays rely on: reading from a source that starts with an encoded value returns
  that value and leaves the source right behind it. Reading \<open>n\<close> times then recovers any
  sequence of values written one after the other.
\<close>

locale framed_codec =
  fixes enc :: "'b \<Rightarrow> byte list"
    and ok :: "'b \<Rightarrow> bool"
    and norm :: "'b \<Rightarrow> 'b"
    and dec :: "source \<Rightarrow> (io_error + 'b) \<times> source"
  assumes dec_enc:
    "ok b \<Longrightarrow> dec \<lparr>avail = enc b @ rest, final = e\<rparr> = (Inr (norm b), \<lparr>avail = rest, final = e\<rparr>)"
begin

fun dec_many :: "nat \<Rightarrow> source \<Rightarrow> 'b list \<times> source" where
  "dec_many 0 s = ([], s)"
| "dec_many (Suc n) s =
     (case dec s of
        (Inl _, s') \<Rightarrow> ([], s')
      | (Inr b, s') \<Rightarrow> (let (bs, s'') = dec_many n s' in (b # bs, s'')))"

lemma dec_many_concat:
  "list_all ok bs \<Longrightarrow>
     dec_many (length bs) \<lparr>avail = concat (map enc bs) @ rest, final = e\<rparr> =
       (map norm bs, \<lparr>avail = rest, final = e\<rparr>)"
  by (induction bs) (simp_all add: dec_enc)

lemma enc_unique:
  assumes "ok a" and "ok b" and "enc a @ xs = enc b @ ys"
  shows "norm a = norm b \<and> xs = ys"
  using dec_enc [OF assms(1), of xs EOF] dec_enc [OF assms(2), of ys EOF] assms(3) by simp

end

interpretation block_codec: framed_codec wire block_wf uncached NewBlockFromReader
  by unfold_locales (rule NewBlockFromReader_wire)



section \<open>Cutting data into blocks\<close>

definition ids_from :: "u32 \<Rightarrow> nat \<Rightarrow> u32 list" where
  "ids_from start n = map (\<lambda>i. start + of_nat i) [0..<n]"

lemma ids_from_0 [simp]: "ids_from start 0 = []"
  by (simp add: ids_from_def)

lemma ids_from_Suc: "ids_from start (Suc n) = start # ids_from (start + 1) n"
proof -
  have "[0..<Suc n] = 0 # map Suc [0..<n]"
    by (simp add: upt_conv_Cons map_Suc_upt del: upt_Suc)
  then show ?thesis
    by (simp add: ids_from_def add.assoc del: upt_Suc)
qed

lemma length_ids_from [simp]: "length (ids_from start n) = n"
  by (simp add: ids_from_def)

lemma newDataBlock_sels [simp]:
  "Type (newDataBlock now c i d) = TypeData"
  "ConnectionID (newDataBlock now c i d) = c"
  "TimeStamp (newDataBlock now c i d) = now"
  "BlockID (newDataBlock now c i d) = i"
  "BlockData (newDataBlock now c i d) = d"
  "BlockLength (newDataBlock now c i d) = of_nat (length d)"
  by (simp_all add: newDataBlock_def Pack_def Let_def)

lemma newDataBlock_wf: "length d < 4294967296 \<Longrightarrow> block_wf (newDataBlock now c i d)"
  unfolding newDataBlock_def by (rule Pack_wf) (simp add: block_wf_def)

text \<open>
  One statement about the loop carries all the properties: from any cursor and any counter
  the blocks hold the rest of the data, are numbered consecutively, and the counter ends
  right behind the last block.
\<close>

definition cut_ok :: "u32 \<Rightarrow> u32 \<Rightarrow> byte list \<Rightarrow> Block list \<times> u32 \<Rightarrow> bool" where
  "cut_ok connectID blockID data r \<longleftrightarrow>
     concat (map BlockData (fst r)) = data \<and>
     map BlockID (fst r) = ids_from blockID (length (fst r)) \<and>
     snd r = blockID + of_nat (length (fst r)) \<and>
     length (fst r) = (length data + DataSize - 1) div DataSize \<and>
     list_all (\<lambda>b. Type b = TypeData \<and> ConnectionID b = connectID \<and> block_wf b \<and>
       0 < length (BlockData b) \<and> length (BlockData b) \<le> DataSize) (fst r)"

lemma ceil_div_step:
  assumes "0 < n" and "0 < (d :: nat)"
  shows "(n + d - 1) div d = Suc ((n - d + d - 1) div d)"
proof -
  have "(n + d - 1) div d = (n - 1 + d) div d"
    using assms by simp
  also have "\<dots> = Suc ((n - 1) div d)"
    using assms(2) by (subst div_add_self2) simp_all
  also have "(n - 1) div d = (n - d + d - 1) div d"
    using assms by (cases "d \<le> n") auto
  finally show ?thesis .
qed

lemma cut_ok_Nil: "cut_ok c i [] ([], i)"
  by (simp add: cut_ok_def DataSize_eq)

lemma cut_ok_Cons:
  assumes "cut_ok c (i + 1) (drop DataSize data) (bs, fin)" and "data \<noteq> []"
  shows "cut_ok c i data (newDataBlock now c i (take DataSize data) # bs, fin)"
proof -
  have n: "0 < length data" and small: "length (take DataSize data) < 4294967296"
    using assms(2) by (simp_all add: DataSize_eq)
  have IH: "concat (map BlockData bs) = drop DataSize data"
      "map BlockID bs = ids_from (i + 1) (length bs)" "fin = i + 1 + of_nat (length bs)"
      "length bs = (length data - DataSize + DataSize - 1) div DataSize"
      "list_all (\<lambda>b. Type b = TypeData \<and> ConnectionID b = c \<and> block_wf b \<and>
         0 < length (BlockData b) \<and> length (BlockData b) \<le> DataSize) bs"
    using assms(1) by (simp_all add: cut_ok_def)
  show ?thesis
    unfolding cut_ok_def fst_conv snd_conv
  proof (intro conjI)
    show "length (newDataBlock now c i (take DataSize data) # bs) =
          (length data + DataSize - 1) div DataSize"
      using ceil_div_step [OF n DataSize_pos] IH(4) by simp
  qed (use IH n newDataBlock_wf [OF small] in \<open>simp_all add: ids_from_Suc\<close>)
qed

lemma data_blocks_from_cut:
  "cut_ok c i (drop cursor data) (data_blocks_from now c i cursor data)"
proof (induction now c i cursor data rule: data_blocks_from.induct)
  case (1 now c i cursor data)
  show ?case
  proof (cases "cursor < length data")
    case True
    define end' where
      "end' = (if length data < cursor + DataSize then length data else cursor + DataSize)"
    obtain bs fin where r: "data_blocks_from now c (i + 1) end' data = (bs, fin)"
      by (cases "data_blocks_from now c (i + 1) end' data")
    have "cut_ok c (i + 1) (drop end' data) (bs, fin)"
      using "1.IH" [OF True end'_def] r by simp
    moreover have "drop end' data = drop DataSize (drop cursor data)"
      by (auto simp: end'_def add.commute)
    moreover have "take (end' - cursor) (drop cursor data) = take DataSize (drop cursor data)"
      by (auto simp: end'_def)
    ultimately show ?thesis
      using True r cut_ok_Cons [of c i "drop cursor data" bs fin "now cursor"]
      by (simp add: data_blocks_from.simps [of now c i cursor data] end'_def [symmetric] Let_def)
  next
    case False
    then show ?thesis
      by (simp add: data_blocks_from.simps [of now c i cursor data] cut_ok_Nil)
  qed
qed

lemma NewDataBlocks_cut: "cut_ok c i data (NewDataBlocks now c i data)"
  using data_blocks_from_cut [of c i 0 data now] by (simp add: NewDataBlocks_def)

section \<open>Properties of the wire format\<close>

text \<open>
  C18: reading back a packed block. From a source that starts with the packed form of a well-formed
  block, \<open>NewBlockFromReader\<close> returns a block with the same fields and leaves exactly the
  bytes after it, so blocks can follow one another on a stream.
\<close>

theorem block_roundtrip:
  assumes "block_wf b"
  shows "NewBlockFromReader \<lparr>avail = fst (Pack b) @ rest, final = e\<rparr> =
    (Inr (b\<lparr>packed := None\<rparr>), \<lparr>avail = rest, final = e\<rparr>)"
  using NewBlockFromReader_wire [OF assms, of rest e] by (simp add: wire_def uncached_def)

theorem block_roundtrip_witness:
  "NewBlockFromReader \<lparr>avail = fst (Pack (NewDisconnectBlock 5 6 7 ShutdownBoth)) @ [1, 2], final = EOF\<rparr> =
    (Inr (NewDisconnectBlock 5 6 7 ShutdownBoth), \<lparr>avail = [1, 2], final = EOF\<rparr>)"
  using block_roundtrip [of "NewDisconnectBlock 5 6 7 ShutdownBoth" "[1, 2]" EOF]
  by (simp add: block_wf_def NewDisconnectBlock_def)

text \<open>
  C20: the parser accepts nothing but packed blocks. When \<open>NewBlockFromReader\<close> succeeds, the
  bytes it consumed are the packed form of the block it returns, whose length field is the
  length of its data.
\<close>

theorem block_parse_exact:
  assumes "NewBlockFromReader s = (Inr b, s')"
  shows "avail s = fst (Pack b) @ avail s' \<and> unat (BlockLength b) = length (BlockData b) \<and>
    final s' = final s"
  using NewBlockFromReader_InrD [OF assms] by (simp add: wire_def block_wf_def)

theorem block_parse_exact_witness:
  "\<exists>b s'. NewBlockFromReader \<lparr>avail = replicate 17 1 @ [2, 0, 0, 0, 8, 9, 3], final = EOF\<rparr> = (Inr b, s') \<and>
     replicate 17 1 @ [2, 0, 0, 0, 8, 9, 3] = fst (Pack b) @ avail s'"
proof -
  obtain b s' where r: "NewBlockFromReader \<lparr>avail = replicate 17 1 @ [2, 0, 0, 0, 8, 9, 3], final = EOF\<rparr> = (Inr b, s')"
    by (simp add: NewBlockFromReader_def NewBlockFromReader_from_def ReadFull_def parse_header_def)
  show ?thesis
    using r block_parse_exact [OF r] by auto
qed

text \<open>
  A truncated block is an error. If the stream ends inside a packed block, no block is
  returned; the error is \<open>EOF\<close> when the cut is before the block or right behind its header,
  and \<open>ErrUnexpectedEOF\<close> anywhere else.
\<close>

theorem block_truncated:
  assumes "block_wf b" and "k < length (fst (Pack b))"
  shows "fst (NewBlockFromReader \<lparr>avail = take k (fst (Pack b)), final = EOF\<rparr>) =
    Inl (if k = 0 \<or> k = 21 then EOF else ErrUnexpectedEOF)"
proof -
  have w: "fst (Pack b) = header b @ BlockData b" and len: "unat (BlockLength b) = length (BlockData b)"
    using assms(1) wire_wf [of b] by (simp_all add: wire_def block_wf_def)
  have k: "k < 21 + length (BlockData b)"
    using assms(2) w by simp
  show ?thesis
  proof (cases "k < 21")
    case True
    have "header b \<noteq> []"
      using length_header [of b] by (metis list.size(3) zero_neq_numeral)
    then show ?thesis
      using True by (simp add: NewBlockFromReader_short w)
  next
    case False
    then have "BlockLength b > 0"
      using k len by (cases "BlockLength b = 0") (auto simp: word_gt_0)
    then show ?thesis
      using False k len
      by (auto simp: NewBlockFromReader_def NewBlockFromReader_from_def ReadFull_def w parse_header_header Let_def)
  qed
qed

theorem block_truncated_witness:
  "fst (NewBlockFromReader \<lparr>avail = take 21 (fst (Pack (NewPingBlock 1 2 3 4))), final = EOF\<rparr>) = Inl EOF"
  using block_truncated [of "NewPingBlock 1 2 3 4" 21]
  by (simp add: block_wf_def NewPingBlock_def Pack_def Let_def)

text \<open>
  C21: cutting data into blocks. \<open>NewDataBlocks\<close> returns data blocks of the given connection
  whose contents concatenate to the data; their numbers run consecutively (modulo \<open>2\<^sup>3\<^sup>2\<close>)
  from the counter, which ends right behind the last; there are as many blocks as
  \<open>DataSize\<close>-byte pieces are needed, none empty and none larger, each with a correct
  length field.
\<close>

theorem data_blocks_cut:
  "let (blks, i') = NewDataBlocks now c i data in
     concat (map BlockData blks) = data \<and>
     map BlockID blks = map (\<lambda>j. i + of_nat j) [0..<length blks] \<and>
     i' = i + of_nat (length blks) \<and>
     length blks = (length data + DataSize - 1) div DataSize \<and>
     list_all (\<lambda>b. Type b = TypeData \<and> ConnectionID b = c \<and>
       unat (BlockLength b) = length (BlockData b) \<and>
       0 < length (BlockData b) \<and> length (BlockData b) \<le> DataSize) blks"
  using NewDataBlocks_cut [of c i data now]
  by (auto simp: cut_ok_def ids_from_def block_wf_def list_all_iff split: prod.splits)

end
