(* ===== verification/Block_Processor.thy ===== *)
theory Block_Processor
  imports Block
begin

text \<open>
  \<^verbatim>\<open>connection/block_processor.go\<close>: reordering of the blocks of one connection and numbering
  of the blocks it sends. \<open>OrderedRelay\<close> is the handler of one iteration of the loop, one
  branch of its \<^verbatim>\<open>select\<close> per event. The contract of the receiving side is the locale
  \<open>in_order_delivery\<close>: after any arrivals, what has been delivered is the longest gap-free
  prefix of what the sender numbered.
\<close>

record blockProcessor =
  cache :: "u32 \<rightharpoonup> Block"
  sendBlockID :: u32
  recvBlockID :: u32
  lastRecvBlockID :: u32

definition newBlockProcessor :: blockProcessor where
  "newBlockProcessor =
     \<lparr>cache = Map.empty, sendBlockID = 0, recvBlockID = 0, lastRecvBlockID = 0\<rparr>"

section \<open>Receiving\<close>

text \<open>
  The inner loop: as long as the next expected block is cached, send it on, delete it and
  advance. Keys are 32-bit words, so the cache is finite and every round removes a key.
\<close>

function drain_cache :: "(u32 \<rightharpoonup> Block) \<Rightarrow> u32 \<Rightarrow> Block list \<times> (u32 \<rightharpoonup> Block) \<times> u32" where
  "drain_cache c r =
     (case c r of
        None \<Rightarrow> ([], c, r)
      | Some blk1 \<Rightarrow>
          let (out, c', r') = drain_cache (c(r := None)) (r + 1) in (blk1 # out, c', r'))"
  by pat_completeness auto
termination
proof (relation "measure (\<lambda>(c, r). card (dom c))")
  fix c :: "u32 \<rightharpoonup> Block" and r blk1
  assume "c r = Some blk1"
  then have "card (dom c - {r}) < card (dom c)"
    by (intro card_Diff1_less) auto
  then show "((c(r := None), r + 1), c, r) \<in> measure (\<lambda>(c, r). card (dom c))"
    by simp
qed simp

declare drain_cache.simps [simp del]

definition relay_block :: "blockProcessor \<Rightarrow> Block \<Rightarrow> Block list \<times> blockProcessor" where
  "relay_block x blk =
     (let x1 = (if BlockID blk + 1 > lastRecvBlockID x
                then x\<lparr>lastRecvBlockID := BlockID blk + 1\<rparr> else x)
      in if recvBlockID x1 = BlockID blk then
           (let (out, c', r') = drain_cache (cache x1) (recvBlockID x1 + 1)
            in (blk # out, x1\<lparr>cache := c', recvBlockID := r'\<rparr>))
         else if BlockID blk < recvBlockID x1 then ([], x1)
         else ([], x1\<lparr>cache := (cache x1)(BlockID blk \<mapsto> blk)\<rparr>))"

text \<open>
  One iteration of \<open>OrderedRelay\<close>. The result says what was put on the ordered queue,
  whether the loop goes on, has asked for the connection's removal, or has stopped.
\<close>

datatype relay_event = GotBlock Block | PacketWait | CtxDone

datatype relay_outcome = Continue | RemoveFromPool | Stopped

definition OrderedRelay ::
    "blockProcessor \<Rightarrow> relay_event \<Rightarrow> Block list \<times> relay_outcome \<times> blockProcessor" where
  "OrderedRelay x ev =
     (case ev of
        GotBlock blk \<Rightarrow> (let (out, x') = relay_block x blk in (out, Continue, x'))
      | PacketWait \<Rightarrow>
          if recvBlockID x = lastRecvBlockID x then ([], Continue, x)
          else ([], RemoveFromPool, x)
      | CtxDone \<Rightarrow> ([], Stopped, x))"

fun relay_blocks :: "blockProcessor \<Rightarrow> Block list \<Rightarrow> Block list \<times> blockProcessor" where
  "relay_blocks x [] = ([], x)"
| "relay_blocks x (b # bs) =
     (let (out, x') = relay_block x b; (out', x'') = relay_blocks x' bs in (out @ out', x''))"

section \<open>Sending\<close>

definition packData ::
    "(nat \<Rightarrow> i64) \<Rightarrow> blockProcessor \<Rightarrow> byte list \<Rightarrow> u32 \<Rightarrow> Block list \<times> blockProcessor" where
  "packData now x data connectionID =
     (let (bs, i) = NewDataBlocks now connectionID (sendBlockID x) data
      in (bs, x\<lparr>sendBlockID := i\<rparr>))"

definition packConnect ::
    "i64 \<Rightarrow> blockProcessor \<Rightarrow> byte list \<Rightarrow> u32 \<Rightarrow> Block \<times> blockProcessor" where
  "packConnect now x address connectionID =
     (let i = sendBlockID x + 1
      in (NewConnectBlock now connectionID (i - 1) address, x\<lparr>sendBlockID := i\<rparr>))"

definition packDisconnect ::
    "i64 \<Rightarrow> blockProcessor \<Rightarrow> u32 \<Rightarrow> byte \<Rightarrow> Block \<times> blockProcessor" where
  "packDisconnect now x connectionID shutdownType =
     (let i = sendBlockID x + 1
      in (NewDisconnectBlock now connectionID (i - 1) shutdownType, x\<lparr>sendBlockID := i\<rparr>))"

definition packPing :: "i64 \<Rightarrow> u32 \<Rightarrow> u64 \<Rightarrow> Block" where
  "packPing now connectionID latency = NewPingBlock now connectionID 0 latency"

definition packPong :: "i64 \<Rightarrow> u32 \<Rightarrow> u64 \<Rightarrow> Block" where
  "packPong now connectionID timestamp = NewPongBlock now connectionID 0 timestamp"

section \<open>The contract of in-order delivery\<close>

text \<open>
  \<open>rel hist S k s\<close>: of the numbered history \<open>hist\<close> the items with an index in \<open>S\<close> have
  arrived, and the first \<open>k\<close> have been delivered.
\<close>

locale in_order_delivery =
  fixes good :: "'b list \<Rightarrow> bool"
    and start :: 's
    and step :: "'s \<Rightarrow> 'b \<Rightarrow> 'b list \<times> 's"
    and rel :: "'b list \<Rightarrow> nat set \<Rightarrow> nat \<Rightarrow> 's \<Rightarrow> bool"
  assumes rel_start: "good hist \<Longrightarrow> rel hist {} 0 start"
    and rel_step: "good hist \<Longrightarrow> rel hist S k s \<Longrightarrow> i < length hist \<Longrightarrow>
      step s (hist ! i) = (out, s') \<Longrightarrow>
      \<exists>k'. k \<le> k' \<and> rel hist (insert i S) k' s' \<and> out = drop k (take k' hist)"
    and rel_least: "rel hist S k s \<Longrightarrow> {..<k} \<subseteq> S \<and> k \<notin> S \<and> k \<le> length hist"
begin

fun run :: "'s \<Rightarrow> 'b list \<Rightarrow> 'b list \<times> 's" where
  "run s [] = ([], s)"
| "run s (b # bs) = (let (out, s') = step s b; (out', s'') = run s' bs in (out @ out', s''))"

lemma run_rel:
  assumes "good hist"
  shows "rel hist S k s \<Longrightarrow> set is \<subseteq> {..<length hist} \<Longrightarrow>
    run s (map (nth hist) is) = (out, s') \<Longrightarrow>
    \<exists>k'. k \<le> k' \<and> rel hist (S \<union> set is) k' s' \<and> out = drop k (take k' hist)"
proof (induction "is" arbitrary: S k s out)
  case Nil
  then show ?case
    by (intro exI [of _ k]) simp
next
  case (Cons i "is")
  obtain o1 s1 where st: "step s (hist ! i) = (o1, s1)"
    by (cases "step s (hist ! i)")
  obtain o2 where rn: "run s1 (map (nth hist) is) = (o2, s')" and out: "out = o1 @ o2"
    using Cons.prems(3) st by (auto split: prod.splits)
  obtain k1 where k1: "k \<le> k1" "rel hist (insert i S) k1 s1" "o1 = drop k (take k1 hist)"
    using rel_step [OF assms Cons.prems(1) _ st] Cons.prems(2) by auto
  obtain k2 where k2: "k1 \<le> k2" "rel hist (insert i S \<union> set is) k2 s'" "o2 = drop k1 (take k2 hist)"
    using Cons.IH [OF k1(2) _ rn] Cons.prems(2) by auto
  have "take k1 hist @ drop k1 (take k2 hist) = take k2 hist"
    using k2(1) by (metis append_take_drop_id min.absorb1 take_take)
  moreover have "k1 \<le> length hist"
    using rel_least [OF k1(2)] by simp
  ultimately have "out = drop k (take k2 hist)"
    using out k1 k2 by (metis drop_append diff_is_0_eq drop0 length_take min.absorb2)
  then show ?case
    using k1(1) k2(1,2) by (intro exI [of _ k2]) simp
qed

lemma rel_unique:
  assumes "rel hist S k s" and "rel hist S k' s'"
  shows "k = k'"
  using rel_least [OF assms(1)] rel_least [OF assms(2)]
  by (metis lessThan_iff linorder_neqE_nat subsetD)

text \<open>Delivery is the gap-free prefix: a prefix always, everything once all has arrived.\<close>

lemma run_prefix:
  assumes "good hist" and "set is \<subseteq> {..<length hist}"
    and "run start (map (nth hist) is) = (out, s')"
  shows "\<exists>k. out = take k hist \<and> {..<k} \<subseteq> set is \<and> k \<notin> set is \<and> k \<le> length hist"
  using run_rel [OF assms(1) rel_start [OF assms(1)] assms(2,3)] rel_least by fastforce

lemma run_complete:
  assumes "good hist" and "set is = {..<length hist}"
    and "run start (map (nth hist) is) = (out, s')"
  shows "out = hist"
proof -
  obtain k where "out = take k hist" "k \<notin> set is"
    using run_prefix [OF assms(1) _ assms(3)] assms(2) by (metis order_refl)
  then show ?thesis
    using assms(2) by simp
qed

end

section \<open>The processor of the code satisfies the contract\<close>

text \<open>
  A numbered history: item \<open>i\<close> carries block number \<open>i\<close>, and there are fewer than
  \<open>2\<^sup>3\<^sup>2\<close> items, so that the counters do not wrap.
\<close>

definition numbered :: "Block list \<Rightarrow> bool" where
  "numbered hist \<longleftrightarrow>
     length hist < 4294967296 \<and> map BlockID hist = ids_from 0 (length hist)"

lemma numbered_BlockID:
  assumes "numbered hist" and "i < length hist"
  shows "BlockID (hist ! i) = of_nat i"
proof -
  have "BlockID (hist ! i) = map BlockID hist ! i"
    using assms(2) by simp
  also have "\<dots> = of_nat i"
    using assms by (simp only: numbered_def) (simp add: ids_from_def)
  finally show ?thesis .
qed

definition cached_of :: "Block list \<Rightarrow> nat set \<Rightarrow> nat \<Rightarrow> u32 \<rightharpoonup> Block" where
  "cached_of hist S k = (\<lambda>w. if unat w \<in> S \<and> k \<le> unat w then Some (hist ! unat w) else None)"

definition last_of :: "nat set \<Rightarrow> nat" where
  "last_of S = (if S = {} then 0 else Suc (Max S))"

definition proc_rel :: "Block list \<Rightarrow> nat set \<Rightarrow> nat \<Rightarrow> blockProcessor \<Rightarrow> bool" where
  "proc_rel hist S k x \<longleftrightarrow>
     S \<subseteq> {..<length hist} \<and> {..<k} \<subseteq> S \<and> k \<notin> S \<and> k \<le> length hist \<and>
     recvBlockID x = of_nat k \<and> lastRecvBlockID x = of_nat (last_of S) \<and>
     cache x = cached_of hist S k"

lemma cached_of_del:
  assumes "k < 4294967296"
  shows "(cached_of hist S k)(of_nat k := None) = cached_of hist S (Suc k)"
proof (rule ext)
  fix w :: u32
  have "unat w = k \<longleftrightarrow> w = of_nat k"
    using assms by (rule unat_eq_iff_u32)
  then show "((cached_of hist S k)(of_nat k := None)) w = cached_of hist S (Suc k) w"
    by (auto simp: cached_of_def)
qed

lemma cached_of_at: "k < 4294967296 \<Longrightarrow>
  cached_of hist S k (of_nat k) = (if k \<in> S then Some (hist ! k) else None)"
  by (simp add: cached_of_def)

lemma cached_of_skip: "k \<notin> S \<Longrightarrow> cached_of hist S k = cached_of hist S (Suc k)"
  by (rule ext) (auto simp: cached_of_def le_less_Suc_eq Suc_le_eq le_eq_less_or_eq)

lemma cached_of_insert_old:
  "i < k \<Longrightarrow> cached_of hist (insert i S) k = cached_of hist S k"
  by (rule ext) (auto simp: cached_of_def)

lemma cached_of_insert_new:
  assumes "k \<le> i" and "i < 4294967296"
  shows "(cached_of hist S k)(of_nat i \<mapsto> hist ! i) = cached_of hist (insert i S) k"
proof (rule ext)
  fix w :: u32
  have "unat w = i \<longleftrightarrow> w = of_nat i"
    using assms(2) by (rule unat_eq_iff_u32)
  then show "((cached_of hist S k)(of_nat i \<mapsto> hist ! i)) w = cached_of hist (insert i S) k w"
    using assms(1) by (auto simp: cached_of_def)
qed

text \<open>The drain loop delivers the run of arrived blocks that starts at \<open>k\<close>.\<close>

lemma drain_cached_of:
  assumes "length hist < 4294967296" and "S \<subseteq> {..<length hist}" and "k \<le> length hist"
  shows "\<exists>k' \<ge> k. k' \<le> length hist \<and> k' \<notin> S \<and> {k..<k'} \<subseteq> S \<and>
    drain_cache (cached_of hist S k) (of_nat k) =
      (drop k (take k' hist), cached_of hist S k', of_nat k')"
  using assms(3)
proof (induction "length hist - k" arbitrary: k)
  case 0
  then have "k = length hist" and "k \<notin> S"
    using assms(2) by auto
  then show ?case
    using assms(1)
    by (intro exI [of _ k]) (simp add: drain_cache.simps [of "cached_of hist S _"] cached_of_at)
next
  case (Suc n)
  then have k: "k < length hist" "k < 4294967296"
    using assms(1) by simp_all
  show ?case
  proof (cases "k \<in> S")
    case False
    then show ?thesis
      using k by (intro exI [of _ k])
        (simp add: drain_cache.simps [of "cached_of hist S _"] cached_of_at)
  next
    case True
    have n: "n = length hist - Suc k"
      using Suc.hyps(2) by linarith
    obtain k' where k': "Suc k \<le> k'" "k' \<le> length hist" "k' \<notin> S" "{Suc k..<k'} \<subseteq> S"
      "drain_cache (cached_of hist S (Suc k)) (of_nat (Suc k)) =
         (drop (Suc k) (take k' hist), cached_of hist S k', of_nat k')"
      using Suc.hyps(1) [OF n] k by (auto simp del: of_nat_Suc)
    have "drop k (take k' hist) = hist ! k # drop (Suc k) (take k' hist)"
      using k k' by (subst Cons_nth_drop_Suc [symmetric]) auto
    moreover have "{k..<k'} \<subseteq> S"
    proof
      fix j assume "j \<in> {k..<k'}"
      then have "j = k \<or> j \<in> {Suc k..<k'}" by auto
      then show "j \<in> S" using k'(4) True by blast
    qed
    moreover have "drain_cache (cached_of hist S k) (of_nat k) =
        (hist ! k # drop (Suc k) (take k' hist), cached_of hist S k', of_nat k')"
      using k True k'(5)
      by (subst drain_cache.simps) (simp add: cached_of_at cached_of_del add.commute)
    ultimately show ?thesis
      using k' by (intro exI [of _ k']) auto
  qed
qed

lemma last_of_insert: "finite S \<Longrightarrow> last_of (insert i S) = max (Suc i) (last_of S)"
  by (auto simp: last_of_def)

lemma last_of_le: "S \<subseteq> {..<n} \<Longrightarrow> last_of S \<le> n"
  using finite_subset [of S "{..<n}"] by (auto simp: last_of_def Suc_le_eq)

lemma relay_block_last:
  assumes "relay_block x blk = (out, x')"
  shows "lastRecvBlockID x' = max (BlockID blk + 1) (lastRecvBlockID x)"
  using assms by (auto simp: relay_block_def Let_def max_def split: prod.splits if_splits)

lemma of_nat_less_u32:
  "m < 4294967296 \<Longrightarrow> n < 4294967296 \<Longrightarrow> (of_nat m :: u32) < of_nat n \<longleftrightarrow> m < n"
  by (simp add: word_less_nat_alt)

lemma max_of_nat_u32:
  "m < 4294967296 \<Longrightarrow> n < 4294967296 \<Longrightarrow> max (of_nat m :: u32) (of_nat n) = of_nat (max m n)"
  by (auto simp: max_def word_le_nat_alt)

lemma proc_rel_start: "proc_rel hist {} 0 newBlockProcessor"
  by (auto simp: proc_rel_def newBlockProcessor_def last_of_def cached_of_def)

lemma relay_block_last_of:
  assumes "numbered hist" and "proc_rel hist S k x" and "i < length hist"
    and "relay_block x (hist ! i) = (out, x')"
  shows "lastRecvBlockID x' = of_nat (last_of (insert i S))"
proof -
  have fin: "finite S" and l: "last_of S < 4294967296" and i: "Suc i < 4294967296"
    using assms last_of_le [of S "length hist"] finite_subset [of S "{..<length hist}"]
    by (auto simp: numbered_def proc_rel_def)
  have "lastRecvBlockID x' = max (of_nat (Suc i)) (of_nat (last_of S))"
    using relay_block_last [OF assms(4)] numbered_BlockID [OF assms(1,3)] assms(2)
    by (simp add: proc_rel_def add.commute)
  also have "\<dots> = of_nat (max (Suc i) (last_of S))"
    using i l by (rule max_of_nat_u32)
  finally show ?thesis
    using fin by (simp add: last_of_insert)
qed

text \<open>The three branches of the handler: an old block, the expected one, an early one.\<close>

lemma proc_rel_step_old:
  assumes "numbered hist" and "proc_rel hist S k x" and "i < k"
    and "relay_block x (hist ! i) = (out, x')"
  shows "proc_rel hist (insert i S) k x' \<and> out = []"
proof -
  have b: "k < 4294967296" "i < length hist" "insert i S = S"
    using assms by (auto simp: numbered_def proc_rel_def)
  have id: "BlockID (hist ! i) = of_nat i"
    using assms(1) b(2) by (rule numbered_BlockID)
  have "(of_nat i :: u32) < of_nat k" "(of_nat i :: u32) \<noteq> of_nat k"
    using assms(3) b of_nat_less_u32 [of i k] by auto
  then have "out = []" "cache x' = cache x" "recvBlockID x' = recvBlockID x"
    using assms(2,4) id by (auto simp: relay_block_def proc_rel_def Let_def split: if_splits)
  then show ?thesis
    using assms(2) b(3) relay_block_last_of [OF assms(1,2) b(2) assms(4)]
    by (simp add: proc_rel_def)
qed

lemma proc_rel_step_early:
  assumes "numbered hist" and "proc_rel hist S k x" and "k < i" and "i < length hist"
    and "relay_block x (hist ! i) = (out, x')"
  shows "proc_rel hist (insert i S) k x' \<and> out = []"
proof -
  have b: "k < 4294967296" "i < 4294967296"
    using assms by (auto simp: numbered_def proc_rel_def)
  have id: "BlockID (hist ! i) = of_nat i"
    using assms(1,4) by (rule numbered_BlockID)
  have "\<not> (of_nat i :: u32) < of_nat k" "(of_nat i :: u32) \<noteq> of_nat k"
    using assms(3) b of_nat_less_u32 [of k i] by auto
  then have "out = []" "cache x' = (cache x)(of_nat i \<mapsto> hist ! i)" "recvBlockID x' = recvBlockID x"
    using assms(2,5) id by (auto simp: relay_block_def proc_rel_def Let_def split: if_splits)
  moreover have "cache x' = cached_of hist (insert i S) k"
    using calculation(2) assms(2,3) b(2) cached_of_insert_new [of k i hist S]
    by (simp add: proc_rel_def)
  ultimately show ?thesis
    using assms(2,3,4) relay_block_last_of [OF assms(1,2,4,5)]
    by (auto simp: proc_rel_def)
qed

lemma proc_rel_step_next:
  assumes "numbered hist" and "proc_rel hist S k x" and "k < length hist"
    and "relay_block x (hist ! k) = (out, x')"
  shows "\<exists>k' \<ge> k. proc_rel hist (insert k S) k' x' \<and> out = drop k (take k' hist)"
proof -
  have b: "k < 4294967296" "length hist < 4294967296"
    and S: "insert k S \<subseteq> {..<length hist}" "{..<k} \<subseteq> S" "k \<notin> S"
    using assms by (auto simp: numbered_def proc_rel_def)
  have id: "BlockID (hist ! k) = of_nat k" and r: "recvBlockID x = of_nat k"
    using assms numbered_BlockID by (auto simp: proc_rel_def)
  have c: "cache x = cached_of hist (insert k S) (Suc k)"
    using assms(2) S cached_of_skip [of k S hist] cached_of_insert_old [of k "Suc k" hist S]
    by (simp add: proc_rel_def)
  obtain k' where k': "Suc k \<le> k'" "k' \<le> length hist" "k' \<notin> insert k S" "{Suc k..<k'} \<subseteq> insert k S"
    "drain_cache (cache x) (of_nat k + 1) =
       (drop (Suc k) (take k' hist), cached_of hist (insert k S) k', of_nat k')"
    using drain_cached_of [OF b(2) S(1), of "Suc k"] assms(3) c by (auto simp: add.commute)
  have "out = hist ! k # drop (Suc k) (take k' hist)" "recvBlockID x' = of_nat k'"
      "cache x' = cached_of hist (insert k S) k'"
    using assms(4) id r k'(5) by (auto simp: relay_block_def Let_def split: if_splits)
  moreover have "drop k (take k' hist) = hist ! k # drop (Suc k) (take k' hist)"
    using assms(3) k' by (subst Cons_nth_drop_Suc [symmetric]) auto
  moreover have "{..<k'} \<subseteq> insert k S"
  proof
    fix j assume "j \<in> {..<k'}"
    then have "j \<in> {..<k} \<or> j = k \<or> j \<in> {Suc k..<k'}" by auto
    then show "j \<in> insert k S" using S(2) k'(4) by blast
  qed
  ultimately show ?thesis
    using k' S relay_block_last_of [OF assms(1,2,3,4)]
    by (intro exI [of _ k']) (simp add: proc_rel_def)
qed

lemma proc_rel_step:
  assumes "numbered hist" and "proc_rel hist S k x" and "i < length hist"
    and "relay_block x (hist ! i) = (out, x')"
  shows "\<exists>k' \<ge> k. proc_rel hist (insert i S) k' x' \<and> out = drop k (take k' hist)"
proof (cases rule: linorder_cases [of i k])
  case less
  then show ?thesis
    using proc_rel_step_old [OF assms(1,2) less assms(4)] by (intro exI [of _ k]) simp
next
  case equal
  then show ?thesis
    using proc_rel_step_next assms by blast
next
  case greater
  then show ?thesis
    using proc_rel_step_early [OF assms(1,2) greater assms(3,4)] by (intro exI [of _ k]) simp
qed

interpretation proc: in_order_delivery numbered newBlockProcessor relay_block proc_rel
proof unfold_locales
  show "proc_rel hist {} 0 newBlockProcessor" for hist
    by (rule proc_rel_start)
  show "\<exists>k'. k \<le> k' \<and> proc_rel hist (insert i S) k' s' \<and> out = drop k (take k' hist)"
    if "numbered hist" "proc_rel hist S k s" "i < length hist" "relay_block s (hist ! i) = (out, s')"
    for hist S k s i out s'
    using proc_rel_step [OF that] by blast
  show "{..<k} \<subseteq> S \<and> k \<notin> S \<and> k \<le> length hist" if "proc_rel hist S k s" for hist S k s
    using that by (simp add: proc_rel_def)
qed

lemma relay_blocks_run: "relay_blocks x bs = proc.run x bs"
  by (induction bs arbitrary: x) auto

text \<open>
  At the packet-wait timeout the connection is given up exactly when a block beyond the next
  expected one has arrived, that is, when there is a hole.
\<close>

lemma proc_rel_timeout:
  assumes "numbered hist" and "proc_rel hist S k x"
  shows "fst (snd (OrderedRelay x PacketWait)) = RemoveFromPool \<longleftrightarrow> (\<exists>i \<in> S. k < i)"
proof -
  have S: "finite S" "{..<k} \<subseteq> S" "k \<notin> S" and b: "k < 4294967296" "last_of S < 4294967296"
    using assms last_of_le [of S "length hist"] finite_subset [of S "{..<length hist}"]
    by (auto simp: numbered_def proc_rel_def)
  have "k = last_of S \<longleftrightarrow> \<not> (\<exists>i \<in> S. k < i)"
  proof
    assume k: "k = last_of S"
    have "i < last_of S" if "i \<in> S" for i
      using S(1) that Max_ge [of S i] by (auto simp: last_of_def less_Suc_eq_le)
    then show "\<not> (\<exists>i \<in> S. k < i)"
      using k by fastforce
  next
    assume "\<not> (\<exists>i \<in> S. k < i)"
    then have "S = {..<k}"
      using S(2,3) by (metis lessThan_iff linorder_neqE_nat subsetI subset_antisym)
    then show "k = last_of S"
      by (cases k) (auto simp: last_of_def intro!: Max_eqI [symmetric])
  qed
  moreover have "recvBlockID x = lastRecvBlockID x \<longleftrightarrow> k = last_of S"
    using assms(2) b of_nat_inj_u32 by (auto simp: proc_rel_def)
  ultimately show ?thesis
    by (simp add: OrderedRelay_def)
qed

lemma relay_blocks_snoc:
  "relay_blocks x (bs @ [b]) =
     (let (out, x') = relay_blocks x bs; (out', x'') = relay_block x' b in (out @ out', x''))"
  by (induction bs arbitrary: x) (simp_all split: prod.splits)

text \<open>What is handed out, and what is cached, has been received.\<close>

lemma drain_cache_from:
  "drain_cache c r = (out, c', r') \<Longrightarrow> set out \<union> ran c' \<subseteq> ran c"
proof (induction c r arbitrary: out rule: drain_cache.induct)
  case (1 c r)
  show ?case
  proof (cases "c r")
    case None
    then show ?thesis
      using 1 by (simp add: drain_cache.simps [of c])
  next
    case (Some b)
    obtain o1 where o1: "drain_cache (c(r := None)) (r + 1) = (o1, c', r')" "out = b # o1"
      using 1(2) Some by (auto simp: drain_cache.simps [of c] split: prod.splits)
    have "ran (c(r := None)) \<subseteq> ran c" "b \<in> ran c"
      using Some by (auto simp: ran_def)
    then show ?thesis
      using 1(1) [OF Some o1(1)] unfolding o1(2) list.set by blast
  qed
qed

lemma relay_block_from:
  assumes "relay_block x b = (out, x')"
  shows "set out \<union> ran (cache x') \<subseteq> insert b (ran (cache x))"
proof -
  have "ran ((cache x)(BlockID b \<mapsto> b)) \<subseteq> insert b (ran (cache x))"
    by (auto simp: ran_def)
  moreover obtain o1 c' r' where "drain_cache (cache x) (BlockID b + 1) = (o1, c', r')"
    by (metis prod_cases3)
  moreover from drain_cache_from [OF this] have "set o1 \<union> ran c' \<subseteq> ran (cache x)" .
  ultimately show ?thesis
    using assms by (auto simp: relay_block_def Let_def split: if_splits)
qed

lemma relay_blocks_from:
  "relay_blocks x bs = (out, x') \<Longrightarrow> set out \<union> ran (cache x') \<subseteq> set bs \<union> ran (cache x)"
proof (induction bs arbitrary: x out)
  case (Cons b bs)
  obtain o1 x1 o2 where "relay_block x b = (o1, x1)" "relay_blocks x1 bs = (o2, x')" "out = o1 @ o2"
    using Cons.prems by (auto split: prod.splits)
  then show ?case
    using relay_block_from [of x b o1 x1] Cons.IH [of x1 o2] by auto
qed simp

section \<open>Properties of the ordered relay\<close>

text \<open>
  In-order delivery. Whatever blocks of a numbered history arrive, in any order and with
  any repetitions, what \<open>OrderedRelay\<close> has put on the ordered queue is the longest prefix of
  the history all of whose blocks have arrived.
\<close>

theorem relay_delivers_prefix:
  assumes "numbered hist" and "set arrived \<subseteq> {..<length hist}"
    and "relay_blocks newBlockProcessor (map (nth hist) arrived) = (out, x)"
  shows "\<exists>k. out = take k hist \<and> k \<le> length hist \<and> {..<k} \<subseteq> set arrived \<and> k \<notin> set arrived"
  using proc.run_prefix [OF assms(1,2)] assms(3) by (auto simp: relay_blocks_run)

definition sample_hist :: "nat \<Rightarrow> Block list" where
  "sample_hist n = map (\<lambda>i. NewDisconnectBlock 0 9 (of_nat i) (of_nat i)) [0..<n]"

lemma numbered_sample_hist: "n < 4294967296 \<Longrightarrow> numbered (sample_hist n)"
  by (simp add: numbered_def sample_hist_def ids_from_def NewDisconnectBlock_def comp_def)

theorem relay_delivers_prefix_witness:
  "\<exists>k. fst (relay_blocks newBlockProcessor (map (nth (sample_hist 4)) [1, 0, 3, 1])) =
     take k (sample_hist 4) \<and> {..<k} \<subseteq> {1, 0, 3} \<and> k \<notin> {1, 0, 3}"
proof -
  obtain out x where "relay_blocks newBlockProcessor (map (nth (sample_hist 4)) [1, 0, 3, 1]) = (out, x)"
    by fastforce
  then show ?thesis
    using relay_delivers_prefix [OF numbered_sample_hist [of 4], of "[1, 0, 3, 1]" out x]
    by (auto simp: sample_hist_def insert_commute)
qed

text \<open>
  C8: nothing is lost. Once every block of the history has arrived at least once, in whatever
  order, the relay has delivered exactly the history.
\<close>

theorem relay_delivers_all:
  assumes "numbered hist" and "set arrived = {..<length hist}"
  shows "fst (relay_blocks newBlockProcessor (map (nth hist) arrived)) = hist"
proof -
  obtain out x where r: "relay_blocks newBlockProcessor (map (nth hist) arrived) = (out, x)"
    by fastforce
  then show ?thesis
    using proc.run_complete [OF assms] by (auto simp: relay_blocks_run)
qed

theorem relay_delivers_all_witness:
  "fst (relay_blocks newBlockProcessor (map (nth (sample_hist 3)) [2, 0, 2, 1])) = sample_hist 3"
  by (rule relay_delivers_all) (auto simp: numbered_sample_hist, auto simp: sample_hist_def)

text \<open>
  C33: the timeout kills exactly the stalled connections. After any arrivals from a numbered
  history, the packet-wait timeout asks for the removal of the connection if and only if a block
  has arrived while an earlier one is still missing.
\<close>

theorem relay_timeout_iff_hole:
  assumes "numbered hist" and "set arrived \<subseteq> {..<length hist}"
    and "relay_blocks newBlockProcessor (map (nth hist) arrived) = (out, x)"
  shows "fst (snd (OrderedRelay x PacketWait)) = RemoveFromPool \<longleftrightarrow>
    (\<exists>i \<in> set arrived. \<exists>j < i. j \<notin> set arrived)"
proof -
  obtain k where k: "proc_rel hist (set arrived) k x"
    using proc.run_rel [OF assms(1) proc.rel_start [OF assms(1)] assms(2)] assms(3)
    by (auto simp: relay_blocks_run)
  have "(\<exists>i \<in> set arrived. k < i) \<longleftrightarrow> (\<exists>i \<in> set arrived. \<exists>j < i. j \<notin> set arrived)"
    using k unfolding proc_rel_def by (metis lessThan_iff linorder_neqE_nat order_less_trans subsetD)
  then show ?thesis
    using proc_rel_timeout [OF assms(1) k] by simp
qed

theorem relay_timeout_iff_hole_witness:
  "fst (snd (OrderedRelay (snd (relay_blocks newBlockProcessor (map (nth (sample_hist 3)) [0, 2]))) PacketWait)) =
     RemoveFromPool"
proof -
  obtain out x where r: "relay_blocks newBlockProcessor (map (nth (sample_hist 3)) [0, 2]) = (out, x)"
    by fastforce
  have "fst (snd (OrderedRelay x PacketWait)) = RemoveFromPool \<longleftrightarrow>
      (\<exists>i \<in> set [0, 2 :: nat]. \<exists>j < i. j \<notin> set [0, 2])"
    by (rule relay_timeout_iff_hole [OF numbered_sample_hist [of 3] _ r]) (auto simp: sample_hist_def)
  moreover have "\<exists>i \<in> set [0, 2 :: nat]. \<exists>j < i. j \<notin> set [0, 2]"
    by (rule bexI [of _ 2], rule exI [of _ 1]) auto
  ultimately show ?thesis
    using r by simp
qed

text \<open>
  C39: the block counter does not survive its wrap-around. When the relay waits for the last
  number \<open>2\<^sup>3\<^sup>2 - 1\<close> and its successor, which carries number 0, arrives early, the block is
  taken for an old one and dropped; the expected block is then delivered alone and the relay
  waits for number 0 with nothing cached for it.
\<close>

theorem relay_wrap_drops_block:
  assumes "recvBlockID x = - 1" and "cache x = Map.empty" and "BlockID early = 0" and "BlockID expected = - 1"
  shows "fst (relay_block x early) = [] \<and> cache (snd (relay_block x early)) = Map.empty \<and>
    fst (relay_block (snd (relay_block x early)) expected) = [expected] \<and>
    recvBlockID (snd (relay_block (snd (relay_block x early)) expected)) = 0"
proof -
  have lt: "(0 :: u32) < - 1"
    by (simp add: word_gt_0)
  have d: "drain_cache Map.empty 0 = ([], Map.empty, 0)"
    by (simp add: drain_cache.simps)
  show ?thesis
    using assms lt d by (simp add: relay_block_def Let_def)
qed

theorem relay_wrap_drops_block_witness:
  "fst (relay_block (newBlockProcessor\<lparr>recvBlockID := - 1\<rparr>) (NewDisconnectBlock 0 9 0 7)) = []"
  using relay_wrap_drops_block [of "newBlockProcessor\<lparr>recvBlockID := - 1\<rparr>"
      "NewDisconnectBlock 0 9 0 7" "NewDisconnectBlock 0 9 (- 1) 7"]
  by (simp add: newBlockProcessor_def NewDisconnectBlock_def)

end
