(* ===== verification/Ring_Buffer.thy ===== *)
theory Ring_Buffer
  imports Rabbit_Prelude
begin

text \<open>
  \<^verbatim>\<open>connection/ring_buffer.go\<close>: the byte buffer that keeps what is left of a block when a
  reader's slice is too short for it. The locale \<open>leftover_buffer\<close> is the contract
  \<^verbatim>\<open>InboundConnection\<close> relies on; the buffer of the code is interpreted in it through the
  abstraction \<open>rb_contents\<close> (the bytes between head and tail).
\<close>

record ByteRingBuffer =
  rb_buffer :: "byte list"
  rb_head :: nat
  rb_tail :: nat

definition NewByteRingBuffer :: "nat \<Rightarrow> ByteRingBuffer" where
  "NewByteRingBuffer sz = \<lparr>rb_buffer = replicate sz 0, rb_head = 0, rb_tail = 0\<rparr>"

text \<open>\<^verbatim>\<open>copy(dst, src)\<close> overwrites the first bytes of \<open>dst\<close> and returns how many.\<close>

definition go_copy :: "byte list \<Rightarrow> byte list \<Rightarrow> byte list \<times> nat" where
  "go_copy dst src =
     (let n = min (length dst) (length src) in (take n src @ drop n dst, n))"

definition OverWrite :: "ByteRingBuffer \<Rightarrow> byte list \<Rightarrow> ByteRingBuffer" where
  "OverWrite rb data =
     (let rb1 = (if length (rb_buffer rb) < length data
                 then rb\<lparr>rb_buffer := replicate (length data) 0\<rparr> else rb);
          (buf, n) = go_copy (rb_buffer rb1) data
      in rb1\<lparr>rb_buffer := buf, rb_head := 0, rb_tail := n\<rparr>)"

text \<open>
  \<open>rb_Read rb data\<close> is \<^verbatim>\<open>rb.Read(data)\<close>: the count, the destination after the copy and
  the buffer.
\<close>

definition rb_Read :: "ByteRingBuffer \<Rightarrow> byte list \<Rightarrow> nat \<times> byte list \<times> ByteRingBuffer" where
  "rb_Read rb data =
     (let n = (if length data > rb_tail rb - rb_head rb then rb_tail rb - rb_head rb
               else length data);
          (data', _) = go_copy data (take (rb_tail rb - rb_head rb) (drop (rb_head rb) (rb_buffer rb)))
      in (n, data', rb\<lparr>rb_head := rb_head rb + n\<rparr>))"

definition rb_Empty :: "ByteRingBuffer \<Rightarrow> bool" where
  "rb_Empty rb \<longleftrightarrow> rb_tail rb - rb_head rb = 0"

definition rb_wf :: "ByteRingBuffer \<Rightarrow> bool" where
  "rb_wf rb \<longleftrightarrow> rb_head rb \<le> rb_tail rb \<and> rb_tail rb \<le> length (rb_buffer rb)"

definition rb_contents :: "ByteRingBuffer \<Rightarrow> byte list" where
  "rb_contents rb = take (rb_tail rb - rb_head rb) (drop (rb_head rb) (rb_buffer rb))"

lemma length_rb_contents: "rb_wf rb \<Longrightarrow> length (rb_contents rb) = rb_tail rb - rb_head rb"
  by (auto simp: rb_wf_def rb_contents_def)

lemma rb_Empty_iff: "rb_wf rb \<Longrightarrow> rb_Empty rb \<longleftrightarrow> rb_contents rb = []"
  using length_rb_contents [of rb] by (auto simp: rb_Empty_def)

lemma NewByteRingBuffer_wf [simp]: "rb_wf (NewByteRingBuffer n)"
  by (simp add: rb_wf_def NewByteRingBuffer_def)

lemma NewByteRingBuffer_contents [simp]: "rb_contents (NewByteRingBuffer n) = []"
  by (simp add: rb_contents_def NewByteRingBuffer_def)

lemma OverWrite_wf [simp]: "rb_wf (OverWrite rb data)"
  by (auto simp: rb_wf_def OverWrite_def go_copy_def Let_def)

lemma OverWrite_contents [simp]: "rb_contents (OverWrite rb data) = data"
  by (auto simp: rb_contents_def OverWrite_def go_copy_def Let_def min_def)

lemma rb_Read_wf: "rb_wf rb \<Longrightarrow> rb_Read rb data = (n, data', rb') \<Longrightarrow> rb_wf rb'"
  by (auto simp: rb_wf_def rb_Read_def Let_def split: if_splits prod.splits)

lemma rb_Read_spec:
  assumes "rb_wf rb" and "rb_Read rb data = (n, data', rb')"
  shows "n = min (length data) (length (rb_contents rb))"
    and "data' = take n (rb_contents rb) @ drop n data"
    and "rb_contents rb' = drop n (rb_contents rb)"
proof -
  have len: "length (rb_contents rb) = rb_tail rb - rb_head rb"
    using assms(1) by (rule length_rb_contents)
  show n: "n = min (length data) (length (rb_contents rb))"
    using assms(2) by (auto simp: rb_Read_def Let_def len split: prod.splits)
  show "data' = take n (rb_contents rb) @ drop n data"
    using assms(2) n len
    by (auto simp: rb_Read_def Let_def go_copy_def rb_contents_def [symmetric] split: prod.splits)
  show "rb_contents rb' = drop n (rb_contents rb)"
    using assms(2)
    by (auto simp: rb_Read_def Let_def rb_contents_def drop_take add.commute split: prod.splits)
qed

section \<open>The contract of a leftover buffer\<close>

locale leftover_buffer =
  fixes over :: "'r \<Rightarrow> byte list \<Rightarrow> 'r"
    and rd :: "'r \<Rightarrow> byte list \<Rightarrow> nat \<times> byte list \<times> 'r"
    and is_empty :: "'r \<Rightarrow> bool"
    and invar :: "'r \<Rightarrow> bool"
    and contents :: "'r \<Rightarrow> byte list"
  assumes over_invar: "invar (over r d)"
    and over_contents: "contents (over r d) = d"
    and rd_invar: "invar r \<Longrightarrow> rd r d = (n, d', r') \<Longrightarrow> invar r'"
    and rd_count: "invar r \<Longrightarrow> rd r d = (n, d', r') \<Longrightarrow> n = min (length d) (length (contents r))"
    and rd_dest: "invar r \<Longrightarrow> rd r d = (n, d', r') \<Longrightarrow> d' = take n (contents r) @ drop n d"
    and rd_contents: "invar r \<Longrightarrow> rd r d = (n, d', r') \<Longrightarrow> contents r' = drop n (contents r)"
    and empty_iff: "invar r \<Longrightarrow> is_empty r \<longleftrightarrow> contents r = []"
begin

lemma rd_split:
  assumes "invar r" and "rd r d = (n, d', r')"
  shows "contents r = take n d' @ contents r'" and "n \<le> length d" and "length d' = length d"
  using assms rd_count [OF assms] rd_dest [OF assms] rd_contents [OF assms]
  by simp_all

text \<open>A short read leaves nothing behind: only a full destination stops a read early.\<close>

lemma rd_short_empties:
  assumes "invar r" and "rd r d = (n, d', r')" and "n < length d"
  shows "is_empty r'"
proof -
  have "contents r' = []"
    using assms(3) rd_count [OF assms(1,2)] rd_contents [OF assms(1,2)] by simp
  then show ?thesis
    using empty_iff [OF rd_invar [OF assms(1,2)]] by simp
qed

fun rd_all :: "nat list \<Rightarrow> 'r \<Rightarrow> byte list \<times> 'r" where
  "rd_all [] r = ([], r)"
| "rd_all (m # ms) r =
     (let (n, d', r') = rd r (replicate m 0); (out, r'') = rd_all ms r' in (take n d' @ out, r''))"

text \<open>Any sequence of reads returns the contents in order, without loss or repetition.\<close>

lemma rd_all_split:
  "invar r \<Longrightarrow> rd_all ms r = (out, r') \<Longrightarrow> contents r = out @ contents r' \<and> invar r'"
proof (induction ms arbitrary: r out r')
  case Nil
  then show ?case by simp
next
  case (Cons m ms)
  obtain n d1 r1 where rd1: "rd r (replicate m 0) = (n, d1, r1)"
    by (cases "rd r (replicate m 0)") auto
  obtain out2 r2 where all2: "rd_all ms r1 = (out2, r2)"
    by (cases "rd_all ms r1")
  have inv1: "invar r1"
    using Cons.prems(1) rd1 by (rule rd_invar)
  have "contents r1 = out2 @ contents r2 \<and> invar r2"
    using Cons.IH [OF inv1 all2] .
  moreover have "contents r = take n d1 @ contents r1"
    using rd_split(1) [OF Cons.prems(1) rd1] .
  ultimately show ?case
    using Cons.prems(2) rd1 all2 by simp
qed

end

interpretation ring: leftover_buffer OverWrite rb_Read rb_Empty rb_wf rb_contents
  by unfold_locales (auto simp: rb_Empty_iff dest: rb_Read_spec rb_Read_wf)

section \<open>Properties of the leftover buffer\<close>

fun rb_Reads :: "ByteRingBuffer \<Rightarrow> byte list list \<Rightarrow> byte list \<times> ByteRingBuffer" where
  "rb_Reads rb [] = ([], rb)"
| "rb_Reads rb (b # bs) =
     (let (n, b', rb') = rb_Read rb b; (out, rb'') = rb_Reads rb' bs in (take n b' @ out, rb''))"

lemma min_split_nat: "min a c + min b (c - min a c) = min (a + b) (c :: nat)"
  by linarith

lemma rb_Reads_split:
  "rb_wf rb \<Longrightarrow> rb_Reads rb bs = (out, rb') \<Longrightarrow>
     rb_contents rb = out @ rb_contents rb' \<and> rb_wf rb' \<and>
     length out = min (length (concat bs)) (length (rb_contents rb))"
proof (induction bs arbitrary: rb out)
  case Nil
  then show ?case by simp
next
  case (Cons b bs)
  obtain n b1 rb1 where rd: "rb_Read rb b = (n, b1, rb1)"
    by (cases "rb_Read rb b") auto
  obtain out2 where rs: "rb_Reads rb1 bs = (out2, rb')" and out: "out = take n b1 @ out2"
    using Cons.prems(2) rd by (auto split: prod.splits)
  note sp = ring.rd_count [OF Cons.prems(1) rd] ring.rd_dest [OF Cons.prems(1) rd]
    ring.rd_contents [OF Cons.prems(1) rd] ring.rd_split [OF Cons.prems(1) rd]
  note IH = Cons.IH [OF ring.rd_invar [OF Cons.prems(1) rd] rs]
  have "length (take n b1) = n"
    using sp(1,2) by simp
  then have "length out = n + length out2"
    using out by simp
  also have "length out2 = min (length (concat bs)) (length (rb_contents rb) - n)"
    using IH sp(3) by simp
  finally have "length out = min (length (concat (b # bs))) (length (rb_contents rb))"
    using sp(1) min_split_nat [of "length b" "length (rb_contents rb)" "length (concat bs)"] by simp
  moreover have "rb_contents rb = out @ rb_contents rb'"
    using sp(4) IH out by simp
  ultimately show ?case
    using IH by blast
qed

text \<open>
  Overwriting the buffer and reading it back. After \<open>OverWrite\<close> with any data, however
  long, any sequence of reads with slices of any lengths returns that data in order; what the
  reads did not take is still in the buffer.
\<close>

theorem overwrite_then_reads:
  assumes "rb_Reads (OverWrite rb data) bs = (out, rb')"
  shows "data = out @ rb_contents rb' \<and> length out = min (length (concat bs)) (length data) \<and> rb_wf rb'"
  using rb_Reads_split [OF OverWrite_wf assms] unfolding OverWrite_contents by blast

theorem overwrite_then_reads_witness:
  "\<exists>out rb'. rb_Reads (OverWrite (NewByteRingBuffer 2) [1, 2, 3]) [[0, 0], [0], [0]] = (out, rb') \<and> [1, 2, 3] = out"
proof -
  obtain out rb' where r: "rb_Reads (OverWrite (NewByteRingBuffer 2) [1, 2, 3]) [[0, 0], [0], [0]] = (out, rb')"
    by fastforce
  show ?thesis
    using r overwrite_then_reads [OF r] by (auto simp: append_eq_append_conv2 dest: arg_cong [where f = length])
qed

end
