(* ===== verification/Go_Chan.thy ===== *)
theory Go_Chan
  imports Rabbit_Prelude
begin

text \<open>
  Go channels as the program uses them: a bounded first-in first-out buffer that can be
  closed. A send to a full channel blocks, a send to a closed channel panics; a receive from
  an empty open channel blocks, and a receive from an empty closed channel yields the zero
  value at once. The locale \<open>fifo_chan\<close> is the contract the relays rely on.
\<close>

record 'a chan =
  chan_buf :: "'a list"
  chan_cap :: nat
  chan_closed :: bool

definition make_chan :: "nat \<Rightarrow> 'a chan" where
  "make_chan n = \<lparr>chan_buf = [], chan_cap = n, chan_closed = False\<rparr>"

datatype 'a send_result = Sent "'a chan" | SendBlocks | SendPanics

datatype 'a recv_result = Received 'a "'a chan" | ZeroValue | RecvBlocks

definition chan_send :: "'a chan \<Rightarrow> 'a \<Rightarrow> 'a send_result" where
  "chan_send c x =
     (if chan_closed c then SendPanics
      else if length (chan_buf c) < chan_cap c then Sent (c\<lparr>chan_buf := chan_buf c @ [x]\<rparr>)
      else SendBlocks)"

definition chan_recv :: "'a chan \<Rightarrow> 'a recv_result" where
  "chan_recv c =
     (case chan_buf c of
        x # xs \<Rightarrow> Received x (c\<lparr>chan_buf := xs\<rparr>)
      | [] \<Rightarrow> if chan_closed c then ZeroValue else RecvBlocks)"

definition chan_close :: "'a chan \<Rightarrow> 'a chan option" where
  \<comment> \<open>closing a closed channel panics: \<open>None\<close>\<close>
  "chan_close c = (if chan_closed c then None else Some (c\<lparr>chan_closed := True\<rparr>))"

lemma make_chan_simps [simp, chan_simps]:
  "chan_buf (make_chan n) = []" "chan_cap (make_chan n) = n" "\<not> chan_closed (make_chan n)"
  by (simp_all add: make_chan_def)

lemma chan_send_Sent_iff [chan_simps]:
  "chan_send c x = Sent c' \<longleftrightarrow>
     \<not> chan_closed c \<and> length (chan_buf c) < chan_cap c \<and> c' = c\<lparr>chan_buf := chan_buf c @ [x]\<rparr>"
  by (auto simp: chan_send_def)

lemma chan_recv_Received_iff [chan_simps]:
  "chan_recv c = Received x c' \<longleftrightarrow>
     (\<exists>xs. chan_buf c = x # xs \<and> c' = c\<lparr>chan_buf := xs\<rparr>)"
  by (auto simp: chan_recv_def split: list.splits)

definition chan_wf :: "'a chan \<Rightarrow> bool" where
  "chan_wf c \<longleftrightarrow> length (chan_buf c) \<le> chan_cap c"

section \<open>The contract of a first-in first-out channel\<close>

locale fifo_chan =
  fixes snd_op :: "'c \<Rightarrow> 'a \<Rightarrow> 'c option"
    and rcv_op :: "'c \<Rightarrow> ('a \<times> 'c) option"
    and contents :: "'c \<Rightarrow> 'a list"
  assumes snd_contents: "snd_op c x = Some c' \<Longrightarrow> contents c' = contents c @ [x]"
    and rcv_contents: "rcv_op c = Some (x, c') \<Longrightarrow> contents c = x # contents c'"
begin

fun send_all :: "'c \<Rightarrow> 'a list \<Rightarrow> 'c option" where
  "send_all c [] = Some c"
| "send_all c (x # xs) = (case snd_op c x of None \<Rightarrow> None | Some c' \<Rightarrow> send_all c' xs)"

fun recv_n :: "nat \<Rightarrow> 'c \<Rightarrow> ('a list \<times> 'c) option" where
  "recv_n 0 c = Some ([], c)"
| "recv_n (Suc n) c =
     (case rcv_op c of
        None \<Rightarrow> None
      | Some (x, c') \<Rightarrow>
          (case recv_n n c' of None \<Rightarrow> None | Some (xs, c'') \<Rightarrow> Some (x # xs, c'')))"

lemma send_all_contents: "send_all c xs = Some c' \<Longrightarrow> contents c' = contents c @ xs"
  by (induction xs arbitrary: c) (auto split: option.splits dest: snd_contents)

lemma recv_n_contents: "recv_n n c = Some (xs, c') \<Longrightarrow> contents c = xs @ contents c'"
  by (induction n arbitrary: c xs) (auto split: option.splits prod.splits dest: rcv_contents)

text \<open>What is received after sending on an empty channel comes out in the order it went in.\<close>

lemma send_recv_order:
  assumes "contents c = []" and "send_all c xs = Some c'" and "recv_n n c' = Some (ys, c'')"
  shows "xs = ys @ contents c''"
  using assms send_all_contents recv_n_contents by fastforce

end

definition try_send :: "'a chan \<Rightarrow> 'a \<Rightarrow> 'a chan option" where
  "try_send c x = (case chan_send c x of Sent c' \<Rightarrow> Some c' | _ \<Rightarrow> None)"

definition try_recv :: "'a chan \<Rightarrow> ('a \<times> 'a chan) option" where
  "try_recv c = (case chan_recv c of Received x c' \<Rightarrow> Some (x, c') | _ \<Rightarrow> None)"

interpretation go_fifo: fifo_chan try_send try_recv chan_buf
  by unfold_locales
    (auto simp: try_send_def try_recv_def chan_simps
      split: send_result.splits recv_result.splits)

lemma chan_send_wf: "chan_wf c \<Longrightarrow> chan_send c x = Sent c' \<Longrightarrow> chan_wf c'"
  by (auto simp: chan_wf_def chan_simps)

lemma chan_recv_wf: "chan_wf c \<Longrightarrow> chan_recv c = Received x c' \<Longrightarrow> chan_wf c'"
  by (auto simp: chan_wf_def chan_simps)

end
