(* ===== verification/Inbound_Connection.thy ===== *)
theory Inbound_Connection
  imports Block_Processor Ring_Buffer Go_Chan
begin

text \<open>
  \<^verbatim>\<open>connection/connection.go\<close> and \<^verbatim>\<open>connection/inbound_connection.go\<close>: the state common to
  both kinds of connections with its operations, and the client's side of a connection with
  \<open>Read\<close>, \<open>Write\<close> and the close operations. Blocks put on the pool's send queue are
  returned in the order they are sent.
\<close>

section \<open>The base connection\<close>

record baseConnection =
  processor :: blockProcessor
  connectionID :: u32
  closed :: bool
  recvQueue :: "Block chan"
  orderedRecvQueue :: "Block chan"
  LastActivity :: i64
  LatencyNano :: i64
  SentBytes :: u64
  RecvBytes :: u64
  ctxDone :: bool  \<comment> \<open>the connection's context is cancelled (\<^verbatim>\<open>removeFromPool\<close>)\<close>

definition SetLastActive :: "i64 \<Rightarrow> 'a baseConnection_scheme \<Rightarrow> 'a baseConnection_scheme" where
  "SetLastActive now c = c\<lparr>LastActivity := now\<rparr>"

definition SetLatencyNanoSince :: "i64 \<Rightarrow> i64 \<Rightarrow> 'a baseConnection_scheme \<Rightarrow> 'a baseConnection_scheme" where
  "SetLatencyNanoSince now timestamp c = c\<lparr>LatencyNano := now - timestamp\<rparr>"

definition Stop :: "'a baseConnection_scheme \<Rightarrow> 'a baseConnection_scheme" where
  "Stop c = c\<lparr>ctxDone := True\<rparr>"

definition RecvBlock :: "'a baseConnection_scheme \<Rightarrow> Block \<Rightarrow> Block send_result" where
  "RecvBlock c blk = chan_send (recvQueue c) blk"

definition SendConnect ::
    "i64 \<Rightarrow> byte list \<Rightarrow> 'a baseConnection_scheme \<Rightarrow> Block list \<times> 'a baseConnection_scheme" where
  "SendConnect now address c =
     (let (blk, p) = packConnect now (processor c) address (connectionID c)
      in ([blk], c\<lparr>processor := p\<rparr>))"

definition SendDisconnect ::
    "i64 \<Rightarrow> byte \<Rightarrow> 'a baseConnection_scheme \<Rightarrow> Block list \<times> 'a baseConnection_scheme" where
  "SendDisconnect now shutdownType c =
     (let (blk, p) = packDisconnect now (processor c) (connectionID c) shutdownType;
          c1 = c\<lparr>processor := p\<rparr>
      in ([blk], if shutdownType = ShutdownBoth then Stop c1 else c1))"

definition sendData ::
    "(nat \<Rightarrow> i64) \<Rightarrow> byte list \<Rightarrow> 'a baseConnection_scheme \<Rightarrow> Block list \<times> 'a baseConnection_scheme" where
  "sendData now data c =
     (let (blks, p) = packData now (processor c) data (connectionID c)
      in (blks, c\<lparr>processor := p\<rparr>))"

section \<open>The inbound connection\<close>

record InboundConnection = baseConnection +
  dataBuffer :: ByteRingBuffer
  readDeadline :: "i64 option"   \<comment> \<open>\<open>None\<close>: \<^verbatim>\<open>readCtx\<close> is the connection's context\<close>
  writeDeadline :: "i64 option"
  readClosed :: bool
  writeClosed :: bool

definition NewInboundConnection :: "i64 \<Rightarrow> nat \<Rightarrow> nat \<Rightarrow> u32 \<Rightarrow> InboundConnection" where
  "NewInboundConnection now recvSize orderedSize connID =
     \<lparr>processor = newBlockProcessor, connectionID = connID, closed = False,
      recvQueue = make_chan recvSize, orderedRecvQueue = make_chan orderedSize,
      LastActivity = now, LatencyNano = 0, SentBytes = 0, RecvBytes = 0, ctxDone = False,
      dataBuffer = NewByteRingBuffer MaxSize, readDeadline = None, writeDeadline = None,
      readClosed = False, writeClosed = False\<rparr>"

definition readCtxDone :: "i64 \<Rightarrow> InboundConnection \<Rightarrow> bool" where
  "readCtxDone now c =
     (case readDeadline c of None \<Rightarrow> ctxDone c | Some t \<Rightarrow> sint t \<le> sint now)"

definition SetReadDeadline :: "i64 \<Rightarrow> InboundConnection \<Rightarrow> InboundConnection" where
  "SetReadDeadline t c = c\<lparr>readDeadline := Some t\<rparr>"

definition SetWriteDeadline :: "i64 \<Rightarrow> InboundConnection \<Rightarrow> InboundConnection" where
  "SetWriteDeadline t c = c\<lparr>writeDeadline := Some t\<rparr>"

definition SetDeadline :: "i64 \<Rightarrow> InboundConnection \<Rightarrow> InboundConnection" where
  "SetDeadline t c = SetWriteDeadline t (SetReadDeadline t c)"

text \<open>
  \<open>readBlock\<close>: \<open>None\<close> is the panic of \<^verbatim>\<open>blk.BlockData[0]\<close> on a disconnect block without
  data. Otherwise the error (\<open>Some EOF\<close> or none), the new \<open>readN\<close>, the destination and the
  connection.
\<close>

definition readBlock ::
    "i64 \<Rightarrow> Block \<Rightarrow> nat \<Rightarrow> byte list \<Rightarrow> InboundConnection \<Rightarrow>
     (io_error option \<times> nat \<times> byte list \<times> InboundConnection) option" where
  "readBlock now blk readN b c0 =
     (let c = SetLastActive now c0 in
      if Type blk = TypeDisconnect then
        (case BlockData blk of
           [] \<Rightarrow> None
         | d # _ \<Rightarrow>
             if d = ShutdownBoth then Some (Some EOF, readN, b, c\<lparr>closed := True\<rparr>)
             else if d = ShutdownWrite then Some (Some EOF, readN, b, c\<lparr>readClosed := True\<rparr>)
             else if d = ShutdownRead then Some (None, readN, b, c\<lparr>writeClosed := True\<rparr>)
             else Some (None, readN, b, c))
      else if Type blk = TypeData then
        (let dst = drop readN b in
         if length dst < length (BlockData blk) then
           (let (n, dst', rb) = rb_Read (OverWrite (dataBuffer c) (BlockData blk)) dst
            in Some (None, readN + n, take readN b @ dst',
                 c\<lparr>dataBuffer := rb, RecvBytes := RecvBytes c + of_nat n\<rparr>))
         else
           (let (dst', n) = go_copy dst (BlockData blk)
            in Some (None, readN + n, take readN b @ dst',
                 c\<lparr>RecvBytes := RecvBytes c + of_nat n\<rparr>)))
      else Some (None, readN, b, c))"

text \<open>A receive from a closed empty channel yields the zero block.\<close>

definition zero_block :: Block where
  "zero_block = \<lparr>Type = 0, ConnectionID = 0, TimeStamp = 0, BlockID = 0, BlockLength = 0,
     BlockData = [], packed = None\<rparr>"

definition take_ordered :: "InboundConnection \<Rightarrow> (Block \<times> InboundConnection) option" where
  "take_ordered c =
     (case chan_recv (orderedRecvQueue c) of
        Received blk q \<Rightarrow> Some (blk, c\<lparr>orderedRecvQueue := q\<rparr>)
      | ZeroValue \<Rightarrow> Some (zero_block, c)
      | RecvBlocks \<Rightarrow> None)"

text \<open>
  The outcomes of \<open>Read\<close>: it returns, waits for a block, panics, or is still looping when
  the fuel is used up.
\<close>

datatype read_result =
    Returned nat "io_error option" "byte list" InboundConnection
  | Waits
  | Panics
  | Loops

fun read_closed_loop ::
    "nat \<Rightarrow> i64 \<Rightarrow> nat \<Rightarrow> byte list \<Rightarrow> InboundConnection \<Rightarrow> read_result" where
  "read_closed_loop 0 now readN b c = Loops"
| "read_closed_loop (Suc fuel) now readN b c =
     (case take_ordered c of
        None \<Rightarrow> if readN \<noteq> 0 then Returned readN None b c else Returned 0 (Some EOF) b c
      | Some (blk, c1) \<Rightarrow>
          (case readBlock now blk readN b c1 of
             None \<Rightarrow> Panics
           | Some (_, readN', b', c2) \<Rightarrow>
               if readN' = length b then Returned readN' None b' c2
               else read_closed_loop fuel now readN' b' c2))"

text \<open>
  A \<^verbatim>\<open>select\<close> between the ordered queue and \<^verbatim>\<open>readCtx.Done()\<close> takes either branch when
  both are ready; \<open>pick\<close> lists these choices (\<open>True\<close>: the context).
\<close>

definition choose_done :: "bool list \<Rightarrow> bool \<times> bool list" where
  "choose_done pick = (case pick of [] \<Rightarrow> (False, []) | p # ps \<Rightarrow> (p, ps))"

fun read_more_loop ::
    "nat \<Rightarrow> i64 \<Rightarrow> bool list \<Rightarrow> nat \<Rightarrow> byte list \<Rightarrow> InboundConnection \<Rightarrow> read_result" where
  "read_more_loop 0 now pick readN b c = Loops"
| "read_more_loop (Suc fuel) now pick readN b c =
     (case take_ordered c of
        None \<Rightarrow> Returned readN None b c
      | Some (blk, c1) \<Rightarrow>
          (let (skip, pick') = (if readCtxDone now c then choose_done pick else (False, pick)) in
           if skip then Returned readN None b c
           else
             (case readBlock now blk readN b c1 of
                None \<Rightarrow> Panics
              | Some (er, readN', b', c2) \<Rightarrow>
                  if er = Some EOF \<or> readN' = length b then Returned readN' None b' c2
                  else read_more_loop fuel now pick' readN' b' c2)))"

text \<open>The blocking receive of \<open>Read\<close> when nothing has been read yet, and what follows it.\<close>

definition select_done :: "i64 \<Rightarrow> bool list \<Rightarrow> InboundConnection \<Rightarrow> bool \<times> bool list" where
  "select_done now pick c =
     (if readCtxDone now c \<and> take_ordered c \<noteq> None then choose_done pick
      else (readCtxDone now c, pick))"

definition read_first ::
    "nat \<Rightarrow> i64 \<Rightarrow> bool list \<Rightarrow> byte list \<Rightarrow> InboundConnection \<Rightarrow> read_result" where
  "read_first fuel now pick b c =
     (case select_done now pick c of
        (True, _) \<Rightarrow> Returned 0 (Some EOF) b c
      | (False, pick') \<Rightarrow>
          (case take_ordered c of
             None \<Rightarrow> Waits
           | Some (blk, c1) \<Rightarrow>
               (case readBlock now blk 0 b c1 of
                  None \<Rightarrow> Panics
                | Some (er, readN', b', c2) \<Rightarrow>
                    if er = Some EOF \<or> readN' = length b then
                      (if readN' \<noteq> 0 then Returned readN' None b' c2 else Returned 0 er b' c2)
                    else read_more_loop fuel now pick' readN' b' c2)))"

definition Read ::
    "nat \<Rightarrow> i64 \<Rightarrow> bool list \<Rightarrow> byte list \<Rightarrow> InboundConnection \<Rightarrow> read_result" where
  "Read fuel now pick b c0 =
     (let (readN, b1, c) =
            (if \<not> rb_Empty (dataBuffer c0)
             then (let (n, d, rb) = rb_Read (dataBuffer c0) b in (n, d, c0\<lparr>dataBuffer := rb\<rparr>))
             else (0, b, c0))
      in if \<not> rb_Empty (dataBuffer c0) \<and> readN = length b then Returned readN None b1 c
         else if closed c \<or> readClosed c then read_closed_loop fuel now readN b1 c
         else if readN = 0 then read_first fuel now pick b1 c
         else read_more_loop fuel now pick readN b1 c)"

definition Write ::
    "(nat \<Rightarrow> i64) \<Rightarrow> byte list \<Rightarrow> InboundConnection \<Rightarrow>
     nat \<times> io_error option \<times> Block list \<times> InboundConnection" where
  "Write now b c =
     (if writeClosed c \<or> closed c then (0, Some EINVAL, [], c)
      else (let (blks, c1) = sendData now b c
            in (length b, None, blks, c1\<lparr>SentBytes := SentBytes c1 + of_nat (length b)\<rparr>)))"

text \<open>\<open>Close\<close>: the blocks sent and the connection; \<open>None\<close> is a panic.\<close>

definition Close :: "i64 \<Rightarrow> InboundConnection \<Rightarrow> (Block list \<times> InboundConnection) option" where
  "Close now c =
     (if \<not> closed c then
        (let (blks, c1) = SendDisconnect now ShutdownBoth (c\<lparr>closed := True\<rparr>)
         in case (chan_close (recvQueue c1), chan_close (orderedRecvQueue c1)) of
              (Some q1, Some q2) \<Rightarrow> Some (blks, Stop (c1\<lparr>recvQueue := q1, orderedRecvQueue := q2\<rparr>))
            | _ \<Rightarrow> None)
      else Some ([], Stop c))"

definition CloseRead :: "i64 \<Rightarrow> InboundConnection \<Rightarrow> Block list \<times> InboundConnection" where
  "CloseRead now c = SendDisconnect now ShutdownRead c"

definition CloseWrite :: "i64 \<Rightarrow> InboundConnection \<Rightarrow> Block list \<times> InboundConnection" where
  "CloseWrite now c = SendDisconnect now ShutdownWrite c"

section \<open>The byte stream of an inbound connection\<close>

text \<open>
  What the reader of the connection will still see: the leftover of the last block and the
  data of the blocks waiting in the ordered queue.
\<close>

definition data_of :: "Block \<Rightarrow> byte list" where
  "data_of blk = (if Type blk = TypeData then BlockData blk else [])"

definition pending :: "InboundConnection \<Rightarrow> byte list" where
  "pending c =
     rb_contents (dataBuffer c) @ concat (map data_of (chan_buf (orderedRecvQueue c)))"

definition conn_ok :: "InboundConnection \<Rightarrow> bool" where
  "conn_ok c \<longleftrightarrow> rb_wf (dataBuffer c) \<and> \<not> chan_closed (orderedRecvQueue c)"

text \<open>
  \<open>got d n n' b b'\<close>: between positions \<open>n\<close> and \<open>n'\<close> the destination received \<open>d\<close>, and
  nothing else of it changed.
\<close>

definition got :: "byte list \<Rightarrow> nat \<Rightarrow> nat \<Rightarrow> byte list \<Rightarrow> byte list \<Rightarrow> bool" where
  "got d n n' b b' \<longleftrightarrow>
     n \<le> n' \<and> n' \<le> length b \<and> b' = take n b @ d @ drop n' b \<and> length d = n' - n"

lemma got_refl: "n \<le> length b \<Longrightarrow> got [] n n b b"
  by (simp add: got_def)

lemma got_length: "got d n n' b b' \<Longrightarrow> length b' = length b"
  by (auto simp: got_def)

lemma got_le: "got d n n' b b' \<Longrightarrow> n' \<le> length b'"
  by (auto simp: got_def)

lemma got_trans:
  assumes "got d1 n n1 b b1" and "got d2 n1 n2 b1 b2"
  shows "got (d1 @ d2) n n2 b b2"
  using assms by (auto simp: got_def)

lemma got_prefix: "got d 0 n b b' \<Longrightarrow> d = take n b' \<and> drop n b' = drop n b"
  by (auto simp: got_def)

lemma readBlock_got:
  assumes "readBlock now blk n b c = Some (er, n', b', c')"
    and "rb_wf (dataBuffer c)" and "rb_contents (dataBuffer c) = []" and "n \<le> length b"
  obtains d where "got d n n' b b'" and "data_of blk = d @ rb_contents (dataBuffer c')"
    and "rb_wf (dataBuffer c')" and "rb_contents (dataBuffer c') = [] \<or> n' = length b"
    and "orderedRecvQueue c' = orderedRecvQueue c"
proof (cases "Type blk = TypeData \<and> length (drop n b) < length (BlockData blk)")
  case True
  obtain m dst' rb where rd: "rb_Read (OverWrite (dataBuffer c) (BlockData blk)) (drop n b) = (m, dst', rb)"
    by (cases "rb_Read (OverWrite (dataBuffer c) (BlockData blk)) (drop n b)") auto
  note sp = ring.rd_count [OF OverWrite_wf rd] ring.rd_dest [OF OverWrite_wf rd]
    ring.rd_contents [OF OverWrite_wf rd] ring.rd_invar [OF OverWrite_wf rd]
  have res: "n' = n + m" "b' = take n b @ dst'" "dataBuffer c' = rb"
      "orderedRecvQueue c' = orderedRecvQueue c"
    using assms(1) True rd by (auto simp: readBlock_def SetLastActive_def Let_def)
  have m: "m = length b - n"
    using sp(1) True by simp
  show ?thesis
    by (rule that [of "take m (BlockData blk)"])
       (use True sp res m assms(4) in \<open>auto simp: got_def data_of_def\<close>)
next
  case False
  show ?thesis
    by (rule that [of "data_of blk"])
       (use assms False in \<open>auto simp: readBlock_def SetLastActive_def got_def data_of_def go_copy_def
         Let_def add.commute split: list.splits if_splits prod.splits\<close>)
qed

lemma take_ordered_open:
  assumes "\<not> chan_closed (orderedRecvQueue c)"
  shows "take_ordered c = None \<longleftrightarrow> chan_buf (orderedRecvQueue c) = []"
    and "take_ordered c = Some (blk, c1) \<Longrightarrow>
      \<exists>q. chan_buf (orderedRecvQueue c) = blk # q \<and>
        c1 = c\<lparr>orderedRecvQueue := (orderedRecvQueue c)\<lparr>chan_buf := q\<rparr>\<rparr>"
  using assms by (auto simp: take_ordered_def chan_recv_def split: list.splits)

text \<open>
  One block of the ordered queue is read: the step shared by both loops and by the first
  blocking receive.
\<close>

lemma read_step:
  assumes "conn_ok c" and "rb_contents (dataBuffer c) = []" and "n \<le> length b"
    and "take_ordered c = Some (blk, c1)" and "readBlock now blk n b c1 = Some (er, n', b', c2)"
  obtains d where "got d n n' b b'" and "pending c = d @ pending c2" and "conn_ok c2"
    and "rb_contents (dataBuffer c2) = [] \<or> n' = length b"
    and "length (chan_buf (orderedRecvQueue c2)) < length (chan_buf (orderedRecvQueue c))"
proof -
  obtain q where q: "chan_buf (orderedRecvQueue c) = blk # q"
    and c1: "c1 = c\<lparr>orderedRecvQueue := (orderedRecvQueue c)\<lparr>chan_buf := q\<rparr>\<rparr>"
    using take_ordered_open(2) [OF _ assms(4)] assms(1) by (auto simp: conn_ok_def)
  obtain d where d: "got d n n' b b'" "data_of blk = d @ rb_contents (dataBuffer c2)"
      "rb_wf (dataBuffer c2)" "rb_contents (dataBuffer c2) = [] \<or> n' = length b"
      "orderedRecvQueue c2 = orderedRecvQueue c1"
    using readBlock_got [OF assms(5)] assms(1,2,3) c1 by (auto simp: conn_ok_def)
  show ?thesis
    by (rule that [OF d(1) _ _ d(4)])
       (use d q c1 assms(1,2) in \<open>auto simp: pending_def conn_ok_def\<close>)
qed

lemma read_closed_loop_got:
  "conn_ok c \<Longrightarrow> rb_contents (dataBuffer c) = [] \<Longrightarrow> n \<le> length b \<Longrightarrow>
   read_closed_loop fuel now n b c = Returned n' er b' c' \<Longrightarrow>
   \<exists>d. got d n n' b b' \<and> pending c = d @ pending c' \<and> conn_ok c'"
proof (induction fuel arbitrary: n b c)
  case 0
  then show ?case by simp
next
  case (Suc f)
  show ?case
  proof (cases "take_ordered c")
    case None
    then show ?thesis
      using Suc.prems got_refl [OF Suc.prems(3)] by (auto split: if_splits)
  next
    case (Some p)
    obtain blk c1 where p: "p = (blk, c1)" by (cases p)
    obtain e1 n1 b1 c2 where rb: "readBlock now blk n b c1 = Some (e1, n1, b1, c2)"
      using Suc.prems(4) Some p by (auto split: option.splits)
    obtain d where d: "got d n n1 b b1" "pending c = d @ pending c2" "conn_ok c2"
        "rb_contents (dataBuffer c2) = [] \<or> n1 = length b"
      using read_step [OF Suc.prems(1,2,3) Some [unfolded p] rb] by blast
    show ?thesis
    proof (cases "n1 = length b")
      case True
      then show ?thesis using Suc.prems(4) Some p rb d by auto
    next
      case False
      then have "read_closed_loop f now n1 b1 c2 = Returned n' er b' c'"
        using Suc.prems(4) Some p rb by simp
      then obtain d2 where "got d2 n1 n' b1 b'" "pending c2 = d2 @ pending c'" "conn_ok c'"
        using Suc.IH [OF d(3) _ got_le [OF d(1)]] d(4) False by blast
      then show ?thesis
        using d(1,2) got_trans by fastforce
    qed
  qed
qed

lemma read_more_loop_got:
  "conn_ok c \<Longrightarrow> rb_contents (dataBuffer c) = [] \<Longrightarrow> n \<le> length b \<Longrightarrow>
   read_more_loop fuel now pick n b c = Returned n' er b' c' \<Longrightarrow>
   \<exists>d. got d n n' b b' \<and> pending c = d @ pending c' \<and> conn_ok c'"
proof (induction fuel arbitrary: pick n b c)
  case 0
  then show ?case by simp
next
  case (Suc f)
  obtain skip pick' where sp: "(if readCtxDone now c then choose_done pick else (False, pick)) = (skip, pick')"
    by fastforce
  show ?case
  proof (cases "take_ordered c = None \<or> skip")
    case True
    then have "Returned n' er b' c' = Returned n None b c"
      using Suc.prems(4) sp by (auto split: option.splits)
    then show ?thesis
      using Suc.prems(1) got_refl [OF Suc.prems(3)] by auto
  next
    case False
    then obtain blk c1 where to: "take_ordered c = Some (blk, c1)" by auto
    obtain e1 n1 b1 c2 where rb: "readBlock now blk n b c1 = Some (e1, n1, b1, c2)"
      using Suc.prems(4) to False sp by (auto split: option.splits)
    obtain d where d: "got d n n1 b b1" "pending c = d @ pending c2" "conn_ok c2"
        "rb_contents (dataBuffer c2) = [] \<or> n1 = length b"
      using read_step [OF Suc.prems(1,2,3) to rb] by blast
    show ?thesis
    proof (cases "e1 = Some EOF \<or> n1 = length b")
      case True
      then show ?thesis using Suc.prems(4) to False sp rb d by auto
    next
      case cont: False
      then have "read_more_loop f now pick' n1 b1 c2 = Returned n' er b' c'"
        using Suc.prems(4) to False sp rb by simp
      then obtain d2 where "got d2 n1 n' b1 b'" "pending c2 = d2 @ pending c'" "conn_ok c'"
        using Suc.IH [OF d(3) _ got_le [OF d(1)]] d(4) cont by blast
      then show ?thesis
        using d(1,2) got_trans by fastforce
    qed
  qed
qed

lemma read_first_got:
  assumes "conn_ok c" and "rb_contents (dataBuffer c) = []"
    and "read_first fuel now pick b c = Returned n er b' c'"
  shows "\<exists>d. got d 0 n b b' \<and> pending c = d @ pending c' \<and> conn_ok c'"
proof (cases "select_done now pick c")
  case (Pair done_first pick')
  show ?thesis
  proof (cases done_first)
    case True
    then show ?thesis
      using assms Pair got_refl [of 0 b] by (auto simp: read_first_def)
  next
    case False
    then obtain bl c1 where to: "take_ordered c = Some (bl, c1)"
      using assms(3) Pair by (auto simp: read_first_def split: option.splits)
    obtain e1 n1 b1 c2 where rb: "readBlock now bl 0 b c1 = Some (e1, n1, b1, c2)"
      using assms(3) Pair False to by (auto simp: read_first_def split: option.splits)
    obtain d where d: "got d 0 n1 b b1" "pending c = d @ pending c2" "conn_ok c2"
        "rb_contents (dataBuffer c2) = [] \<or> n1 = length b"
      using read_step [OF assms(1,2) _ to rb] by blast
    show ?thesis
    proof (cases "e1 = Some EOF \<or> n1 = length b")
      case True
      then show ?thesis
        using assms(3) Pair False to rb d by (auto simp: read_first_def split: if_splits)
    next
      case cont: False
      then have "read_more_loop fuel now pick' n1 b1 c2 = Returned n er b' c'"
        using assms(3) Pair False to rb by (simp add: read_first_def)
      then obtain d2 where "got d2 n1 n b1 b'" "pending c2 = d2 @ pending c'" "conn_ok c'"
        using read_more_loop_got [OF d(3) _ got_le [OF d(1)]] d(4) cont by blast
      then show ?thesis
        using d(1,2) got_trans by fastforce
    qed
  qed
qed

text \<open>The leftover buffer is emptied before anything else is read.\<close>

lemma read_leftover:
  assumes "conn_ok c" and "rb_Read (dataBuffer c) b = (m, b1, rb)"
  shows "got (take m (rb_contents (dataBuffer c))) 0 m b b1"
    and "pending c = take m (rb_contents (dataBuffer c)) @ pending (c\<lparr>dataBuffer := rb\<rparr>)"
    and "conn_ok (c\<lparr>dataBuffer := rb\<rparr>)" and "m = length b \<or> rb_contents rb = []"
proof -
  have wf: "rb_wf (dataBuffer c)"
    using assms(1) by (simp add: conn_ok_def)
  note sp = ring.rd_count [OF wf assms(2)] ring.rd_dest [OF wf assms(2)]
    ring.rd_contents [OF wf assms(2)] ring.rd_invar [OF wf assms(2)]
  show "got (take m (rb_contents (dataBuffer c))) 0 m b b1"
    "pending c = take m (rb_contents (dataBuffer c)) @ pending (c\<lparr>dataBuffer := rb\<rparr>)"
    "conn_ok (c\<lparr>dataBuffer := rb\<rparr>)" "m = length b \<or> rb_contents rb = []"
    using sp assms(1) by (auto simp: got_def pending_def conn_ok_def)
qed

lemma Read_got:
  assumes "conn_ok c" and "Read fuel now pick b c = Returned n er b' c'"
  shows "\<exists>d. got d 0 n b b' \<and> pending c = d @ pending c' \<and> conn_ok c'"
proof (cases "rb_Empty (dataBuffer c)")
  case True
  then have e: "rb_contents (dataBuffer c) = []"
    using assms(1) ring.empty_iff by (simp add: conn_ok_def)
  then show ?thesis
    using True assms(2) read_closed_loop_got [OF assms(1) e] read_first_got [OF assms(1) e]
    by (auto simp: Read_def split: if_splits)
next
  case False
  obtain m b1 rb where rd: "rb_Read (dataBuffer c) b = (m, b1, rb)"
    by (cases "rb_Read (dataBuffer c) b") auto
  note lo = read_leftover [OF assms(1) rd]
  let ?c = "c\<lparr>dataBuffer := rb\<rparr>"
  show ?thesis
  proof (cases "m = length b")
    case True
    then show ?thesis
      using False assms(2) rd lo by (auto simp: Read_def)
  next
    case part: False
    then have e: "rb_contents (dataBuffer ?c) = []"
      using lo(4) by simp
    have "rb_contents (dataBuffer c) \<noteq> []"
      using False assms(1) ring.empty_iff by (auto simp: conn_ok_def)
    then have "m \<noteq> 0"
      using lo(2) e by (cases m) (auto simp: pending_def)
    then have "read_closed_loop fuel now m b1 ?c = Returned n er b' c' \<or>
          read_more_loop fuel now pick m b1 ?c = Returned n er b' c'"
      using False assms(2) rd part by (auto simp: Read_def split: if_splits)
    then obtain d2 where "got d2 m n b1 b'" "pending ?c = d2 @ pending c'" "conn_ok c'"
      using read_closed_loop_got [OF lo(3) e got_le [OF lo(1)]]
        read_more_loop_got [OF lo(3) e got_le [OF lo(1)]] by blast
    then show ?thesis
      using lo(1,2) got_trans by fastforce
  qed
qed

section \<open>Reads return\<close>

definition well_formed_disconnect :: "Block \<Rightarrow> bool" where
  "well_formed_disconnect blk \<longleftrightarrow> (Type blk = TypeDisconnect \<longrightarrow> BlockData blk \<noteq> [])"

definition queue_ok :: "InboundConnection \<Rightarrow> bool" where
  "queue_ok c \<longleftrightarrow> \<not> chan_closed (orderedRecvQueue c) \<and>
     list_all well_formed_disconnect (chan_buf (orderedRecvQueue c))"

lemma readBlock_total:
  assumes "well_formed_disconnect blk"
  obtains er n' b' c' where "readBlock now blk n b c = Some (er, n', b', c')"
    and "orderedRecvQueue c' = orderedRecvQueue c"
proof (cases "readBlock now blk n b c")
  case None
  then show ?thesis
    using assms by (auto simp: readBlock_def well_formed_disconnect_def Let_def
        split: if_splits list.splits prod.splits)
next
  case (Some r)
  obtain er n' b' c' where r: "r = (er, n', b', c')" by (cases r)
  have "orderedRecvQueue c' = orderedRecvQueue c"
    using Some r by (auto simp: readBlock_def SetLastActive_def Let_def
        split: if_splits list.splits prod.splits)
  then show ?thesis using that Some r by blast
qed

lemma read_step_total:
  assumes "queue_ok c" and "take_ordered c = Some (blk, c1)"
  obtains er n' b' c2 where "readBlock now blk n b c1 = Some (er, n', b', c2)" and "queue_ok c2"
    and "length (chan_buf (orderedRecvQueue c2)) < length (chan_buf (orderedRecvQueue c))"
proof -
  obtain q where q: "chan_buf (orderedRecvQueue c) = blk # q"
    and c1: "c1 = c\<lparr>orderedRecvQueue := (orderedRecvQueue c)\<lparr>chan_buf := q\<rparr>\<rparr>"
    using take_ordered_open(2) [OF _ assms(2)] assms(1) by (auto simp: queue_ok_def)
  have "well_formed_disconnect blk"
    using assms(1) q by (simp add: queue_ok_def)
  then obtain er n' b' c2 where "readBlock now blk n b c1 = Some (er, n', b', c2)"
      "orderedRecvQueue c2 = orderedRecvQueue c1"
    using readBlock_total by blast
  then show ?thesis
    using that q c1 assms(1) by (simp add: queue_ok_def)
qed

lemma read_closed_loop_returns:
  "queue_ok c \<Longrightarrow> length (chan_buf (orderedRecvQueue c)) < fuel \<Longrightarrow>
     \<exists>n' er b' c'. read_closed_loop fuel now n b c = Returned n' er b' c'"
proof (induction fuel arbitrary: n b c)
  case 0
  then show ?case by simp
next
  case (Suc f)
  show ?case
  proof (cases "take_ordered c")
    case None
    then show ?thesis by simp
  next
    case (Some p)
    obtain blk c1 where p: "p = (blk, c1)" by (cases p)
    obtain er n' b' c2 where rb: "readBlock now blk n b c1 = Some (er, n', b', c2)" and q: "queue_ok c2"
        and less: "length (chan_buf (orderedRecvQueue c2)) < length (chan_buf (orderedRecvQueue c))"
      using read_step_total [OF Suc.prems(1) Some [unfolded p]] by blast
    have "length (chan_buf (orderedRecvQueue c2)) < f"
      using less Suc.prems(2) by linarith
    note IH = Suc.IH [OF q this, of n' b']
    show ?thesis
      unfolding read_closed_loop.simps Some p option.case prod.case rb using IH by (cases "n' = length b") auto
  qed
qed

lemma read_more_loop_returns:
  "queue_ok c \<Longrightarrow> length (chan_buf (orderedRecvQueue c)) < fuel \<Longrightarrow>
     \<exists>n' er b' c'. read_more_loop fuel now pick n b c = Returned n' er b' c'"
proof (induction fuel arbitrary: pick n b c)
  case 0
  then show ?case by simp
next
  case (Suc f)
  show ?case
  proof (cases "take_ordered c")
    case None
    then show ?thesis by simp
  next
    case (Some p)
    obtain blk c1 where p: "p = (blk, c1)" by (cases p)
    obtain er n' b' c2 where rb: "readBlock now blk n b c1 = Some (er, n', b', c2)" and q: "queue_ok c2"
        and less: "length (chan_buf (orderedRecvQueue c2)) < length (chan_buf (orderedRecvQueue c))"
      using read_step_total [OF Suc.prems(1) Some [unfolded p]] by blast
    have "length (chan_buf (orderedRecvQueue c2)) < f"
      using less Suc.prems(2) by linarith
    note IH = Suc.IH [OF q this, of _ n' b']
    obtain skip pick' where
        sp: "(if readCtxDone now c then choose_done pick else (False, pick)) = (skip, pick')"
      by fastforce
    show ?thesis
      unfolding read_more_loop.simps Some p option.case prod.case rb sp Let_def
      using IH [of pick'] by (cases skip; cases "er = Some EOF \<or> n' = length b") auto
  qed
qed

lemma read_first_returns:
  assumes "queue_ok c" and "length (chan_buf (orderedRecvQueue c)) < fuel"
    and "chan_buf (orderedRecvQueue c) \<noteq> [] \<or> readCtxDone now c"
  shows "\<exists>n er b' c'. read_first fuel now pick b c = Returned n er b' c'"
proof (cases "select_done now pick c")
  case (Pair done_first pick')
  show ?thesis
  proof (cases "take_ordered c")
    case None
    then have "chan_buf (orderedRecvQueue c) = []"
      using assms(1) take_ordered_open(1) by (simp add: queue_ok_def)
    then have done_first
      using Pair None assms(3) by (auto simp: select_done_def)
    then show ?thesis using Pair by (simp add: read_first_def)
  next
    case (Some p)
    obtain blk c1 where p: "p = (blk, c1)" by (cases p)
    obtain er n' b' c2 where rb: "readBlock now blk 0 b c1 = Some (er, n', b', c2)" and q: "queue_ok c2"
        and less: "length (chan_buf (orderedRecvQueue c2)) < length (chan_buf (orderedRecvQueue c))"
      using read_step_total [OF assms(1) Some [unfolded p]] by blast
    note IH = read_more_loop_returns [OF q order_less_trans [OF less assms(2)], of now pick' n' b']
    show ?thesis
      unfolding read_first_def Some p option.case prod.case rb Pair
      using IH by (cases done_first; cases "er = Some EOF \<or> n' = length b"; cases "n' = 0") auto
  qed
qed

lemma Read_returns:
  assumes "queue_ok c" and "length (chan_buf (orderedRecvQueue c)) < fuel"
    and "\<not> rb_Empty (dataBuffer c) \<and> b \<noteq> [] \<or> closed c \<or> readClosed c \<or>
      chan_buf (orderedRecvQueue c) \<noteq> [] \<or> readCtxDone now c"
    and "rb_wf (dataBuffer c)"
  shows "\<exists>n er b' c'. Read fuel now pick b c = Returned n er b' c'"
proof -
  obtain m b1 rb where rd: "rb_Read (dataBuffer c) b = (m, b1, rb)"
    by (cases "rb_Read (dataBuffer c) b") auto
  have m: "m \<noteq> 0" if "\<not> rb_Empty (dataBuffer c)" "b \<noteq> []"
    using that ring.rd_count [OF assms(4) rd] ring.empty_iff [OF assms(4)] by auto
  have q: "queue_ok (c\<lparr>dataBuffer := rb\<rparr>)"
    using assms(1) by (simp add: queue_ok_def)
  have rcd: "readCtxDone now (c\<lparr>dataBuffer := rb\<rparr>) = readCtxDone now c"
    by (simp add: readCtxDone_def split: option.split)
  show ?thesis
    using assms m q rcd rd read_closed_loop_returns [OF q] read_closed_loop_returns [OF assms(1)]
      read_more_loop_returns [OF q] read_first_returns [OF assms(1)]
    by (cases "rb_Empty (dataBuffer c)"; cases "closed c \<or> readClosed c"; cases "m = 0"; cases b)
      (auto simp: Read_def)
qed

section \<open>Properties of the inbound connection\<close>

text \<open>
  C12: a \<open>Read\<close> that returns hands out the next bytes of the connection's stream, in order
  and without loss: what was pending is what was put into the slice followed by what is still
  pending, the rest of the slice is untouched, and the connection stays well formed. This
  holds on every path: leftover bytes, the blocking receive, the drain after a close, and
  for every outcome of the \<^verbatim>\<open>select\<close> statements.
\<close>

theorem inbound_read_stream:
  assumes "conn_ok c" and "Read fuel now pick b c = Returned n er b' c'"
  shows "pending c = take n b' @ pending c' \<and> n \<le> length b \<and> length b' = length b \<and>
    drop n b' = drop n b \<and> conn_ok c'"
proof -
  obtain d where d: "got d 0 n b b'" "pending c = d @ pending c'" "conn_ok c'"
    using Read_got [OF assms] by blast
  then show ?thesis
    using got_prefix [OF d(1)] got_length [OF d(1)] by (auto simp: got_def)
qed

definition sample_data :: "u32 \<Rightarrow> byte list \<Rightarrow> Block" where
  "sample_data i d = \<lparr>Type = TypeData, ConnectionID = 7, TimeStamp = 0, BlockID = i,
     BlockLength = of_nat (length d), BlockData = d, packed = None\<rparr>"

definition sample_conn :: "Block list \<Rightarrow> InboundConnection" where
  "sample_conn q = (NewInboundConnection 0 4 4 7)
     \<lparr>orderedRecvQueue := \<lparr>chan_buf = q, chan_cap = 4, chan_closed = False\<rparr>,
      dataBuffer := NewByteRingBuffer 4\<rparr>"

lemma sample_conn_ok [simp]: "conn_ok (sample_conn q)"
  by (simp add: conn_ok_def sample_conn_def)

theorem inbound_read_stream_witness:
  "\<exists>c'. Read 3 0 [] [9, 9, 9, 9, 9] (sample_conn [sample_data 0 [1, 2], sample_data 1 [3, 4]]) =
      Returned 4 None [1, 2, 3, 4, 9] c' \<and>
    pending (sample_conn [sample_data 0 [1, 2], sample_data 1 [3, 4]]) =
      take 4 [1, 2, 3, 4, 9] @ pending c'"
proof -
  let ?c = "sample_conn [sample_data 0 [1, 2], sample_data 1 [3, 4]]"
  obtain c' where r: "Read 3 0 [] [9, 9, 9, 9, 9] ?c = Returned 4 None [1, 2, 3, 4, 9] c'"
    by (simp add: sample_conn_def sample_data_def NewInboundConnection_def Read_def rb_Empty_def
        NewByteRingBuffer_def read_first_def select_done_def readCtxDone_def take_ordered_def
        chan_recv_def readBlock_def SetLastActive_def go_copy_def Let_def eval_nat_numeral)
  show ?thesis
    using r inbound_read_stream [OF sample_conn_ok r] by blast
qed

text \<open>
  \<open>Read\<close> returns whenever it has something to do. With an open ordered queue whose
  disconnect blocks carry their shutdown code, more fuel than queued blocks is enough, for
  every outcome of the selects, as soon as there are leftover bytes for a non-empty slice, a
  queued block, a closed flag or a finished read context. It neither blocks nor panics nor
  loops.
\<close>

theorem inbound_read_returns:
  assumes "queue_ok c" and "length (chan_buf (orderedRecvQueue c)) < fuel" and "rb_wf (dataBuffer c)"
    and "\<not> rb_Empty (dataBuffer c) \<and> b \<noteq> [] \<or> closed c \<or> readClosed c \<or>
      chan_buf (orderedRecvQueue c) \<noteq> [] \<or> readCtxDone now c"
  shows "\<exists>n er b' c'. Read fuel now pick b c = Returned n er b' c'"
  using Read_returns assms by blast

theorem inbound_read_returns_witness:
  "\<exists>n er b' c'. Read 2 0 [True] [0, 0] (sample_conn [sample_data 0 [1, 2, 3]]) = Returned n er b' c'"
  by (rule inbound_read_returns)
    (simp_all add: sample_conn_def sample_data_def queue_ok_def well_formed_disconnect_def)



text \<open>
  \<open>Write\<close> on an open connection accepts all bytes and puts on the send queue data blocks
  of this connection that hold exactly these bytes, none empty and none above \<open>DataSize\<close>,
  numbered consecutively from the connection's send counter, which ends right behind them;
  the sent-byte counter advances by the length modulo \<open>2\<^sup>6\<^sup>4\<close>.
\<close>

theorem inbound_write_blocks:
  assumes "\<not> writeClosed c" and "\<not> closed c" and "Write now b c = (n, er, blks, c')"
  shows "n = length b \<and> er = None \<and>
    cut_ok (connectionID c) (sendBlockID (processor c)) b (blks, sendBlockID (processor c')) \<and>
    SentBytes c' = SentBytes c + of_nat (length b)"
proof -
  obtain bs i where nb: "NewDataBlocks now (connectionID c) (sendBlockID (processor c)) b = (bs, i)"
    by fastforce
  have "blks = bs" "sendBlockID (processor c') = i" "n = length b" "er = None"
      "SentBytes c' = SentBytes c + of_nat (length b)"
    using assms nb by (auto simp: Write_def sendData_def packData_def)
  then show ?thesis
    using NewDataBlocks_cut [of "connectionID c" "sendBlockID (processor c)" b now] nb by simp
qed

theorem inbound_write_blocks_witness:
  "\<exists>blks c'. Write (\<lambda>_. 0) [1, 2, 3] (sample_conn []) = (3, None, blks, c') \<and>
     concat (map BlockData blks) = [1, 2, 3]"
proof -
  obtain n er blks c' where w: "Write (\<lambda>_. 0) [1, 2, 3] (sample_conn []) = (n, er, blks, c')"
    by (metis prod_cases4)
  have "\<not> writeClosed (sample_conn [])" "\<not> closed (sample_conn [])"
    by (simp_all add: sample_conn_def NewInboundConnection_def)
  then show ?thesis
    using inbound_write_blocks [OF _ _ w] w by (auto simp: cut_ok_def)
qed

text \<open>
  \<open>Close\<close> closes once. On an open connection with open channels it sends exactly one
  disconnect block, with code \<open>ShutdownBoth\<close> and the next block number, cancels the
  connection's context and closes both channels, after which every further \<open>Close\<close> sends
  nothing, every \<open>Write\<close> is refused, and delivering a block to the connection panics.
\<close>

theorem inbound_close_once:
  assumes "\<not> closed c" and "\<not> chan_closed (recvQueue c)" and "\<not> chan_closed (orderedRecvQueue c)"
  shows "\<exists>blk c'. Close now c = Some ([blk], c') \<and>
    Type blk = TypeDisconnect \<and> BlockData blk = [ShutdownBoth] \<and>
    BlockID blk = sendBlockID (processor c) \<and> ctxDone c' \<and>
    Close now' c' = Some ([], c') \<and> Write clk b c' = (0, Some EINVAL, [], c') \<and>
    RecvBlock c' blk' = SendPanics"
  using assms
  by (simp add: Close_def SendDisconnect_def packDisconnect_def NewDisconnectBlock_def Stop_def
      chan_close_def Write_def RecvBlock_def chan_send_def Let_def)

theorem inbound_close_once_witness:
  "\<exists>blk c'. Close 1 (sample_conn []) = Some ([blk], c') \<and> BlockData blk = [ShutdownBoth]"
  using inbound_close_once [of "sample_conn []" 1 2 "\<lambda>_. 0" "[]" zero_block]
  by (auto simp: sample_conn_def NewInboundConnection_def)

text \<open>
  The receive counter misses leftover bytes. When a \<open>Read\<close> is served from the leftover
  buffer alone, it returns bytes but leaves \<open>RecvBytes\<close> as it was.
\<close>

theorem inbound_recv_bytes_uncounted:
  assumes "conn_ok c" and "b \<noteq> []" and "length b \<le> length (rb_contents (dataBuffer c))"
  shows "\<exists>b' c'. Read fuel now pick b c = Returned (length b) None b' c' \<and>
    RecvBytes c' = RecvBytes c \<and> pending c = b' @ pending c'"
proof -
  obtain m b1 rb where rd: "rb_Read (dataBuffer c) b = (m, b1, rb)"
    by (cases "rb_Read (dataBuffer c) b") auto
  have wf: "rb_wf (dataBuffer c)" and ne: "\<not> rb_Empty (dataBuffer c)"
    using assms ring.empty_iff [of "dataBuffer c"] by (auto simp: conn_ok_def)
  have "m = length b"
    using ring.rd_count [OF wf rd] assms(3) by simp
  then have R: "Read fuel now pick b c = Returned (length b) None b1 (c\<lparr>dataBuffer := rb\<rparr>)"
    using ne rd by (simp add: Read_def)
  obtain d where "got d 0 (length b) b b1" "pending c = d @ pending (c\<lparr>dataBuffer := rb\<rparr>)"
    using Read_got [OF assms(1) R] by blast
  then show ?thesis
    using R by (auto simp: got_def)
qed

theorem inbound_recv_bytes_uncounted_witness:
  "\<exists>b' c'. Read 1 0 [] [0, 0] ((sample_conn [])\<lparr>dataBuffer := OverWrite (NewByteRingBuffer 4) [1, 2, 3]\<rparr>) =
      Returned 2 None b' c' \<and> RecvBytes c' = 0"
proof -
  let ?c = "(sample_conn [])\<lparr>dataBuffer := OverWrite (NewByteRingBuffer 4) [1, 2, 3]\<rparr>"
  have "conn_ok ?c" "RecvBytes ?c = 0"
    by (simp_all add: conn_ok_def sample_conn_def NewInboundConnection_def)
  then show ?thesis
    using inbound_recv_bytes_uncounted [of ?c "[0, 0]" 1 0 "[]"] by auto
qed

end
