(* ===== verification/Outbound_Connection.thy ===== *)
theory Outbound_Connection
  imports Inbound_Connection
begin

text \<open>
  \<^verbatim>\<open>connection/outbound_connection.go\<close>: the server's side of a connection. It dials the
  address of the connect block, then runs two relays over the real TCP connection:
  \<open>RecvRelay\<close> turns what the socket returns into data blocks, \<open>SendRelay\<close> writes the data of
  the ordered blocks to the socket. Each relay is modelled by its loop body as one step, so
  that the two can be interleaved; what the socket does is an argument of the step.
\<close>

section \<open>The connection and its socket\<close>

record tcp_conn =
  tcp_out :: "byte list"     \<comment> \<open>bytes the socket has accepted\<close>
  tcp_closed :: bool
  tcp_rd_closed :: bool
  tcp_wr_closed :: bool

datatype net_read = ReadOk "byte list" | ReadEOF | ReadTimeout | ReadErr

definition tcp_open :: tcp_conn where
  "tcp_open = \<lparr>tcp_out = [], tcp_closed = False, tcp_rd_closed = False, tcp_wr_closed = False\<rparr>"

text \<open>A closed socket fails every read and every write; a half-closed one fails its half.\<close>

definition tcp_read :: "net_read \<Rightarrow> tcp_conn \<Rightarrow> net_read" where
  "tcp_read r t = (if tcp_closed t then ReadErr else if tcp_rd_closed t then ReadEOF else r)"

definition tcp_write :: "net_write \<Rightarrow> byte list \<Rightarrow> tcp_conn \<Rightarrow> nat \<times> bool \<times> tcp_conn" where
  \<comment> \<open>bytes written, whether there was no error, the socket\<close>
  "tcp_write w d t =
     (if tcp_closed t \<or> tcp_wr_closed t then (0, False, t)
      else case w of
             WriteOk \<Rightarrow> (length d, True, t\<lparr>tcp_out := tcp_out t @ d\<rparr>)
           | WriteErr n \<Rightarrow> (min n (length d), False, t\<lparr>tcp_out := tcp_out t @ take n d\<rparr>))"

record OutboundConnection = baseConnection +
  HalfOpenConn :: "tcp_conn option"   \<comment> \<open>\<open>None\<close>: the embedded interface is nil\<close>

definition NewOutboundConnection :: "nat \<Rightarrow> nat \<Rightarrow> u32 \<Rightarrow> OutboundConnection" where
  "NewOutboundConnection recvSize orderedSize connID =
     \<lparr>processor = newBlockProcessor, connectionID = connID, closed = True,
      recvQueue = make_chan recvSize, orderedRecvQueue = make_chan orderedSize,
      LastActivity = 0, LatencyNano = 0, SentBytes = 0, RecvBytes = 0, ctxDone = False,
      HalfOpenConn = None\<rparr>"

definition close_tcp :: "OutboundConnection \<Rightarrow> OutboundConnection" where
  "close_tcp oc = oc\<lparr>HalfOpenConn := map_option (\<lambda>t. t\<lparr>tcp_closed := True\<rparr>) (HalfOpenConn oc)\<rparr>"

definition oc_cancel :: "OutboundConnection \<Rightarrow> OutboundConnection" where
  "oc_cancel oc = oc\<lparr>ctxDone := True\<rparr>"

definition closeThenCancelWithOnceSend ::
    "i64 \<Rightarrow> OutboundConnection \<Rightarrow> Block list \<times> OutboundConnection" where
  "closeThenCancelWithOnceSend now oc0 =
     (let oc = oc_cancel (close_tcp oc0)
      in if \<not> closed oc then SendDisconnect now ShutdownBoth (oc\<lparr>closed := True\<rparr>)
         else ([], oc))"

definition oc_closeThenCancel :: "OutboundConnection \<Rightarrow> OutboundConnection" where
  "oc_closeThenCancel oc = oc_cancel (close_tcp oc)"

section \<open>The relays\<close>

datatype loop_state = Looping | Draining | Ended | Panicked

text \<open>
  \<open>RecvRelay\<close>. In state \<open>Looping\<close> a step is one round of the outer loop; when the context
  is done the loop goes on in state \<open>Draining\<close>, whose steps are the rounds of \<^verbatim>\<open>readLoop\<close>.
  The clock is a function of the position because one read may become several blocks.
\<close>

definition RecvRelay_step ::
    "(nat \<Rightarrow> i64) \<Rightarrow> net_read \<Rightarrow> loop_state \<Rightarrow> OutboundConnection \<Rightarrow>
     Block list \<times> loop_state \<times> OutboundConnection" where
  "RecvRelay_step now r st oc =
     (case HalfOpenConn oc of
        None \<Rightarrow> ([], Panicked, oc)
      | Some t \<Rightarrow>
          let r' = tcp_read r t in
          (case st of
             Looping \<Rightarrow>
               (let leave = (\<lambda>c. if ctxDone c then Draining else Looping) in
                case r' of
                  ReadOk d \<Rightarrow>
                    (let (blks, oc1) = sendData now d oc;
                         oc2 = oc1\<lparr>RecvBytes := RecvBytes oc1 + of_nat (length d)\<rparr>
                     in (blks, leave oc2, oc2))
                | ReadEOF \<Rightarrow> (let (blks, oc1) = closeThenCancelWithOnceSend (now 0) oc in (blks, Ended, oc1))
                | ReadTimeout \<Rightarrow> ([], leave oc, oc)
                | ReadErr \<Rightarrow> (let (blks, oc1) = closeThenCancelWithOnceSend (now 0) oc in (blks, Ended, oc1)))
           | Draining \<Rightarrow>
               (case r' of
                  ReadOk d \<Rightarrow>
                    (let (blks, oc1) = sendData now d oc
                     in (blks, Draining, oc1\<lparr>RecvBytes := RecvBytes oc1 + of_nat (length d)\<rparr>))
                | _ \<Rightarrow> ([], Ended, oc))
           | _ \<Rightarrow> ([], st, oc)))"

text \<open>
  One round of \<open>SendRelay\<close> on a given ordered block, and the round itself: when both a block
  and the cancelled context are ready, \<open>pickDone\<close> is the choice of \<^verbatim>\<open>select\<close>. A round that
  finds nothing ready leaves everything as it is.
\<close>

definition send_ordered ::
    "i64 \<Rightarrow> net_write \<Rightarrow> Block \<Rightarrow> tcp_conn \<Rightarrow> OutboundConnection \<Rightarrow>
     Block list \<times> loop_state \<times> OutboundConnection" where
  "send_ordered now w blk t oc =
     (if Type blk = TypeData then
        (case tcp_write w (BlockData blk) t of
           (n, ok, t') \<Rightarrow>
             let oc1 = oc\<lparr>HalfOpenConn := Some t'\<rparr> in
             if ok then ([], Looping, oc1\<lparr>SentBytes := SentBytes oc1 + of_nat n\<rparr>)
             else (let (blks, oc2) = closeThenCancelWithOnceSend now oc1 in (blks, Looping, oc2)))
      else if Type blk = TypeDisconnect then
        (case BlockData blk of
           [] \<Rightarrow> ([], Panicked, oc)
         | d # _ \<Rightarrow>
             if d = ShutdownRead then ([], Looping, oc\<lparr>HalfOpenConn := Some (t\<lparr>tcp_rd_closed := True\<rparr>)\<rparr>)
             else if d = ShutdownWrite then ([], Looping, oc\<lparr>HalfOpenConn := Some (t\<lparr>tcp_wr_closed := True\<rparr>)\<rparr>)
             else ([], Looping, oc_closeThenCancel oc))
      else ([], Looping, oc))"

definition SendRelay_step ::
    "i64 \<Rightarrow> net_write \<Rightarrow> bool \<Rightarrow> loop_state \<Rightarrow> OutboundConnection \<Rightarrow>
     Block list \<times> loop_state \<times> OutboundConnection" where
  "SendRelay_step now w pickDone st oc =
     (case HalfOpenConn oc of
        None \<Rightarrow> ([], Panicked, oc)
      | Some t \<Rightarrow>
          if st \<noteq> Looping then ([], st, oc)
          else if ctxDone oc \<and> (pickDone \<or> chan_buf (orderedRecvQueue oc) = []) then
            (let (blks, oc1) = closeThenCancelWithOnceSend now oc in (blks, Ended, oc1))
          else
            (case chan_recv (orderedRecvQueue oc) of
               Received blk q \<Rightarrow> send_ordered now w blk t (oc\<lparr>orderedRecvQueue := q\<rparr>)
             | _ \<Rightarrow> ([], Looping, oc)))"

section \<open>Receiving blocks and dialling\<close>

text \<open>
  \<open>RecvBlock\<close> starts \<open>connect\<close> in a goroutine for a connect block and queues every block;
  the first component of the result is the address to dial, if any.
\<close>

definition oc_RecvBlock :: "OutboundConnection \<Rightarrow> Block \<Rightarrow> byte list option \<times> Block send_result" where
  "oc_RecvBlock oc blk =
     ((if Type blk = TypeConnect then Some (BlockData blk) else None), chan_send (recvQueue oc) blk)"

text \<open>\<open>connect\<close>, given whether the dial succeeds; the flag says that the relays are started.\<close>

definition connect :: "i64 \<Rightarrow> (byte list \<Rightarrow> bool) \<Rightarrow> byte list \<Rightarrow> OutboundConnection \<Rightarrow>
    Block list \<times> bool \<times> OutboundConnection" where
  "connect now dial address oc =
     (if \<not> closed oc \<or> HalfOpenConn oc \<noteq> None then ([], False, oc)
      else if dial address then
        ([], True, oc\<lparr>HalfOpenConn := Some tcp_open, closed := \<not> closed oc\<rparr>)
      else (let (blks, oc1) = SendDisconnect now ShutdownBoth oc in (blks, False, oc1)))"

section \<open>Interleaved runs of the two relays\<close>

text \<open>
  A run interleaves rounds of the two relays, cancellations by the pool and arrivals of
  ordered blocks in any order.
\<close>

datatype oc_event =
    RecvRound "nat \<Rightarrow> i64" net_read
  | SendRound i64 net_write bool
  | PoolCancel
  | Ordered Block

record oc_state =
  oc_conn :: OutboundConnection
  recv_loop :: loop_state
  send_loop :: loop_state

definition oc_event_step :: "oc_state \<Rightarrow> oc_event \<Rightarrow> Block list \<times> oc_state" where
  "oc_event_step s ev =
     (case ev of
        RecvRound now r \<Rightarrow>
          (let (blks, st, oc) = RecvRelay_step now r (recv_loop s) (oc_conn s)
           in (blks, s\<lparr>recv_loop := st, oc_conn := oc\<rparr>))
      | SendRound now w pick \<Rightarrow>
          (let (blks, st, oc) = SendRelay_step now w pick (send_loop s) (oc_conn s)
           in (blks, s\<lparr>send_loop := st, oc_conn := oc\<rparr>))
      | PoolCancel \<Rightarrow> ([], s\<lparr>oc_conn := oc_cancel (oc_conn s)\<rparr>)
      | Ordered blk \<Rightarrow>
          (let oc = oc_conn s; q = orderedRecvQueue oc
           in ([], s\<lparr>oc_conn := oc\<lparr>orderedRecvQueue := q\<lparr>chan_buf := chan_buf q @ [blk]\<rparr>\<rparr>\<rparr>)))"

fun oc_run :: "oc_state \<Rightarrow> oc_event list \<Rightarrow> Block list \<times> oc_state" where
  "oc_run s [] = ([], s)"
| "oc_run s (ev # evs) =
     (let (blks, s1) = oc_event_step s ev; (blks', s2) = oc_run s1 evs in (blks @ blks', s2))"

definition oc_started :: "OutboundConnection \<Rightarrow> oc_state" where
  "oc_started oc = \<lparr>oc_conn = oc, recv_loop = Looping, send_loop = Looping\<rparr>"

section \<open>Numbering of the blocks a connection sends\<close>

text \<open>
  Every operation of a connection that sends numbers its blocks consecutively from the send
  counter of the connection's processor and leaves the counter right behind the last one.
\<close>

definition sends ::
    "'a baseConnection_scheme \<Rightarrow> Block list \<Rightarrow> 'a baseConnection_scheme \<Rightarrow> bool" where
  "sends c blks c' \<longleftrightarrow>
     map BlockID blks = ids_from (sendBlockID (processor c)) (length blks) \<and>
     sendBlockID (processor c') = sendBlockID (processor c) + of_nat (length blks) \<and>
     list_all (\<lambda>b. ConnectionID b = connectionID c) blks \<and>
     connectionID c' = connectionID c"

lemma ids_from_add: "ids_from start (m + n) = ids_from start m @ ids_from (start + of_nat m) n"
proof (induction m arbitrary: start)
  case 0
  show ?case by simp
next
  case (Suc m)
  have "ids_from start (Suc m + n) = start # ids_from (start + 1) (m + n)"
    by (simp add: ids_from_Suc)
  also have "\<dots> = ids_from start (Suc m) @ ids_from (start + of_nat (Suc m)) n"
    unfolding Suc.IH ids_from_Suc by (simp add: add.assoc)
  finally show ?case .
qed

lemma sends_refl: "processor c' = processor c \<Longrightarrow> connectionID c' = connectionID c \<Longrightarrow> sends c [] c'"
  by (simp add: sends_def)

lemma sends_trans: "sends c bs c1 \<Longrightarrow> sends c1 bs' c2 \<Longrightarrow> sends c (bs @ bs') c2"
  by (simp add: sends_def ids_from_add add.assoc)

lemma sends_cong:
  assumes "sends c bs c'" and "processor d' = processor c'" and "connectionID d' = connectionID c'"
    and "processor d = processor c" and "connectionID d = connectionID c"
  shows "sends d bs d'"
  using assms by (simp add: sends_def)

lemma sendData_sends: "sendData now d c = (blks, c') \<Longrightarrow> sends c blks c'"
  using NewDataBlocks_cut [of "connectionID c" "sendBlockID (processor c)" d now]
  by (auto simp: sendData_def packData_def sends_def cut_ok_def list_all_iff split: prod.splits)

lemma sendData_data:
  "sendData now d c = (blks, c') \<Longrightarrow>
     concat (map data_of blks) = d \<and> list_all (\<lambda>b. Type b = TypeData) blks"
  using NewDataBlocks_cut [of "connectionID c" "sendBlockID (processor c)" d now]
  by (auto simp: sendData_def packData_def cut_ok_def list_all_iff data_of_def split: prod.splits
      intro!: arg_cong [where f = concat])

lemma sendData_frame:
  "sendData now d c = (blks, c') \<Longrightarrow> \<exists>p. c' = c\<lparr>processor := p\<rparr>"
  by (auto simp: sendData_def split: prod.splits)

lemma SendDisconnect_sends: "SendDisconnect now k c = (blks, c') \<Longrightarrow> sends c blks c'"
  by (auto simp: SendDisconnect_def packDisconnect_def NewDisconnectBlock_def sends_def ids_from_Suc
      Stop_def Let_def split: if_splits)

lemma SendConnect_sends: "SendConnect now a c = (blks, c') \<Longrightarrow> sends c blks c'"
  by (auto simp: SendConnect_def packConnect_def NewConnectBlock_def sends_def ids_from_Suc)

lemma SendDisconnect_block:
  "SendDisconnect now k c = (blks, c') \<Longrightarrow>
     \<exists>b. blks = [b] \<and> Type b = TypeDisconnect \<and> BlockData b = [k]"
  by (auto simp: SendDisconnect_def packDisconnect_def NewDisconnectBlock_def Let_def)

lemma SendDisconnect_frame:
  "SendDisconnect now k c = (blks, c') \<Longrightarrow>
     \<exists>p. c' = (if k = ShutdownBoth then c\<lparr>processor := p, ctxDone := True\<rparr> else c\<lparr>processor := p\<rparr>)"
  by (auto simp: SendDisconnect_def Stop_def Let_def split: prod.splits)

section \<open>Lemmas about single rounds\<close>

lemma once_send_open:
  assumes "\<not> closed oc" and "HalfOpenConn oc = Some t"
    and "closeThenCancelWithOnceSend now oc = (blks, oc')"
  shows "\<exists>b. blks = [b] \<and> Type b = TypeDisconnect \<and> BlockData b = [ShutdownBoth] \<and>
    sends oc blks oc' \<and> closed oc' \<and> ctxDone oc' \<and>
    HalfOpenConn oc' = Some (t\<lparr>tcp_closed := True\<rparr>) \<and> orderedRecvQueue oc' = orderedRecvQueue oc"
proof -
  let ?oc1 = "(oc_cancel (close_tcp oc))\<lparr>closed := True\<rparr>"
  have sd: "SendDisconnect now ShutdownBoth ?oc1 = (blks, oc')"
    using assms by (simp add: closeThenCancelWithOnceSend_def oc_cancel_def close_tcp_def)
  have "sends oc blks oc'"
    using SendDisconnect_sends [OF sd] by (simp add: sends_def oc_cancel_def close_tcp_def)
  then show ?thesis
    using SendDisconnect_block [OF sd] SendDisconnect_frame [OF sd] assms(2)
    by (auto simp: oc_cancel_def close_tcp_def)
qed

lemma once_send_closed:
  "closed oc \<Longrightarrow> closeThenCancelWithOnceSend now oc = ([], oc_cancel (close_tcp oc))"
  by (simp add: closeThenCancelWithOnceSend_def oc_cancel_def close_tcp_def)

text \<open>
  What an event does to the socket and the flags, read off the state of the connection:
  \<open>data_sent\<close> is the data a round of \<open>RecvRelay\<close> may send, \<open>arriving\<close> what an arrival adds
  to the stream for the socket.
\<close>

fun data_sent :: "oc_event \<Rightarrow> byte list" where
  "data_sent (RecvRound _ (ReadOk d)) = d"
| "data_sent _ = []"

fun arriving :: "oc_event \<Rightarrow> byte list" where
  "arriving (Ordered blk) = data_of blk"
| "arriving _ = []"

text \<open>
  The invariant of a started connection: it has a socket, and once it is marked closed the
  socket is closed. \<open>polite\<close> is what an event may send: nothing when the connection is
  closed; otherwise data blocks, or the one disconnect block that closes it.
\<close>

definition oc_inv :: "OutboundConnection \<Rightarrow> bool" where
  "oc_inv oc \<longleftrightarrow>
     (case HalfOpenConn oc of None \<Rightarrow> False | Some t \<Rightarrow> closed oc \<longrightarrow> tcp_closed t)"

definition is_farewell :: "Block \<Rightarrow> bool" where
  "is_farewell b \<longleftrightarrow> Type b = TypeDisconnect \<and> BlockData b = [ShutdownBoth]"

definition polite :: "OutboundConnection \<Rightarrow> Block list \<Rightarrow> OutboundConnection \<Rightarrow> bool" where
  "polite oc blks oc' \<longleftrightarrow>
     oc_inv oc' \<and> sends oc blks oc' \<and>
     (if closed oc then blks = [] \<and> closed oc'
      else if closed oc' then (\<exists>b. blks = [b] \<and> is_farewell b)
      else list_all (\<lambda>b. Type b = TypeData) blks)"

lemma polite_silent:
  assumes "oc_inv oc" and "processor oc' = processor oc" and "connectionID oc' = connectionID oc"
    and "closed oc' = closed oc"
    and "\<And>t. HalfOpenConn oc = Some t \<Longrightarrow> \<exists>t'. HalfOpenConn oc' = Some t' \<and> (tcp_closed t \<longrightarrow> tcp_closed t')"
  shows "polite oc [] oc'"
  using assms by (auto simp: polite_def oc_inv_def sends_def split: option.splits)

lemma polite_sendData:
  assumes "oc_inv oc" and "\<not> closed oc" and "sendData now d oc = (blks, oc1)"
  shows "polite oc blks (oc1\<lparr>RecvBytes := n\<rparr>)"
proof -
  obtain p where p: "oc1 = oc\<lparr>processor := p\<rparr>"
    using sendData_frame [OF assms(3)] by blast
  then show ?thesis
    using sendData_sends [OF assms(3)] sendData_data [OF assms(3)] assms(1,2)
    by (auto simp: polite_def oc_inv_def sends_def split: option.splits)
qed

lemma polite_once_send:
  assumes "oc_inv oc" and "closeThenCancelWithOnceSend now oc = (blks, oc')"
  shows "polite oc blks oc'"
proof (cases "closed oc")
  case True
  then have "blks = []" "oc' = oc_cancel (close_tcp oc)"
    using assms(2) once_send_closed [of oc now] by auto
  then show ?thesis
    using assms(1) by (auto intro!: polite_silent simp: oc_cancel_def close_tcp_def)
next
  case False
  obtain t where "HalfOpenConn oc = Some t"
    using assms(1) by (auto simp: oc_inv_def split: option.splits)
  from once_send_open [OF False this assms(2)] False show ?thesis
    by (auto simp: polite_def oc_inv_def is_farewell_def)
qed

lemma closed_socket_read: "oc_inv oc \<Longrightarrow> closed oc \<Longrightarrow> HalfOpenConn oc = Some t \<Longrightarrow> tcp_read r t = ReadErr"
  by (simp add: oc_inv_def tcp_read_def)

lemma RecvRelay_step_polite:
  assumes "oc_inv oc" and "RecvRelay_step now r st oc = (blks, st', oc')"
  shows "polite oc blks oc'"
proof -
  obtain t where t: "HalfOpenConn oc = Some t"
    using assms(1) by (auto simp: oc_inv_def split: option.splits)
  have silent: "polite oc [] oc"
    using assms(1) t by (intro polite_silent) auto
  consider d where "tcp_read r t = ReadOk d" | "tcp_read r t = ReadTimeout"
    | "tcp_read r t = ReadEOF \<or> tcp_read r t = ReadErr"
    by (cases "tcp_read r t") auto
  then show ?thesis
  proof cases
    case 1
    then have "\<not> closed oc"
      using closed_socket_read [OF assms(1) _ t] by fastforce
    obtain bs oc1 where "sendData now d oc = (bs, oc1)"
      by fastforce
    with polite_sendData [OF assms(1) \<open>\<not> closed oc\<close> this] 1 silent assms(2) t show ?thesis
      by (cases st) (auto simp: RecvRelay_step_def Let_def)
  next
    case 2
    then show ?thesis
      using silent assms(2) t by (cases st) (auto simp: RecvRelay_step_def Let_def)
  next
    case 3
    obtain bs oc1 where "closeThenCancelWithOnceSend (now 0) oc = (bs, oc1)"
      by fastforce
    with polite_once_send [OF assms(1) this] 3 silent assms(2) t show ?thesis
      by (cases st) (auto simp: RecvRelay_step_def Let_def)
  qed
qed

lemma tcp_write_closed: "tcp_write w d t = (n, ok, t') \<Longrightarrow> tcp_closed t' = tcp_closed t"
  by (auto simp: tcp_write_def split: if_splits net_write.splits)

lemma polite_pre:
  assumes "polite oc1 blks oc'" and "processor oc1 = processor oc" "connectionID oc1 = connectionID oc"
    "closed oc1 = closed oc"
  shows "polite oc blks oc'"
  using assms by (auto simp: polite_def sends_def)

lemma send_ordered_polite:
  assumes "oc_inv oc" and "HalfOpenConn oc = Some t" and "send_ordered now w blk t oc = (blks, st', oc')"
  shows "polite oc blks oc'"
proof -
  obtain n ok t' where w: "tcp_write w (BlockData blk) t = (n, ok, t')"
    by (cases "tcp_write w (BlockData blk) t")
  let ?oc1 = "oc\<lparr>HalfOpenConn := Some t'\<rparr>"
  obtain bs oc2 where snd: "closeThenCancelWithOnceSend now ?oc1 = (bs, oc2)"
    by fastforce
  have "oc_inv ?oc1"
    using assms(1,2) tcp_write_closed [OF w] by (simp add: oc_inv_def)
  then have "polite oc bs oc2"
    using polite_pre [OF polite_once_send [OF _ snd]] by simp
  moreover have "polite oc [] (?oc1\<lparr>SentBytes := x\<rparr>)" for x
    using assms(1,2) tcp_write_closed [OF w] by (intro polite_silent) auto
  moreover have "polite oc [] oc" "polite oc [] (oc_closeThenCancel oc)"
    "polite oc [] (oc\<lparr>HalfOpenConn := Some (t\<lparr>tcp_rd_closed := True\<rparr>)\<rparr>)"
    "polite oc [] (oc\<lparr>HalfOpenConn := Some (t\<lparr>tcp_wr_closed := True\<rparr>)\<rparr>)"
    using assms(1,2) by (auto intro!: polite_silent simp: oc_closeThenCancel_def oc_cancel_def close_tcp_def)
  ultimately show ?thesis
    using assms(3) w snd
    by (auto simp: send_ordered_def Let_def split: if_splits list.splits)
qed

lemma SendRelay_step_polite:
  assumes "oc_inv oc" and "SendRelay_step now w pick st oc = (blks, st', oc')"
  shows "polite oc blks oc'"
proof -
  obtain t where t: "HalfOpenConn oc = Some t"
    using assms(1) by (auto simp: oc_inv_def split: option.splits)
  obtain bs oc1 where "closeThenCancelWithOnceSend now oc = (bs, oc1)"
    by fastforce
  note once = polite_once_send [OF assms(1) this] this
  have silent: "polite oc [] oc"
    using assms(1) t by (intro polite_silent) auto
  have ord: "polite oc bs' oc2" if "send_ordered now w blk t (oc\<lparr>orderedRecvQueue := q\<rparr>) = (bs', st2, oc2)"
    for blk q bs' st2 oc2
    using polite_pre [OF send_ordered_polite [OF _ _ that]] assms(1) t by (simp add: oc_inv_def)
  show ?thesis
    using assms(2) t once silent ord
    by (auto simp: SendRelay_step_def split: if_splits recv_result.splits)
qed

lemma oc_event_polite:
  assumes "oc_inv (oc_conn s)" and "oc_event_step s ev = (blks, s')"
  shows "polite (oc_conn s) blks (oc_conn s')"
proof (cases ev)
  case (RecvRound now r)
  obtain bs st oc where "RecvRelay_step now r (recv_loop s) (oc_conn s) = (bs, st, oc)"
    by (metis prod_cases3)
  with RecvRelay_step_polite [OF assms(1) this] RecvRound assms(2) show ?thesis
    by (auto simp: oc_event_step_def)
next
  case (SendRound now w pick)
  obtain bs st oc where "SendRelay_step now w pick (send_loop s) (oc_conn s) = (bs, st, oc)"
    by (metis prod_cases3)
  with SendRelay_step_polite [OF assms(1) this] SendRound assms(2) show ?thesis
    by (auto simp: oc_event_step_def)
qed (use assms in \<open>auto intro!: polite_silent simp: oc_event_step_def oc_cancel_def Let_def\<close>)

text \<open>The discipline of single events composes over runs.\<close>

definition run_polite :: "OutboundConnection \<Rightarrow> Block list \<Rightarrow> OutboundConnection \<Rightarrow> bool" where
  "run_polite oc blks oc' \<longleftrightarrow>
     oc_inv oc' \<and> sends oc blks oc' \<and>
     (if closed oc then blks = [] \<and> closed oc'
      else \<exists>ds. list_all (\<lambda>b. Type b = TypeData) ds \<and>
             (if closed oc' then \<exists>b. blks = ds @ [b] \<and> is_farewell b else blks = ds))"

lemma run_polite_step:
  assumes "polite oc bs oc1" and "run_polite oc1 bs' oc2"
  shows "run_polite oc (bs @ bs') oc2"
proof -
  have s: "sends oc (bs @ bs') oc2"
    using assms sends_trans by (auto simp: polite_def run_polite_def)
  show ?thesis
  proof (cases "closed oc \<or> closed oc1")
    case True
    then show ?thesis
      using assms s by (auto simp: polite_def run_polite_def split: if_splits)
  next
    case False
    then obtain ds where ds: "list_all (\<lambda>b. Type b = TypeData) (bs @ ds)"
        "if closed oc2 then \<exists>b. bs @ bs' = (bs @ ds) @ [b] \<and> is_farewell b else bs @ bs' = bs @ ds"
      using assms by (auto simp: polite_def run_polite_def split: if_splits)
    have "oc_inv oc2"
      using assms(2) by (simp add: run_polite_def)
    with False s ds show ?thesis
      unfolding run_polite_def by (simp only: if_False simp_thms de_Morgan_disj) blast
  qed
qed

lemma oc_run_polite:
  "oc_inv (oc_conn s) \<Longrightarrow> oc_run s evs = (blks, s') \<Longrightarrow> run_polite (oc_conn s) blks (oc_conn s')"
proof (induction evs arbitrary: s blks)
  case Nil
  then show ?case by (auto simp: run_polite_def sends_def)
next
  case (Cons ev evs)
  obtain bs s1 where st: "oc_event_step s ev = (bs, s1)"
    by fastforce
  obtain bs' where r: "oc_run s1 evs = (bs', s')" and blks: "blks = bs @ bs'"
    using Cons.prems(2) st by (auto split: prod.splits)
  have p: "polite (oc_conn s) bs (oc_conn s1)"
    by (rule oc_event_polite [OF Cons.prems(1) st])
  then have "run_polite (oc_conn s1) bs' (oc_conn s')"
    by (intro Cons.IH [OF _ r]) (simp add: polite_def)
  then show ?case
    using run_polite_step [OF p] blks by simp
qed

section \<open>Properties of the outbound connection\<close>

text \<open>
  One farewell, and it comes last. However the rounds of the two relays, cancellations by
  the pool and arrivals of ordered blocks interleave on a dialled connection, the blocks sent
  to the peer are data blocks followed, exactly if the connection has been closed, by one
  disconnect block; they carry this connection's number and consecutive block numbers.
\<close>

theorem outbound_farewell_last:
  assumes "HalfOpenConn oc = Some t" and "\<not> closed oc"
    and "oc_run (oc_started oc) evs = (blks, s')"
  shows "sends oc blks (oc_conn s') \<and>
    (\<exists>ds. list_all (\<lambda>b. Type b = TypeData) ds \<and>
       (if closed (oc_conn s') then \<exists>b. blks = ds @ [b] \<and> is_farewell b else blks = ds))"
proof -
  have "oc_inv (oc_conn (oc_started oc))"
    using assms(1,2) by (simp add: oc_inv_def oc_started_def)
  from oc_run_polite [OF this assms(3)] show ?thesis
    using assms(2) by (simp add: run_polite_def oc_started_def)
qed

definition sample_out :: OutboundConnection where
  "sample_out = snd (snd (connect 0 (\<lambda>_. True) [1] (NewOutboundConnection 32 32 7)))"

lemma sample_out_open: "HalfOpenConn sample_out = Some tcp_open" "\<not> closed sample_out"
  by (simp_all add: sample_out_def connect_def NewOutboundConnection_def)

theorem outbound_farewell_last_witness:
  "\<exists>blks s'. oc_run (oc_started sample_out) [RecvRound (\<lambda>_. 0) (ReadOk [1, 2]), RecvRound (\<lambda>_. 0) ReadEOF] = (blks, s')
     \<and> sends sample_out blks (oc_conn s')"
proof -
  obtain blks s' where r: "oc_run (oc_started sample_out)
      [RecvRound (\<lambda>_. 0) (ReadOk [1, 2]), RecvRound (\<lambda>_. 0) ReadEOF] = (blks, s')"
    by fastforce
  then show ?thesis
    using outbound_farewell_last [OF sample_out_open r] by blast
qed

section \<open>The two byte streams\<close>

text \<open>
  \<open>rx_dead\<close> and \<open>tx_dead\<close>: the receiving and the sending direction has come to its end. Both
  are stable, and from then on nothing more of that direction is moved.
\<close>

definition the_tcp :: "oc_state \<Rightarrow> tcp_conn" where
  "the_tcp s = the (HalfOpenConn (oc_conn s))"

definition rx_dead :: "oc_state \<Rightarrow> bool" where
  "rx_dead s \<longleftrightarrow> recv_loop s \<in> {Ended, Panicked} \<or> tcp_closed (the_tcp s) \<or> tcp_rd_closed (the_tcp s)"

definition tx_dead :: "oc_state \<Rightarrow> bool" where
  "tx_dead s \<longleftrightarrow> send_loop s \<noteq> Looping \<or> tcp_closed (the_tcp s) \<or> tcp_wr_closed (the_tcp s)"

definition tx_stream :: "oc_state \<Rightarrow> byte list" where
  "tx_stream s = tcp_out (the_tcp s) @ concat (map data_of (chan_buf (orderedRecvQueue (oc_conn s))))"

text \<open>What closing does to the socket, whether or not the farewell is sent.\<close>

lemma once_send_socket:
  assumes "HalfOpenConn oc = Some t" and "closeThenCancelWithOnceSend now oc = (blks, oc')"
  shows "HalfOpenConn oc' = Some (t\<lparr>tcp_closed := True\<rparr>) \<and> concat (map data_of blks) = [] \<and>
    orderedRecvQueue oc' = orderedRecvQueue oc"
proof (cases "closed oc")
  case True
  then show ?thesis
    using assms once_send_closed [OF True, of now] by (auto simp: oc_cancel_def close_tcp_def)
next
  case False
  from once_send_open [OF False assms] show ?thesis
    by (auto simp: data_of_def)
qed

lemma RecvRelay_step_socket:
  assumes "HalfOpenConn oc = Some t" and "RecvRelay_step now r st oc = (blks, st', oc')"
  shows "\<exists>cl. HalfOpenConn oc' = Some (t\<lparr>tcp_closed := cl\<rparr>) \<and> (tcp_closed t \<longrightarrow> cl) \<and>
    orderedRecvQueue oc' = orderedRecvQueue oc"
proof -
  obtain bs oc1 where o: "closeThenCancelWithOnceSend (now 0) oc = (bs, oc1)"
    by fastforce
  have "oc' = oc \<or> oc' = oc1 \<or> (\<exists>d bs' oc2 n. sendData now d oc = (bs', oc2) \<and> oc' = oc2\<lparr>RecvBytes := n\<rparr>)"
    using assms o by (cases st; cases "tcp_read r t")
      (auto simp: RecvRelay_step_def Let_def split: prod.splits)
  then consider "oc' = oc" | "oc' = oc1" | p n where "oc' = oc\<lparr>processor := p, RecvBytes := n\<rparr>"
    by (fastforce dest: sendData_frame)
  then show ?thesis
  proof cases
    case 1
    then show ?thesis
      using assms(1) by (intro exI [of _ "tcp_closed t"]) simp
  next
    case 2
    then show ?thesis
      using once_send_socket [OF assms(1) o] by (intro exI [of _ True]) simp
  next
    case 3
    then show ?thesis
      using assms(1) by (intro exI [of _ "tcp_closed t"]) simp
  qed
qed

lemma RecvRelay_step_data:
  assumes "HalfOpenConn oc = Some t" and "RecvRelay_step now r st oc = (blks, st', oc')"
  shows "if st \<in> {Ended, Panicked} \<or> tcp_closed t \<or> tcp_rd_closed t
    then concat (map data_of blks) = [] \<and> (st \<in> {Ended, Panicked} \<longrightarrow> st' = st)
    else concat (map data_of blks) = data_sent (RecvRound now r)"
proof -
  obtain bs oc1 where o: "closeThenCancelWithOnceSend (now 0) oc = (bs, oc1)"
    by fastforce
  note no = once_send_socket [OF assms(1) o]
  have sd: "concat (map data_of bs') = d" if "sendData now d oc = (bs', oc2)" for d bs' oc2
    using sendData_data [OF that] by blast
  show ?thesis
    using assms o no sd by (cases st; cases r)
      (auto simp: RecvRelay_step_def Let_def tcp_read_def split: prod.splits if_splits)
qed

lemma send_ordered_socket:
  assumes "HalfOpenConn oc = Some t" and "send_ordered now w blk t oc = (blks, st', oc')"
  shows "\<exists>t'. HalfOpenConn oc' = Some t' \<and> orderedRecvQueue oc' = orderedRecvQueue oc \<and>
    concat (map data_of blks) = [] \<and>
    (tcp_closed t \<longrightarrow> tcp_closed t') \<and> (tcp_rd_closed t \<longrightarrow> tcp_rd_closed t') \<and>
    (tcp_wr_closed t \<longrightarrow> tcp_wr_closed t') \<and>
    (if tcp_closed t \<or> tcp_wr_closed t then tcp_out t' = tcp_out t
     else tcp_out t' = tcp_out t @ data_of blk \<or>
       (tcp_closed t' \<and> (\<exists>n. tcp_out t' = tcp_out t @ take n (data_of blk))))"
proof (cases "Type blk = TypeData")
  case True
  obtain n ok t' where w: "tcp_write w (BlockData blk) t = (n, ok, t')"
    by (cases "tcp_write w (BlockData blk) t")
  obtain bs oc2 where snd: "closeThenCancelWithOnceSend now (oc\<lparr>HalfOpenConn := Some t'\<rparr>) = (bs, oc2)"
    by fastforce
  have sock: "HalfOpenConn oc2 = Some (t'\<lparr>tcp_closed := True\<rparr>)" "concat (map data_of bs) = []"
      "orderedRecvQueue oc2 = orderedRecvQueue oc"
    using once_send_socket [OF _ snd] by simp_all
  have out: "if tcp_closed t \<or> tcp_wr_closed t then \<not> ok \<and> t' = t
      else if ok then t' = t\<lparr>tcp_out := tcp_out t @ data_of blk\<rparr>
      else \<exists>n. t' = t\<lparr>tcp_out := tcp_out t @ take n (data_of blk)\<rparr>"
    using w True by (auto simp: tcp_write_def data_of_def split: net_write.splits)
  show ?thesis
  proof (cases ok)
    case ok: True
    then have "\<exists>n. oc' = oc\<lparr>HalfOpenConn := Some t', SentBytes := n\<rparr>" and "blks = []"
      using assms(2) w True by (auto simp: send_ordered_def Let_def)
    then show ?thesis
      using out ok by (auto split: if_splits)
  next
    case False
    then have "oc' = oc2" "blks = bs"
      using assms(2) w snd True by (auto simp: send_ordered_def Let_def)
    then show ?thesis
      using out False sock by (auto split: if_splits)
  qed
next
  case False
  then show ?thesis
    using assms by (auto simp: send_ordered_def data_of_def oc_closeThenCancel_def oc_cancel_def close_tcp_def
        split: if_splits list.splits)
qed

text \<open>
  One event and the two streams: a direction that has ended stays ended and moves nothing;
  otherwise the event moves exactly its data, except that a failing write may accept a part
  of the block, and then the direction has ended.
\<close>

lemma SendRelay_step_socket:
  assumes t: "HalfOpenConn oc = Some t" and "SendRelay_step now w pick st oc = (blks, st', oc')"
  shows "\<exists>t'. HalfOpenConn oc' = Some t' \<and> concat (map data_of blks) = [] \<and>
    (tcp_closed t \<longrightarrow> tcp_closed t') \<and> (tcp_rd_closed t \<longrightarrow> tcp_rd_closed t') \<and>
    (tcp_wr_closed t \<longrightarrow> tcp_wr_closed t') \<and> (st \<noteq> Looping \<longrightarrow> st' = st) \<and>
    (if st \<noteq> Looping \<or> tcp_closed t \<or> tcp_wr_closed t then tcp_out t' = tcp_out t
     else tcp_out t' @ concat (map data_of (chan_buf (orderedRecvQueue oc'))) =
            tcp_out t @ concat (map data_of (chan_buf (orderedRecvQueue oc))) \<or>
       (tcp_closed t' \<and>
        (\<exists>rest. tcp_out t' @ rest = tcp_out t @ concat (map data_of (chan_buf (orderedRecvQueue oc))))))"
proof -
  obtain bs oc1 where o: "closeThenCancelWithOnceSend now oc = (bs, oc1)"
    by fastforce
  note once = once_send_socket [OF t o]
  consider (idle) "oc' = oc" "blks = []" "st \<noteq> Looping \<longrightarrow> st' = st"
    | (cancelled) "oc' = oc1" "blks = bs" "st = Looping"
    | (block) blk xs where "st = Looping" "chan_buf (orderedRecvQueue oc) = blk # xs"
        "send_ordered now w blk t (oc\<lparr>orderedRecvQueue := orderedRecvQueue oc\<lparr>chan_buf := xs\<rparr>\<rparr>) = (blks, st', oc')"
    using assms o by (auto simp: SendRelay_step_def chan_recv_Received_iff
        split: if_splits recv_result.splits)
  then show ?thesis
  proof cases
    case block
    let ?q = "orderedRecvQueue oc\<lparr>chan_buf := xs\<rparr>"
    have "HalfOpenConn (oc\<lparr>orderedRecvQueue := ?q\<rparr>) = Some t"
      using t by simp
    from send_ordered_socket [OF this block(3)] obtain t' where t': "HalfOpenConn oc' = Some t'"
        "orderedRecvQueue oc' = ?q" "concat (map data_of blks) = []"
        "tcp_closed t \<longrightarrow> tcp_closed t'" "tcp_rd_closed t \<longrightarrow> tcp_rd_closed t'" "tcp_wr_closed t \<longrightarrow> tcp_wr_closed t'"
        "if tcp_closed t \<or> tcp_wr_closed t then tcp_out t' = tcp_out t
         else tcp_out t' = tcp_out t @ data_of blk \<or>
           (tcp_closed t' \<and> (\<exists>n. tcp_out t' = tcp_out t @ take n (data_of blk)))"
      by auto
    have "\<exists>rest. take n (data_of blk) @ rest = data_of blk @ concat (map data_of xs)" for n
      by (metis append_assoc append_take_drop_id)
    then show ?thesis
      using t' block(1,2) by (intro exI [of _ t']) (auto split: if_splits)
  qed (use t once in auto)
qed

definition streams_step :: "oc_state \<Rightarrow> oc_event \<Rightarrow> Block list \<Rightarrow> oc_state \<Rightarrow> bool" where
  "streams_step s ev blks s' \<longleftrightarrow>
     (if rx_dead s then rx_dead s' \<and> concat (map data_of blks) = []
      else concat (map data_of blks) = data_sent ev) \<and>
     (if tx_dead s then tx_dead s' \<and> tcp_out (the_tcp s') = tcp_out (the_tcp s)
      else tx_stream s' = tx_stream s @ arriving ev \<or>
        (tx_dead s' \<and> (\<exists>rest. tcp_out (the_tcp s') @ rest = tx_stream s @ arriving ev)))"

lemma send_round_streams:
  assumes t: "HalfOpenConn (oc_conn s) = Some t"
    and r: "SendRelay_step now w pick (send_loop s) (oc_conn s) = (bs, lp, oc)"
  shows "streams_step s (SendRound now w pick) bs (s\<lparr>send_loop := lp, oc_conn := oc\<rparr>)"
proof -
  let ?s' = "s\<lparr>send_loop := lp, oc_conn := oc\<rparr>"
  let ?q = "\<lambda>c. concat (map data_of (chan_buf (orderedRecvQueue c)))"
  obtain t' where s1: "HalfOpenConn oc = Some t'" and t': "concat (map data_of bs) = []"
      "tcp_closed t \<longrightarrow> tcp_closed t'" "tcp_rd_closed t \<longrightarrow> tcp_rd_closed t'"
      "tcp_wr_closed t \<longrightarrow> tcp_wr_closed t'" "send_loop s \<noteq> Looping \<longrightarrow> lp = send_loop s"
    and out: "if send_loop s \<noteq> Looping \<or> tcp_closed t \<or> tcp_wr_closed t then tcp_out t' = tcp_out t
       else tcp_out t' @ ?q oc = tcp_out t @ ?q (oc_conn s) \<or>
         (tcp_closed t' \<and> (\<exists>rest. tcp_out t' @ rest = tcp_out t @ ?q (oc_conn s)))"
    using SendRelay_step_socket [OF t r] by (elim exE conjE) assumption+
  have tcps: "the_tcp s = t" "the_tcp ?s' = t'"
    using t s1 by (simp_all add: the_tcp_def)
  have str: "tx_stream s = tcp_out t @ ?q (oc_conn s)" "tx_stream ?s' = tcp_out t' @ ?q oc"
      "tx_dead s \<longleftrightarrow> send_loop s \<noteq> Looping \<or> tcp_closed t \<or> tcp_wr_closed t"
    using tcps by (simp_all add: tx_stream_def tx_dead_def)
  have "rx_dead s \<longrightarrow> rx_dead ?s'" "tx_dead s \<longrightarrow> tx_dead ?s'" "tcp_closed t' \<longrightarrow> tx_dead ?s'"
    using t' tcps by (auto simp: rx_dead_def tx_dead_def)
  then show ?thesis
    unfolding streams_step_def using t'(1) out [folded str] tcps by (simp split: if_splits) blast
qed

lemma oc_event_streams_step:
  assumes inv: "oc_inv (oc_conn s)" and st: "oc_event_step s ev = (blks, s')"
  shows "streams_step s ev blks s'"
proof -
  obtain t where t: "HalfOpenConn (oc_conn s) = Some t"
    using inv by (auto simp: oc_inv_def split: option.splits)
  show ?thesis
  proof (cases ev)
    case (RecvRound now r)
    obtain bs lp oc where r: "RecvRelay_step now r (recv_loop s) (oc_conn s) = (bs, lp, oc)"
      by (metis prod_cases3)
    have "blks = bs" "s' = s\<lparr>recv_loop := lp, oc_conn := oc\<rparr>"
      using st RecvRound r by (auto simp: oc_event_step_def)
    then show ?thesis
      using RecvRelay_step_socket [OF t r] RecvRelay_step_data [OF t r] t RecvRound
      by (auto simp: streams_step_def rx_dead_def tx_dead_def tx_stream_def the_tcp_def split: if_splits)
  next
    case (SendRound now w pick)
    obtain bs lp oc where r: "SendRelay_step now w pick (send_loop s) (oc_conn s) = (bs, lp, oc)"
      by (metis prod_cases3)
    have "blks = bs" "s' = s\<lparr>send_loop := lp, oc_conn := oc\<rparr>"
      using st SendRound r by (auto simp: oc_event_step_def)
    then show ?thesis
      using send_round_streams [OF t r] SendRound by simp
  next
    case PoolCancel
    then show ?thesis
      using st t
      by (auto simp: streams_step_def oc_event_step_def oc_cancel_def rx_dead_def tx_dead_def tx_stream_def the_tcp_def)
  next
    case (Ordered b)
    then show ?thesis
      using st t by (auto simp: streams_step_def oc_event_step_def Let_def rx_dead_def tx_dead_def tx_stream_def the_tcp_def)
  qed
qed

lemma oc_event_streams:
  assumes inv: "oc_inv (oc_conn s)" and st: "oc_event_step s ev = (blks, s')"
  shows "if rx_dead s then rx_dead s' \<and> concat (map data_of blks) = []
         else concat (map data_of blks) = data_sent ev"
    and "if tx_dead s then tx_dead s' \<and> tcp_out (the_tcp s') = tcp_out (the_tcp s)
         else tx_stream s' = tx_stream s @ arriving ev \<or>
           (tx_dead s' \<and> (\<exists>rest. tcp_out (the_tcp s') @ rest = tx_stream s @ arriving ev))"
  using oc_event_streams_step [OF assms] unfolding streams_step_def by blast+

lemma oc_run_Cons:
  assumes "oc_run s (ev # evs) = (blks, s')"
  obtains bs s1 bs' where "oc_event_step s ev = (bs, s1)" "oc_run s1 evs = (bs', s')" "blks = bs @ bs'"
  using assms by (auto split: prod.splits)

lemma oc_run_rx:
  "oc_inv (oc_conn s) \<Longrightarrow> oc_run s evs = (blks, s') \<Longrightarrow>
     if rx_dead s then rx_dead s' \<and> concat (map data_of blks) = []
     else \<exists>k. concat (map data_of blks) = concat (map data_sent (take k evs)) \<and>
            (\<not> rx_dead s' \<longrightarrow> k = length evs)"
proof (induction evs arbitrary: s blks)
  case Nil
  then show ?case by auto
next
  case (Cons ev evs)
  obtain bs s1 bs' where st: "oc_event_step s ev = (bs, s1)" and r: "oc_run s1 evs = (bs', s')"
      and blks: "blks = bs @ bs'"
    by (rule oc_run_Cons [OF Cons.prems(2)])
  have "oc_inv (oc_conn s1)"
    using oc_event_polite [OF Cons.prems(1) st] by (simp add: polite_def)
  note IH = Cons.IH [OF this r] and ev = oc_event_streams(1) [OF Cons.prems(1) st]
  show ?case
  proof (cases "rx_dead s \<or> \<not> rx_dead s1")
    case True
    then obtain k where k: "\<not> rx_dead s \<longrightarrow> concat (map data_of bs') = concat (map data_sent (take k evs)) \<and>
        (\<not> rx_dead s' \<longrightarrow> k = length evs)"
      using IH by (auto split: if_splits)
    show ?thesis
      using IH True k ev blks by (auto split: if_splits intro!: exI [of _ "Suc k"])
  next
    case False
    then show ?thesis
      using IH ev blks by (auto split: if_splits intro!: exI [of _ "Suc 0"])
  qed
qed

lemma oc_run_tx:
  "oc_inv (oc_conn s) \<Longrightarrow> oc_run s evs = (blks, s') \<Longrightarrow>
     if tx_dead s then tx_dead s' \<and> tcp_out (the_tcp s') = tcp_out (the_tcp s)
     else (\<exists>rest. tcp_out (the_tcp s') @ rest = tx_stream s @ concat (map arriving evs)) \<and>
       (\<not> tx_dead s' \<longrightarrow> tx_stream s' = tx_stream s @ concat (map arriving evs))"
proof (induction evs arbitrary: s blks)
  case Nil
  then show ?case by (auto simp: tx_stream_def)
next
  case (Cons ev evs)
  obtain bs s1 bs' where st: "oc_event_step s ev = (bs, s1)" and r: "oc_run s1 evs = (bs', s')"
    by (rule oc_run_Cons [OF Cons.prems(2)])
  have "oc_inv (oc_conn s1)"
    using oc_event_polite [OF Cons.prems(1) st] by (simp add: polite_def)
  note IH = Cons.IH [OF this r] and ev = oc_event_streams(2) [OF Cons.prems(1) st]
  have ext: "\<exists>rest'. tcp_out (the_tcp s1) @ rest' = tx_stream s1" for s1
    by (simp add: tx_stream_def)
  show ?case
  proof (cases "tx_dead s")
    case True
    then show ?thesis
      using IH ev by auto
  next
    case alive: False
    show ?thesis
    proof (cases "tx_dead s1")
      case True
      then have "\<exists>rest. tcp_out (the_tcp s1) @ rest = tx_stream s @ arriving ev"
        using ev alive ext [of s1] by auto
      then have "\<exists>rest. tcp_out (the_tcp s1) @ rest = tx_stream s @ concat (map arriving (ev # evs))"
        by (metis append_assoc concat.simps(2) list.simps(9))
      then show ?thesis
        using IH True alive by auto
    next
      case False
      then show ?thesis
        using IH ev alive by auto
    qed
  qed
qed



text \<open>
  C17: the peer receives what the socket returned. After any interleaved run of a dialled
  connection the data of the blocks sent is the concatenation of what the reads of the
  \<open>RecvRelay\<close> rounds returned up to some event, and up to the last one as long as the
  receiving direction has not come to its end.
\<close>

theorem outbound_recv_stream:
  assumes "HalfOpenConn oc = Some t" and "\<not> closed oc" and "\<not> rx_dead (oc_started oc)"
    and "oc_run (oc_started oc) evs = (blks, s')"
  shows "\<exists>k. concat (map data_of blks) = concat (map data_sent (take k evs)) \<and>
    (\<not> rx_dead s' \<longrightarrow> k = length evs)"
proof -
  have "oc_inv (oc_conn (oc_started oc))"
    using assms(1,2) by (simp add: oc_inv_def oc_started_def)
  from oc_run_rx [OF this assms(4)] assms(3) show ?thesis by simp
qed

theorem outbound_recv_stream_witness:
  "\<exists>blks s'. oc_run (oc_started sample_out)
       [RecvRound (\<lambda>_. 0) (ReadOk [1, 2]), RecvRound (\<lambda>_. 0) ReadTimeout, RecvRound (\<lambda>_. 0) (ReadOk [3])] = (blks, s') \<and>
     concat (map data_of blks) = [1, 2, 3]"
proof -
  let ?evs = "[RecvRound (\<lambda>_. 0) (ReadOk [1, 2]), RecvRound (\<lambda>_. 0) ReadTimeout, RecvRound (\<lambda>_. 0) (ReadOk [3])]"
  obtain blks s' where r: "oc_run (oc_started sample_out) ?evs = (blks, s')"
    by fastforce
  have dead: "\<not> rx_dead (oc_started sample_out)"
    using sample_out_open(1) by (simp add: rx_dead_def oc_started_def the_tcp_def tcp_open_def)
  have "\<not> rx_dead s'"
    using r by (auto simp: oc_event_step_def oc_started_def RecvRelay_step_def sample_out_def connect_def
        NewOutboundConnection_def tcp_read_def tcp_open_def sendData_def
        rx_dead_def the_tcp_def Let_def split: prod.splits)
  then show ?thesis
    using outbound_recv_stream [OF sample_out_open dead r] r by auto
qed

text \<open>
  Dialling. A fresh connection is closed and has no socket. A successful dial opens it and
  starts the relays; a failing dial sends one disconnect block, asks for the removal from the
  pool, and leaves it closed; a connection that has a socket is not dialled again.
\<close>

theorem outbound_connect:
  "let oc = NewOutboundConnection n m i;
       (blks, started, oc') = connect now dial address oc in
     (if dial address then
        blks = [] \<and> started \<and> \<not> closed oc' \<and> HalfOpenConn oc' = Some tcp_open \<and> \<not> ctxDone oc' \<and>
        connect now' dial' address' oc' = ([], False, oc')
      else (\<exists>b. blks = [b] \<and> is_farewell b \<and> BlockID b = 0 \<and> ConnectionID b = i) \<and>
        \<not> started \<and> closed oc' \<and> ctxDone oc' \<and> HalfOpenConn oc' = None)"
  by (simp add: connect_def NewOutboundConnection_def SendDisconnect_def packDisconnect_def
      newBlockProcessor_def NewDisconnectBlock_def Stop_def is_farewell_def Let_def)

end
