(* ===== verification/Stats.thy ===== *)
theory Stats
  imports Complex_Main Rabbit_Prelude
begin

text \<open>
  \<^verbatim>\<open>stats/stats.go\<close>: the traffic counters of the client and of the server role, the sliding
  history of samples and the rates computed from it. Times are nanoseconds; rates are exact
  rationals where the code rounds to \<^verbatim>\<open>float64\<close>. The figures \<open>GetStats\<close> copies from the Go
  runtime (memory, goroutines) are not modelled.
\<close>

record Stats =
  totalSentBytes :: u64
  totalRecvBytes :: u64
  tunnelCount :: i32
  connectionCount :: i32
  sentBytesHistory :: "u64 list"
  recvBytesHistory :: "u64 list"
  timestamps :: "int list"
  historySize :: nat

definition NewStats :: "nat \<Rightarrow> Stats" where
  "NewStats n = \<lparr>totalSentBytes = 0, totalRecvBytes = 0, tunnelCount = 0, connectionCount = 0,
     sentBytesHistory = [], recvBytesHistory = [], timestamps = [], historySize = n\<rparr>"

definition AddSentBytes :: "u64 \<Rightarrow> Stats \<Rightarrow> Stats" where
  "AddSentBytes n s = s\<lparr>totalSentBytes := totalSentBytes s + n\<rparr>"

definition AddRecvBytes :: "u64 \<Rightarrow> Stats \<Rightarrow> Stats" where
  "AddRecvBytes n s = s\<lparr>totalRecvBytes := totalRecvBytes s + n\<rparr>"

definition IncrementTunnelCount :: "Stats \<Rightarrow> Stats" where
  "IncrementTunnelCount s = s\<lparr>tunnelCount := tunnelCount s + 1\<rparr>"

definition DecrementTunnelCount :: "Stats \<Rightarrow> Stats" where
  "DecrementTunnelCount s = s\<lparr>tunnelCount := tunnelCount s - 1\<rparr>"

definition IncrementConnectionCount :: "Stats \<Rightarrow> Stats" where
  "IncrementConnectionCount s = s\<lparr>connectionCount := connectionCount s + 1\<rparr>"

definition DecrementConnectionCount :: "Stats \<Rightarrow> Stats" where
  "DecrementConnectionCount s = s\<lparr>connectionCount := connectionCount s - 1\<rparr>"

definition UpdateHistory :: "int \<Rightarrow> Stats \<Rightarrow> Stats" where
  "UpdateHistory now s =
     (let s1 = s\<lparr>sentBytesHistory := sentBytesHistory s @ [totalSentBytes s],
                 recvBytesHistory := recvBytesHistory s @ [totalRecvBytes s],
                 timestamps := timestamps s @ [now]\<rparr>
      in if length (timestamps s1) > historySize s1
         then s1\<lparr>sentBytesHistory := tl (sentBytesHistory s1),
                 recvBytesHistory := tl (recvBytesHistory s1),
                 timestamps := tl (timestamps s1)\<rparr>
         else s1)"

record stats_view =
  total_sent_bytes :: u64
  total_recv_bytes :: u64
  tunnel_count :: i32
  connection_count :: i32
  send_rate_Bps :: rat
  recv_rate_Bps :: rat

definition GetStats :: "Stats \<Rightarrow> stats_view" where
  "GetStats s =
     (let h = length (timestamps s);
          window = timestamps s ! (h - 1) - timestamps s ! 0;
          rate = (\<lambda>hist. if h \<ge> 2 \<and> window > 0
                   then of_nat (unat (hist ! (h - 1) - hist ! 0)) / (of_int window / 1000000000)
                   else 0)
      in \<lparr>total_sent_bytes = totalSentBytes s, total_recv_bytes = totalRecvBytes s,
          tunnel_count = tunnelCount s, connection_count = connectionCount s,
          send_rate_Bps = rate (sentBytesHistory s), recv_rate_Bps = rate (recvBytesHistory s)\<rparr>)"

text \<open>
  The two global instances. \<open>InitStats\<close> runs once; its goroutine takes a sample of both on
  every tick.
\<close>

type_synonym global_stats = "(Stats \<times> Stats) option"

definition InitStats :: "nat \<Rightarrow> global_stats \<Rightarrow> global_stats" where
  "InitStats n g = (case g of None \<Rightarrow> Some (NewStats n, NewStats n) | Some x \<Rightarrow> Some x)"

definition stats_tick :: "int \<Rightarrow> int \<Rightarrow> Stats \<times> Stats \<Rightarrow> Stats \<times> Stats" where
  "stats_tick now1 now2 g = (UpdateHistory now1 (fst g), UpdateHistory now2 (snd g))"

section \<open>The history is a sliding window\<close>

text \<open>A run of the counters: additions of bytes and samples.\<close>

datatype stats_op = AddSent u64 | AddRecv u64 | Sample int

fun stats_run :: "Stats \<Rightarrow> stats_op list \<Rightarrow> Stats" where
  "stats_run s [] = s"
| "stats_run s (AddSent n # ops) = stats_run (AddSentBytes n s) ops"
| "stats_run s (AddRecv n # ops) = stats_run (AddRecvBytes n s) ops"
| "stats_run s (Sample t # ops) = stats_run (UpdateHistory t s) ops"

text \<open>The samples a run takes, from the totals it starts with.\<close>

fun samples :: "u64 \<Rightarrow> u64 \<Rightarrow> stats_op list \<Rightarrow> (u64 \<times> u64 \<times> int) list" where
  "samples a b [] = []"
| "samples a b (AddSent n # ops) = samples (a + n) b ops"
| "samples a b (AddRecv n # ops) = samples a (b + n) ops"
| "samples a b (Sample t # ops) = (a, b, t) # samples a b ops"

definition last_n :: "nat \<Rightarrow> 'a list \<Rightarrow> 'a list" where
  "last_n n xs = drop (length xs - n) xs"

definition holds_samples :: "Stats \<Rightarrow> (u64 \<times> u64 \<times> int) list \<Rightarrow> bool" where
  "holds_samples s xs \<longleftrightarrow>
     sentBytesHistory s = map fst xs \<and> recvBytesHistory s = map (fst \<circ> snd) xs \<and>
     timestamps s = map (snd \<circ> snd) xs"

lemma last_n_snoc: "last_n n (last_n n xs @ [x]) = last_n n (xs @ [x])"
  by (cases "n \<le> length xs") (auto simp: last_n_def Suc_diff_le)

lemma last_n_length: "length (last_n n xs) = min n (length xs)"
  by (auto simp: last_n_def)

lemma UpdateHistory_samples:
  assumes "holds_samples s xs" and "length xs \<le> historySize s"
  shows "holds_samples (UpdateHistory t s)
    (last_n (historySize s) (xs @ [(totalSentBytes s, totalRecvBytes s, t)]))"
  using assms by (cases xs)
    (auto simp: holds_samples_def UpdateHistory_def last_n_def Let_def less_Suc_eq le_Suc_eq)

lemma stats_run_samples:
  "holds_samples s (last_n (historySize s) xs) \<Longrightarrow>
     holds_samples (stats_run s ops)
       (last_n (historySize s) (xs @ samples (totalSentBytes s) (totalRecvBytes s) ops))"
proof (induction ops arbitrary: s xs)
  case Nil
  then show ?case by simp
next
  case (Cons op ops)
  show ?case
  proof (cases op)
    case (Sample t)
    let ?s = "UpdateHistory t s" and ?x = "(totalSentBytes s, totalRecvBytes s, t)"
    have same: "historySize ?s = historySize s" "totalSentBytes ?s = totalSentBytes s"
        "totalRecvBytes ?s = totalRecvBytes s"
      by (simp_all add: UpdateHistory_def Let_def)
    have "holds_samples ?s (last_n (historySize s) (xs @ [?x]))"
      using UpdateHistory_samples [OF Cons.prems] by (simp add: last_n_length last_n_snoc)
    then show ?thesis
      using Cons.IH [of ?s "xs @ [?x]"] same Sample by simp
  qed (use Cons.IH [of "AddSentBytes _ s" xs] Cons.IH [of "AddRecvBytes _ s" xs] Cons.prems in
      \<open>auto simp: AddSentBytes_def AddRecvBytes_def holds_samples_def\<close>)
qed

section \<open>Properties of the statistics\<close>

text \<open>
  The history is a sliding window. After any sequence of additions and samples the three
  history lists hold exactly the last \<open>historySize\<close> samples: the totals (modulo
  \<open>2\<^sup>6\<^sup>4\<close>) and the time at which each was taken, in order.
\<close>

theorem stats_history_window:
  "holds_samples (stats_run (NewStats n) ops) (last_n n (samples 0 0 ops))"
  using stats_run_samples [of "NewStats n" "[]" ops]
  by (simp add: NewStats_def holds_samples_def last_n_def)

text \<open>
  The rate. If the sent total grew by \<open>d < 2\<^sup>6\<^sup>4\<close> between the oldest and the newest sample,
  also across a wrap-around of the counter, and time advanced, the reported rate is \<open>d\<close> bytes
  over that time in seconds.
\<close>

theorem stats_send_rate:
  assumes "holds_samples s (x # ys @ [y])" and "snd (snd x) < snd (snd y)"
    and "fst y = fst x + of_nat d" and "d < 2 ^ 64"
  shows "send_rate_Bps (GetStats s) = of_nat d * 1000000000 / of_int (snd (snd y) - snd (snd x))"
proof -
  have "unat (fst y - fst x) = d"
    using assms(3,4) by (simp add: unat_of_nat)
  then show ?thesis
    using assms(1,2) by (simp add: holds_samples_def GetStats_def Let_def nth_append)
qed

theorem stats_send_rate_witness:
  "send_rate_Bps (GetStats (stats_run (NewStats 10)
     [AddSent (2 ^ 64 - 100), Sample 0, AddSent 300, Sample 2000000000])) = 150"
proof -
  have "holds_samples (stats_run (NewStats 10)
      [AddSent (2 ^ 64 - 100), Sample 0, AddSent 300, Sample 2000000000])
      ((- 100, 0, 0) # [] @ [(200, 0, 2000000000)])"
    by (simp add: holds_samples_def NewStats_def AddSentBytes_def UpdateHistory_def)
  from stats_send_rate [OF this, of 300] show ?thesis
    by simp
qed

end
