(* ===== verification/Tunnel.thy ===== *)
theory Tunnel
  imports "HOL-Library.Signed_Division" Block Go_Chan Stats
begin

text \<open>
  \<^verbatim>\<open>tunnel_pool/tunnel.go\<close>: one tunnel of a peer. It exchanges the peer number with the
  other side, sends blocks taken from the pool's queues, turns received bytes into blocks and
  measures the latency with ping and pong blocks. The connection below the tunnel is seen
  through its bytes: \<open>t_in\<close> is what it will still deliver, \<open>t_out\<close> what it has accepted
  and not yet delivered to the other side.
\<close>

section \<open>The tunnel\<close>

record Tunnel =
  t_in :: source
  t_out :: "byte list"
  t_connClosed :: bool
  t_ctxDone :: bool
  tunnelID :: u32
  peerID :: u32
  t_RecvBytes :: u64
  t_SentBytes :: u64
  t_LastActivity :: i64
  t_LatencyNano :: i64
  IsClientMode :: bool
  IsActive :: bool

definition newTunnelWithID :: "u32 \<Rightarrow> source \<Rightarrow> u32 \<Rightarrow> Tunnel" where
  "newTunnelWithID rand conn pid =
     \<lparr>t_in = conn, t_out = [], t_connClosed = False, t_ctxDone = False, tunnelID = rand,
      peerID = pid, t_RecvBytes = 0, t_SentBytes = 0, t_LastActivity = 0, t_LatencyNano = 0,
      IsClientMode = False, IsActive = False\<rparr>"

definition tun_SetLastActive :: "i64 \<Rightarrow> Tunnel \<Rightarrow> Tunnel" where
  "tun_SetLastActive now t = t\<lparr>t_LastActivity := now, IsActive := True\<rparr>"

definition tun_SetLatencyNanoSince :: "i64 \<Rightarrow> i64 \<Rightarrow> Tunnel \<Rightarrow> Tunnel" where
  "tun_SetLatencyNanoSince now timestamp t = t\<lparr>t_LatencyNano := now - timestamp\<rparr>"

definition SetLatencyNano :: "i64 \<Rightarrow> Tunnel \<Rightarrow> Tunnel" where
  "SetLatencyNano latency t = t\<lparr>t_LatencyNano := latency\<rparr>"

definition closeThenCancel :: "Tunnel \<Rightarrow> Tunnel" where
  "closeThenCancel t = t\<lparr>t_connClosed := True, t_ctxDone := True\<rparr>"

text \<open>Writing to the connection: the number of bytes taken and whether there was no error.\<close>

definition conn_write :: "net_write \<Rightarrow> byte list \<Rightarrow> Tunnel \<Rightarrow> nat \<times> bool \<times> Tunnel" where
  "conn_write w d t =
     (if t_connClosed t then (0, False, t)
      else case w of
             WriteOk \<Rightarrow> (length d, True, t\<lparr>t_out := t_out t @ d\<rparr>)
           | WriteErr n \<Rightarrow> (min n (length d), False, t\<lparr>t_out := t_out t @ take n d\<rparr>))"

text \<open>Reading from a closed connection fails with an error of the connection.\<close>

definition conn_source :: "Tunnel \<Rightarrow> source" where
  "conn_source t = (if t_connClosed t then \<lparr>avail = [], final = NetErr\<rparr> else t_in t)"

section \<open>Exchanging the peer number\<close>

datatype exchange_error = SendFailed | RecvFailed io_error | InvalidExchanging

definition sendPeerID :: "net_write \<Rightarrow> u32 \<Rightarrow> Tunnel \<Rightarrow> bool \<times> Tunnel" where
  "sendPeerID w pid t =
     (let buf = le_bytes 4 pid; (n, ok, t') = conn_write w buf t in (ok, t'))"

definition recvPeerID :: "Tunnel \<Rightarrow> (io_error + u32) \<times> Tunnel" where
  "recvPeerID t =
     (case ReadFull 4 (conn_source t) of
        (Inl e, s) \<Rightarrow> (Inl e, t\<lparr>t_in := s\<rparr>)
      | (Inr buf, s) \<Rightarrow> (Inr (le_word buf), t\<lparr>t_in := s\<rparr>))"

definition activeExchangePeerID :: "net_write \<Rightarrow> Tunnel \<Rightarrow> exchange_error option \<times> Tunnel" where
  "activeExchangePeerID w t =
     (case sendPeerID w (peerID t) t of
        (False, t1) \<Rightarrow> (Some SendFailed, t1)
      | (True, t1) \<Rightarrow>
          (case recvPeerID t1 of
             (Inl e, t2) \<Rightarrow> (Some (RecvFailed e), t2)
           | (Inr pid, t2) \<Rightarrow>
               if peerID t2 \<noteq> pid then (Some InvalidExchanging, t2) else (None, t2)))"

definition passiveExchangePeerID :: "net_write \<Rightarrow> Tunnel \<Rightarrow> exchange_error option \<times> Tunnel" where
  "passiveExchangePeerID w t =
     (case recvPeerID t of
        (Inl e, t1) \<Rightarrow> (Some (RecvFailed e), t1)
      | (Inr pid, t1) \<Rightarrow>
          (case sendPeerID w pid t1 of
             (False, t2) \<Rightarrow> (Some SendFailed, t2)
           | (True, t2) \<Rightarrow> (None, t2\<lparr>peerID := pid\<rparr>)))"

definition NewActiveTunnel :: "net_write \<Rightarrow> u32 \<Rightarrow> source \<Rightarrow> u32 \<Rightarrow> exchange_error option \<times> Tunnel" where
  "NewActiveTunnel w rand conn pid =
     activeExchangePeerID w ((newTunnelWithID rand conn pid)\<lparr>IsClientMode := True\<rparr>)"

definition NewPassiveTunnel :: "net_write \<Rightarrow> u32 \<Rightarrow> source \<Rightarrow> exchange_error option \<times> Tunnel" where
  "NewPassiveTunnel w rand conn =
     passiveExchangePeerID w ((newTunnelWithID rand conn 0)\<lparr>IsClientMode := False\<rparr>)"

section \<open>Sending a block\<close>

text \<open>
  \<open>packThenSend\<close> with the two global counters (client, server). \<open>retry\<close> says whether the
  caller gave a retry queue. The last component is the block the started goroutine tries to
  put back; \<open>retry_select\<close> is that goroutine: with both alternatives ready the choice of
  \<^verbatim>\<open>select\<close> is the argument; \<open>None\<close> means that it still waits, \<open>Some None\<close> that the block is
  dropped.
\<close>

definition count_sent :: "Tunnel \<Rightarrow> u64 \<Rightarrow> Stats \<times> Stats \<Rightarrow> Stats \<times> Stats" where
  "count_sent t n g =
     (if IsClientMode t then (AddSentBytes n (fst g), snd g) else (fst g, AddSentBytes n (snd g)))"

definition count_recv :: "Tunnel \<Rightarrow> u64 \<Rightarrow> Stats \<times> Stats \<Rightarrow> Stats \<times> Stats" where
  "count_recv t n g =
     (if IsClientMode t then (AddRecvBytes n (fst g), snd g) else (fst g, AddRecvBytes n (snd g)))"

definition packThenSend ::
    "net_write \<Rightarrow> Block \<Rightarrow> bool \<Rightarrow> Tunnel \<Rightarrow> Stats \<times> Stats \<Rightarrow>
     Tunnel \<times> (Stats \<times> Stats) \<times> Block option" where
  "packThenSend w blk0 retry t g =
     (let (dataToSend, blk) = Pack blk0;
          (n, ok, t1) = conn_write w dataToSend t;
          good = (ok \<and> n = length dataToSend);
          (t2, g2) = (if good then (t1\<lparr>t_SentBytes := t_SentBytes t1 + of_nat n\<rparr>, count_sent t1 (of_nat n) g)
                      else (t1, g))
      in if \<not> good \<and> retry then (closeThenCancel t2, g2, Some blk) else (t2, g2, None))"

definition retry_select :: "bool \<Rightarrow> Block \<Rightarrow> bool \<Rightarrow> Block chan \<Rightarrow> Block chan option option" where
  "retry_select pickDone blk ctxDone retryQueue =
     (case chan_send retryQueue blk of
        Sent q \<Rightarrow> if ctxDone \<and> pickDone then Some None else Some (Some q)
      | _ \<Rightarrow> if ctxDone then Some None else None)"

section \<open>The relays\<close>

text \<open>
  \<open>OutboundRelay\<close> is a loop with two places where it can be: at its top, where cancellation and
  then the retry queue are looked at without waiting, and at the final \<^verbatim>\<open>select\<close>. The
  alternative \<open>pick\<close> that \<^verbatim>\<open>select\<close> takes is an argument; when it is not ready the step does
  nothing.
\<close>

datatype relay_pc = AtTop | AtSelect | RelayEnded

datatype relay_pick = PickDone | PickRetry | PickNormal

record out_queues =
  normalQueue :: "Block chan"
  retryQueue :: "Block chan"

type_synonym out_result = "relay_pc \<times> out_queues \<times> Tunnel \<times> (Stats \<times> Stats) \<times> Block option"

definition send_from :: "net_write \<Rightarrow> Block \<Rightarrow> relay_pc \<Rightarrow> out_queues \<Rightarrow> Tunnel \<Rightarrow> Stats \<times> Stats \<Rightarrow> out_result" where
  "send_from w blk pc qs t g = (case packThenSend w blk True t g of (t1, g1, r) \<Rightarrow> (pc, qs, t1, g1, r))"

definition OutboundRelay_step ::
    "net_write \<Rightarrow> relay_pick \<Rightarrow> relay_pc \<Rightarrow> out_queues \<Rightarrow> Tunnel \<Rightarrow> Stats \<times> Stats \<Rightarrow> out_result" where
  "OutboundRelay_step w pick pc qs t g =
     (case pc of
        AtTop \<Rightarrow>
          if t_ctxDone t then (RelayEnded, qs, t, g, None)
          else (case chan_recv (retryQueue qs) of
                  Received blk q \<Rightarrow> send_from w blk AtSelect (qs\<lparr>retryQueue := q\<rparr>) t g
                | ZeroValue \<Rightarrow> (RelayEnded, qs, t, g, None)
                | RecvBlocks \<Rightarrow> (AtSelect, qs, t, g, None))
      | AtSelect \<Rightarrow>
          (case pick of
             PickDone \<Rightarrow> if t_ctxDone t then (RelayEnded, qs, t, g, None) else (AtSelect, qs, t, g, None)
           | PickRetry \<Rightarrow>
               (case chan_recv (retryQueue qs) of
                  Received blk q \<Rightarrow> send_from w blk AtTop (qs\<lparr>retryQueue := q\<rparr>) t g
                | ZeroValue \<Rightarrow> (RelayEnded, qs, t, g, None)
                | RecvBlocks \<Rightarrow> (AtSelect, qs, t, g, None))
           | PickNormal \<Rightarrow>
               (case chan_recv (normalQueue qs) of
                  Received blk q \<Rightarrow> send_from w blk AtTop (qs\<lparr>normalQueue := q\<rparr>) t g
                | ZeroValue \<Rightarrow> (RelayEnded, qs, t, g, None)
                | RecvBlocks \<Rightarrow> (AtSelect, qs, t, g, None)))
      | RelayEnded \<Rightarrow> (RelayEnded, qs, t, g, None))"

text \<open>
  One round of \<open>InboundRelay\<close>. The result is the block put on the output queue, if any, and
  whether the loop goes on; \<open>InPanics\<close> is the panic of \<^verbatim>\<open>binary.LittleEndian.Uint64\<close> on fewer
  than eight bytes.
\<close>

datatype in_outcome = InLoops | InEnded | InPanics

definition InboundRelay_step ::
    "i64 \<Rightarrow> net_write \<Rightarrow> Tunnel \<Rightarrow> Stats \<times> Stats \<Rightarrow>
     Block option \<times> in_outcome \<times> Tunnel \<times> (Stats \<times> Stats)" where
  "InboundRelay_step now w t0 g =
     (case NewBlockFromReader (conn_source t0) of
        (Inl e, s) \<Rightarrow>
          let t = t0\<lparr>t_in := s\<rparr> in
          if t_ctxDone t then (None, InEnded, t, g) else (None, InLoops, closeThenCancel t, g)
      | (Inr blk0, s) \<Rightarrow>
          let t = t0\<lparr>t_in := s\<rparr>;
              (bytes, blk) = Pack blk0;
              n = of_nat (length bytes) in
          if t_ctxDone t then
            (Some blk, InEnded, t\<lparr>t_RecvBytes := t_RecvBytes t + n\<rparr>, count_recv t n g)
          else
            let t1 = tun_SetLastActive now t;
                t2 = t1\<lparr>t_RecvBytes := t_RecvBytes t1 + n\<rparr>;
                g2 = count_recv t2 n g in
            if Type blk = TypePing then
              (if length (BlockData blk) < 8 then (None, InPanics, t2, g2)
               else
                 let t3 = SetLatencyNano (le_word (take 8 (BlockData blk))) t2;
                     pongblk = NewPongBlock now 0 0 (TimeStamp blk) in
                 (case packThenSend w pongblk False t3 g2 of (t4, g4, _) \<Rightarrow> (None, InLoops, t4, g4)))
            else if Type blk = TypePong then
              (if length (BlockData blk) < 8 then (None, InPanics, t2, g2)
               else (None, InLoops, tun_SetLatencyNanoSince now (le_word (take 8 (BlockData blk))) t2, g2))
            else (Some blk, InLoops, t2, g2))"

text \<open>
  One tick of \<open>PingPong\<close>; the clock is read twice, and intervals are whole seconds by
  truncating division of signed nanoseconds.
\<close>

definition idle_seconds :: "i64 \<Rightarrow> Tunnel \<Rightarrow> int" where
  "idle_seconds now t = sint (now - t_LastActivity t) sdiv 1000000000"

definition PingPong_tick ::
    "int \<Rightarrow> int \<Rightarrow> i64 \<Rightarrow> i64 \<Rightarrow> net_write \<Rightarrow> Tunnel \<Rightarrow> Stats \<times> Stats \<Rightarrow> bool \<times> Tunnel \<times> (Stats \<times> Stats)" where
  "PingPong_tick PingInterval TunnelRecvTimeoutSec now1 now2 w t g =
     (if t_ctxDone t then (False, t, g)
      else
        let (t1, g1) =
              (if idle_seconds now1 t > PingInterval
               then (case packThenSend w (NewPingBlock now1 (tunnelID t) 0 (t_LatencyNano t)) False t g of
                       (t1, g1, _) \<Rightarrow> (t1, g1))
               else (t, g));
            t2 = (if idle_seconds now2 t1 > PingInterval + TunnelRecvTimeoutSec
                  then closeThenCancel (t1\<lparr>IsActive := False\<rparr>) else t1)
        in (True, t2, g1))"

section \<open>Lemmas about sending and receiving\<close>

lemma packThenSend_ok:
  assumes "\<not> t_connClosed t" and "block_wf blk"
  shows "packThenSend WriteOk blk retry t g =
    (t\<lparr>t_out := t_out t @ wire blk, t_SentBytes := t_SentBytes t + of_nat (length (wire blk))\<rparr>,
     count_sent t (of_nat (length (wire blk))) g, None)"
  using assms by (simp add: packThenSend_def conn_write_def count_sent_def wire_def split: prod.split)

lemma packThenSend_fail:
  assumes "t_connClosed t \<or> w = WriteErr n"
  shows "\<exists>k. packThenSend w blk True t g =
    (closeThenCancel (t\<lparr>t_out := t_out t @ take k (wire blk)\<rparr>), g, Some (snd (Pack blk)))"
proof (cases "t_connClosed t")
  case True
  then show ?thesis
    by (intro exI [of _ 0]) (simp add: packThenSend_def conn_write_def split: prod.split)
next
  case False
  then show ?thesis
    using assms by (intro exI [of _ n])
      (simp add: packThenSend_def conn_write_def wire_def split: prod.split)
qed

lemma packThenSend_closed:
  "t_connClosed t \<Longrightarrow> packThenSend w blk True t g = (closeThenCancel t, g, Some (snd (Pack blk)))"
  by (simp add: packThenSend_def conn_write_def split: prod.split)

lemma packThenSend_cases:
  assumes "block_wf blk" and "packThenSend w blk True t g = (t', g', r)"
  obtains (sent) "\<not> t_connClosed t" "t_out t' = t_out t @ wire blk" "r = None"
      "t_connClosed t' = t_connClosed t" "t_ctxDone t' = t_ctxDone t"
    | (failed) k where "t_out t' = t_out t @ take k (wire blk)" "r = Some (snd (Pack blk))"
      "t_connClosed t'" "t_ctxDone t'" "g' = g" "t_connClosed t \<longrightarrow> t_out t' = t_out t"
proof (cases "t_connClosed t \<or> (\<exists>n. w = WriteErr n)")
  case True
  show ?thesis
  proof (cases "t_connClosed t")
    case closed: True
    show ?thesis
      using packThenSend_closed [OF closed, of w blk g] assms(2) that(2) [of 0]
      by (auto simp: closeThenCancel_def)
  next
    case False
    then obtain n where "t_connClosed t \<or> w = WriteErr n"
      using True by blast
    from packThenSend_fail [OF this, of blk g] that(2) assms(2) False show ?thesis
      by (auto simp: closeThenCancel_def)
  qed
next
  case False
  then have "w = WriteOk"
    by (cases w) auto
  with False packThenSend_ok [OF _ assms(1), of t True g] that(1) assms(2) show ?thesis
    by auto
qed

text \<open>
  Receiving a well-formed block that is on the connection: what the round does, by the kind of
  the block.
\<close>

definition is_control :: "Block \<Rightarrow> bool" where
  "is_control b \<longleftrightarrow> Type b = TypePing \<or> Type b = TypePong"

lemma conn_source_open: "\<not> t_connClosed t \<Longrightarrow> conn_source t = t_in t"
  by (simp add: conn_source_def)

lemma InboundRelay_step_block:
  assumes "\<not> t_connClosed t" and "\<not> t_ctxDone t" and "block_wf b" and "\<not> is_control b"
    and "avail (t_in t) = wire b @ rest"
  shows "InboundRelay_step now w t g =
    (Some (snd (Pack (uncached b))), InLoops,
     t\<lparr>t_in := (t_in t)\<lparr>avail := rest\<rparr>, t_LastActivity := now, IsActive := True,
       t_RecvBytes := t_RecvBytes t + of_nat (length (wire b))\<rparr>,
     count_recv t (of_nat (length (wire b))) g)"
proof -
  have "t_in t = \<lparr>avail = wire b @ rest, final = final (t_in t)\<rparr>"
    using assms(5) by simp
  then have rd: "NewBlockFromReader (conn_source t) = (Inr (uncached b), (t_in t)\<lparr>avail := rest\<rparr>)"
    using NewBlockFromReader_wire [OF assms(3), of rest "final (t_in t)"] assms(1)
    by (simp add: conn_source_open)
  have wf: "block_wf (uncached b)"
    using assms(3) by (simp add: block_wf_def)
  have len: "length (fst (Pack (uncached b))) = length (wire b)"
    using length_wire [OF assms(3)] length_wire [OF wf] by (simp add: wire_def)
  have ty: "Type (snd (Pack (uncached b))) = Type b"
    by (simp add: Pack_def uncached_def Let_def)
  obtain bytes blk where "Pack (uncached b) = (bytes, blk)"
    by fastforce
  then show ?thesis
    using assms(2,4) rd len ty
    by (simp add: InboundRelay_step_def tun_SetLastActive_def count_recv_def is_control_def Let_def)
qed

lemma InboundRelay_step_error:
  assumes "NewBlockFromReader (conn_source t) = (Inl e, s)"
  shows "InboundRelay_step now w t g =
    (if t_ctxDone t then (None, InEnded, t\<lparr>t_in := s\<rparr>, g)
     else (None, InLoops, closeThenCancel (t\<lparr>t_in := s\<rparr>), g))"
  using assms by (simp add: InboundRelay_step_def)

lemma InboundRelay_step_closed:
  assumes "t_connClosed t" and "t_ctxDone t"
  shows "\<exists>s. InboundRelay_step now w t g = (None, InEnded, t\<lparr>t_in := s\<rparr>, g)"
proof -
  have "\<exists>e s. NewBlockFromReader (conn_source t) = (Inl e, s)"
    using assms(1) NewBlockFromReader_short [of "conn_source t"] by (simp add: conn_source_def)
  then show ?thesis
    using InboundRelay_step_error assms(2) by fastforce
qed

section \<open>Whole runs over one tunnel\<close>

fun send_blocks :: "Block list \<Rightarrow> Tunnel \<Rightarrow> Stats \<times> Stats \<Rightarrow> Tunnel \<times> (Stats \<times> Stats)" where
  "send_blocks [] t g = (t, g)"
| "send_blocks (b # bs) t g =
     (case packThenSend WriteOk b True t g of (t1, g1, _) \<Rightarrow> send_blocks bs t1 g1)"

fun recv_rounds :: "i64 list \<Rightarrow> Tunnel \<Rightarrow> Stats \<times> Stats \<Rightarrow> Block list \<times> Tunnel \<times> (Stats \<times> Stats)" where
  "recv_rounds [] t g = ([], t, g)"
| "recv_rounds (now # nows) t g =
     (case InboundRelay_step now WriteOk t g of
        (out, _, t1, g1) \<Rightarrow>
          let (outs, t2, g2) = recv_rounds nows t1 g1
          in ((case out of None \<Rightarrow> [] | Some b \<Rightarrow> [b]) @ outs, t2, g2))"

definition wire_all :: "Block list \<Rightarrow> byte list" where
  "wire_all bs = concat (map wire bs)"

lemma wire_all_simps [simp]: "wire_all [] = []" "wire_all (b # bs) = wire b @ wire_all bs"
    "wire_all (bs @ bs') = wire_all bs @ wire_all bs'"
  by (simp_all add: wire_all_def)

lemma send_blocks_out:
  "\<not> t_connClosed t \<Longrightarrow> list_all block_wf bs \<Longrightarrow> send_blocks bs t g = (t', g') \<Longrightarrow>
     t_out t' = t_out t @ wire_all bs \<and> \<not> t_connClosed t' \<and>
     t_SentBytes t' = t_SentBytes t + of_nat (length (wire_all bs))"
proof (induction bs arbitrary: t g)
  case Nil
  then show ?case by simp
next
  case (Cons b bs)
  then show ?case
    using Cons.IH [of "fst (packThenSend WriteOk b True t g)" "fst (snd (packThenSend WriteOk b True t g))"]
    by (simp add: packThenSend_ok add.assoc)
qed

lemma recv_rounds_in:
  "\<not> t_connClosed t \<Longrightarrow> \<not> t_ctxDone t \<Longrightarrow> list_all block_wf bs \<Longrightarrow> list_all (\<lambda>b. \<not> is_control b) bs \<Longrightarrow>
     avail (t_in t) = wire_all bs @ rest \<Longrightarrow> length nows = length bs \<Longrightarrow>
     recv_rounds nows t g = (outs, t', g') \<Longrightarrow>
     map uncached outs = map uncached bs \<and> avail (t_in t') = rest \<and>
     t_RecvBytes t' = t_RecvBytes t + of_nat (length (wire_all bs))"
proof (induction bs arbitrary: t g nows outs)
  case Nil
  then show ?case by simp
next
  case (Cons b bs)
  obtain now nows' where nows: "nows = now # nows'" "length nows' = length bs"
    using Cons.prems(6) by (cases nows) auto
  let ?t1 = "t\<lparr>t_in := (t_in t)\<lparr>avail := wire_all bs @ rest\<rparr>, t_LastActivity := now, IsActive := True,
       t_RecvBytes := t_RecvBytes t + of_nat (length (wire b))\<rparr>"
  let ?g1 = "count_recv t (of_nat (length (wire b))) g"
  have step: "InboundRelay_step now WriteOk t g =
      (Some (snd (Pack (uncached b))), InLoops, ?t1, ?g1)"
    using Cons.prems by (intro InboundRelay_step_block) auto
  obtain outs' where r: "recv_rounds nows' ?t1 ?g1 = (outs', t', g')"
      and outs: "outs = snd (Pack (uncached b)) # outs'"
    using Cons.prems(7) step nows(1) by (auto split: prod.splits)
  have "map uncached outs' = map uncached bs \<and> avail (t_in t') = rest \<and>
      t_RecvBytes t' = t_RecvBytes ?t1 + of_nat (length (wire_all bs))"
    using Cons.prems nows(2) r by (intro Cons.IH [of ?t1 nows' ?g1 outs']) auto
  then show ?case
    using outs by (simp add: add.assoc)
qed

section \<open>Properties of a tunnel\<close>

text \<open>
  C26: the peer number is agreed on. When the passive side finds on its connection the bytes
  the active side has sent, and the active side then finds the bytes of the reply on its own,
  both exchanges succeed, both ends hold the active side's peer number, and each connection is
  left right behind the exchange.
\<close>

theorem exchange_agrees:
  assumes "sendPeerID WriteOk pid ((newTunnelWithID r1 ca pid)\<lparr>IsClientMode := True\<rparr>) = (True, a1)"
    and "cp = \<lparr>avail = t_out a1 @ rest1, final = e1\<rparr>"
    and "NewPassiveTunnel WriteOk r2 cp = (perr, p)"
    and "ca = \<lparr>avail = t_out p @ rest2, final = e2\<rparr>"
    and "NewActiveTunnel WriteOk r1 ca pid = (aerr, a)"
  shows "perr = None \<and> aerr = None \<and> peerID a = pid \<and> peerID p = pid \<and>
    avail (t_in a) = rest2 \<and> avail (t_in p) = rest1 \<and> IsClientMode a \<and> \<not> IsClientMode p"
proof -
  have out: "t_out a1 = le_bytes 4 pid"
    using assms(1) by (auto simp: sendPeerID_def conn_write_def newTunnelWithID_def)
  have p: "perr = None \<and> peerID p = pid \<and> avail (t_in p) = rest1 \<and> t_out p = le_bytes 4 pid \<and> \<not> IsClientMode p"
    using assms(3) by (simp add: NewPassiveTunnel_def passiveExchangePeerID_def recvPeerID_def
        sendPeerID_def conn_write_def conn_source_def newTunnelWithID_def assms(2) out ReadFull_append)
      auto
  then have "t_out p = le_bytes 4 pid"
    by simp
  then have "aerr = None \<and> peerID a = pid \<and> avail (t_in a) = rest2 \<and> IsClientMode a"
    using assms(5) by (simp add: NewActiveTunnel_def activeExchangePeerID_def recvPeerID_def
        sendPeerID_def conn_write_def conn_source_def newTunnelWithID_def assms(4) ReadFull_append)
      auto
  with p show ?thesis
    by blast
qed

theorem exchange_agrees_witness:
  "\<exists>p a. NewPassiveTunnel WriteOk 2 \<lparr>avail = [7, 0, 0, 0], final = EOF\<rparr> = (None, p) \<and>
     NewActiveTunnel WriteOk 1 \<lparr>avail = [7, 0, 0, 0], final = EOF\<rparr> 7 = (None, a) \<and> peerID a = peerID p"
proof -
  let ?c = "\<lparr>avail = [7, 0, 0, 0], final = EOF\<rparr> :: source"
  have seven: "le_bytes 4 (7 :: u32) = [7, 0, 0, 0]"
    using le_bytes_le_word_u32 [of "[7, 0, 0, 0]"] by simp
  obtain perr p where p: "NewPassiveTunnel WriteOk 2 ?c = (perr, p)"
    by fastforce
  obtain aerr a where a: "NewActiveTunnel WriteOk 1 ?c 7 = (aerr, a)"
    by fastforce
  obtain a1 where a1: "sendPeerID WriteOk 7 ((newTunnelWithID 1 ?c 7)\<lparr>IsClientMode := True\<rparr>) = (True, a1)"
      and o1: "t_out a1 = [7, 0, 0, 0]"
    using seven by (auto simp: sendPeerID_def conn_write_def newTunnelWithID_def)
  have o2: "t_out p = [7, 0, 0, 0]"
    using p by (auto simp: NewPassiveTunnel_def passiveExchangePeerID_def recvPeerID_def ReadFull_def
        sendPeerID_def conn_write_def conn_source_def newTunnelWithID_def seven)
  have "?c = \<lparr>avail = t_out a1 @ [], final = EOF\<rparr>" "?c = \<lparr>avail = t_out p @ [], final = EOF\<rparr>"
    using o1 o2 by simp_all
  from exchange_agrees [OF a1 this(1) p this(2) a] show ?thesis
    using p a by auto
qed

text \<open>
  C13: a tunnel is a lossless ordered carrier. Blocks sent one after the other over an open
  tunnel, once their bytes are on the other end, are put on the output queue by as many
  rounds of \<open>InboundRelay\<close>, the same blocks in the same order; whatever bytes follow are left
  alone, and sender and receiver count the same number of bytes.
\<close>

theorem tunnel_carries_blocks:
  assumes "\<not> t_connClosed a" and "list_all block_wf bs" and "list_all (\<lambda>b. \<not> is_control b) bs"
    and "send_blocks bs a g = (a', g')"
    and "\<not> t_connClosed p" and "\<not> t_ctxDone p"
    and "avail (t_in p) = drop (length (t_out a)) (t_out a') @ rest" and "length nows = length bs"
    and "recv_rounds nows p h = (outs, p', h')"
  shows "map uncached outs = map uncached bs \<and> avail (t_in p') = rest \<and>
    t_SentBytes a' - t_SentBytes a = t_RecvBytes p' - t_RecvBytes p"
proof -
  note s = send_blocks_out [OF assms(1,2,4)]
  have "avail (t_in p) = wire_all bs @ rest"
    using assms(7) s by simp
  from recv_rounds_in [OF assms(5,6,2,3) this assms(8,9)] s show ?thesis
    by simp
qed

definition sample_tunnel :: "byte list \<Rightarrow> Tunnel" where
  "sample_tunnel inp = newTunnelWithID 5 \<lparr>avail = inp, final = EOF\<rparr> 9"

lemma sample_tunnel_open [simp]: "\<not> t_connClosed (sample_tunnel inp)" "\<not> t_ctxDone (sample_tunnel inp)"
  by (simp_all add: sample_tunnel_def newTunnelWithID_def)

theorem tunnel_carries_blocks_witness:
  "\<exists>a' g' outs p' h'. send_blocks [newDataBlock 0 1 0 [1, 2], newDataBlock 0 1 1 [3]] (sample_tunnel []) (NewStats 1, NewStats 1) = (a', g') \<and>
     recv_rounds [0, 0] (sample_tunnel (t_out a')) (NewStats 1, NewStats 1) = (outs, p', h') \<and>
     concat (map BlockData outs) = [1, 2, 3]"
proof -
  let ?bs = "[newDataBlock 0 1 0 [1, 2], newDataBlock 0 1 1 [3]]"
  let ?g = "(NewStats 1, NewStats 1)"
  obtain a' g' where a: "send_blocks ?bs (sample_tunnel []) ?g = (a', g')"
    by (meson surj_pair)
  obtain outs p' h' where r: "recv_rounds [0, 0] (sample_tunnel (t_out a')) ?g = (outs, p', h')"
    by (metis prod_cases3)
  have wf: "list_all block_wf ?bs" and nc: "list_all (\<lambda>b. \<not> is_control b) ?bs"
    by (simp_all add: newDataBlock_wf is_control_def)
  have av: "avail (t_in (sample_tunnel (t_out a'))) = drop (length (t_out (sample_tunnel []))) (t_out a') @ []"
    by (simp add: sample_tunnel_def newTunnelWithID_def)
  have "map uncached outs = map uncached ?bs"
    using tunnel_carries_blocks [OF _ wf nc a _ _ av _ r] by simp
  then have "map BlockData (map uncached outs) = map BlockData (map uncached ?bs)"
    by (rule arg_cong)
  then have "map BlockData outs = [[1, 2], [3]]"
    by (simp add: comp_def)
  then show ?thesis
    using a r by auto
qed

text \<open>
  C34: a failed send closes the tunnel and may lose the block. When the connection does not take
  the whole packed block, the tunnel is closed and cancelled, nothing is counted, and the
  block goes to the retry goroutine. By then the tunnel's context is done, so that goroutine
  may drop the block even though the retry queue has room for it.
\<close>

theorem failed_send_may_lose_block:
  assumes "t_connClosed t \<or> w = WriteErr n" and "length (chan_buf q) < chan_cap q" and "\<not> chan_closed q"
  shows "\<exists>t' blk'. packThenSend w blk True t g = (t', g, Some blk') \<and> uncached blk' = uncached blk \<and>
    t_connClosed t' \<and> t_ctxDone t' \<and> t_SentBytes t' = t_SentBytes t \<and>
    retry_select True blk' (t_ctxDone t') q = Some None \<and>
    retry_select False blk' (t_ctxDone t') q = Some (Some (q\<lparr>chan_buf := chan_buf q @ [blk']\<rparr>))"
proof -
  obtain k where "packThenSend w blk True t g =
      (closeThenCancel (t\<lparr>t_out := t_out t @ take k (wire blk)\<rparr>), g, Some (snd (Pack blk)))"
    using packThenSend_fail [OF assms(1), of blk g] by blast
  moreover have "t_ctxDone (closeThenCancel t')" "t_connClosed (closeThenCancel t')"
      "t_SentBytes (closeThenCancel t') = t_SentBytes t'" for t'
    by (simp_all add: closeThenCancel_def)
  ultimately show ?thesis
    using assms(2,3) by (simp add: retry_select_def chan_send_def)
qed

theorem failed_send_may_lose_block_witness:
  "\<exists>t' blk'. packThenSend (WriteErr 3) (NewPingBlock 0 1 2 3) True (sample_tunnel []) (NewStats 1, NewStats 1)
       = (t', (NewStats 1, NewStats 1), Some blk') \<and>
     retry_select True blk' (t_ctxDone t') (make_chan 64) = Some None"
  using failed_send_may_lose_block [of "sample_tunnel []" "WriteErr 3" 3 "make_chan 64"
      "NewPingBlock 0 1 2 3" "(NewStats 1, NewStats 1)"]
  by auto

text \<open>
  The latency measured by ping and pong. A tunnel that has been silent for more than
  \<open>PingInterval\<close> seconds sends a ping block; the other side takes the latency it carries and
  answers with a pong block whose payload is the ping's timestamp; on receiving it the first
  side's latency becomes the time since the ping was made. Neither block reaches the pool.
\<close>

theorem ping_pong_latency:
  assumes "\<not> t_connClosed a" and "\<not> t_ctxDone a" and "idle_seconds now1 a > PingInterval"
    and "\<not> idle_seconds now2 a > PingInterval + RecvTimeout" and "t_out a = []"
    and "PingPong_tick PingInterval RecvTimeout now1 now2 WriteOk a g = (going, a1, g1)"
    and "\<not> t_connClosed p" and "\<not> t_ctxDone p" and "avail (t_in p) = t_out a1" and "t_out p = []"
    and "InboundRelay_step nowp WriteOk p h = (pout, pst, p1, h1)"
    and "t_in a = \<lparr>avail = t_out p1, final = e\<rparr>"
    and "InboundRelay_step now3 WriteOk a1 g1 = (aout, ast, a2, g2)"
  shows "t_LatencyNano p1 = t_LatencyNano a \<and> t_LatencyNano a2 = now3 - now1 \<and>
    going \<and> pout = None \<and> aout = None \<and> pst = InLoops \<and> ast = InLoops"
proof -
  let ?ping = "NewPingBlock now1 (tunnelID a) 0 (t_LatencyNano a)"
  let ?pong = "NewPongBlock nowp 0 0 now1"
  have wf: "block_wf ?ping" "block_wf ?pong"
    by (simp_all add: block_wf_def NewPingBlock_def NewPongBlock_def)
  have a1: "a1 = a\<lparr>t_out := wire ?ping, t_SentBytes := t_SentBytes a + of_nat (length (wire ?ping))\<rparr>"
      and "going"
    using assms(1-6) packThenSend_ok [OF assms(1) wf(1), of False g]
    by (auto simp: PingPong_tick_def idle_seconds_def Let_def)
  have src: "conn_source p = \<lparr>avail = wire ?ping @ [], final = final (t_in p)\<rparr>"
    using assms(7,9) a1 by (simp add: conn_source_open)
  have "BlockData (snd (Pack (uncached ?ping))) = le_bytes 8 (t_LatencyNano a)"
      "Type (snd (Pack (uncached ?ping))) = TypePing" "TimeStamp (snd (Pack (uncached ?ping))) = now1"
    by (simp_all add: Pack_def NewPingBlock_def uncached_def Let_def)
  then have p1: "t_out p1 = wire ?pong \<and> t_LatencyNano p1 = t_LatencyNano a \<and> pout = None \<and> pst = InLoops"
    using assms(7,8,10,11) src NewBlockFromReader_wire [OF wf(1), of "[]" "final (t_in p)"]
      packThenSend_ok [OF _ wf(2), of _ False]
    by (auto simp: InboundRelay_step_def Let_def tun_SetLastActive_def SetLatencyNano_def split: prod.splits)
  have "conn_source a1 = \<lparr>avail = wire ?pong @ [], final = e\<rparr>"
    using assms(1,12) p1 a1 by (simp add: conn_source_open)
  moreover have "BlockData (snd (Pack (uncached ?pong))) = le_bytes 8 now1"
      "Type (snd (Pack (uncached ?pong))) = TypePong"
    by (simp_all add: Pack_def NewPongBlock_def uncached_def Let_def)
  ultimately have "t_LatencyNano a2 = now3 - now1 \<and> aout = None \<and> ast = InLoops"
    using assms(2,13) a1 NewBlockFromReader_wire [OF wf(2), of "[]" e]
    by (auto simp: InboundRelay_step_def Let_def tun_SetLastActive_def tun_SetLatencyNanoSince_def
        split: prod.splits)
  with p1 \<open>going\<close> show ?thesis
    by blast
qed

theorem ping_pong_latency_witness:
  "\<exists>a1 g1 p1 h1 a2 g2. PingPong_tick 30 40 40000000000 40000000000 WriteOk
       (sample_tunnel (wire (NewPongBlock 1 0 0 40000000000))) (NewStats 1, NewStats 1) = (True, a1, g1) \<and>
     InboundRelay_step 1 WriteOk (sample_tunnel (t_out a1)) (NewStats 1, NewStats 1) = (None, InLoops, p1, h1) \<and>
     InboundRelay_step 40000000500 WriteOk a1 g1 = (None, InLoops, a2, g2) \<and> t_LatencyNano a2 = 500"
proof -
  let ?g = "(NewStats 1, NewStats 1)" and ?t = "40000000000 :: i64"
  let ?pong = "NewPongBlock 1 0 0 ?t"
  let ?a = "sample_tunnel (wire ?pong)"
  obtain going a1 g1 where tick: "PingPong_tick 30 40 ?t ?t WriteOk ?a ?g = (going, a1, g1)"
    by (metis prod_cases3)
  let ?p = "sample_tunnel (t_out a1)"
  obtain pout pst p1 h1 where pr: "InboundRelay_step 1 WriteOk ?p ?g = (pout, pst, p1, h1)"
    by (metis prod_cases4)
  obtain aout ast a2 g2 where ar: "InboundRelay_step 40000000500 WriteOk a1 g1 = (aout, ast, a2, g2)"
    by (metis prod_cases4)
  have idle: "idle_seconds ?t ?a = 40"
    by (simp add: idle_seconds_def sample_tunnel_def newTunnelWithID_def signed_divide_int_def)
  have ping: "block_wf (NewPingBlock ?t (tunnelID ?a) 0 (t_LatencyNano ?a))"
      and pong: "block_wf ?pong"
    by (simp_all add: block_wf_def NewPingBlock_def NewPongBlock_def)
  have outs: "t_out ?a = []" "t_out ?p = []" "avail (t_in ?p) = t_out a1"
    by (simp_all add: sample_tunnel_def newTunnelWithID_def)
  have "a1 = ?a\<lparr>t_out := wire (NewPingBlock ?t (tunnelID ?a) 0 (t_LatencyNano ?a)),
      t_SentBytes := of_nat (length (wire (NewPingBlock ?t (tunnelID ?a) 0 (t_LatencyNano ?a))))\<rparr>"
    using tick idle packThenSend_ok [OF _ ping, of ?a False ?g]
    by (auto simp: PingPong_tick_def idle_seconds_def outs Let_def sample_tunnel_def newTunnelWithID_def)
  then have src: "conn_source ?p = \<lparr>avail = wire (NewPingBlock ?t (tunnelID ?a) 0 (t_LatencyNano ?a)) @ [], final = EOF\<rparr>"
    by (simp add: conn_source_def sample_tunnel_def newTunnelWithID_def)
  have "TimeStamp (snd (Pack (uncached (NewPingBlock ?t (tunnelID ?a) 0 (t_LatencyNano ?a))))) = ?t"
      "Type (snd (Pack (uncached (NewPingBlock ?t (tunnelID ?a) 0 (t_LatencyNano ?a))))) = TypePing"
      "length (BlockData (snd (Pack (uncached (NewPingBlock ?t (tunnelID ?a) 0 (t_LatencyNano ?a)))))) = 8"
    by (simp_all add: Pack_def NewPingBlock_def uncached_def Let_def)
  then have "t_out p1 = wire ?pong"
    using pr src NewBlockFromReader_wire [OF ping, of "[]" EOF] packThenSend_ok [OF _ pong, of _ False] outs(2)
    by (auto simp: InboundRelay_step_def Let_def tun_SetLastActive_def SetLatencyNano_def split: prod.splits)
  then have "t_in ?a = \<lparr>avail = t_out p1, final = EOF\<rparr>"
    by (simp add: sample_tunnel_def newTunnelWithID_def)
  from ping_pong_latency [OF _ _ _ _ outs(1) tick _ _ outs(3,2) pr this ar] idle show ?thesis
    using tick pr ar by simp
qed


text \<open>
  A broken tunnel ends its receiving relay. When no block can be read from the connection
  of a tunnel that is not cancelled, the round delivers nothing, closes and cancels the
  tunnel, and the very next round ends the relay, again without delivering anything.
\<close>

theorem inbound_relay_ends:
  assumes "NewBlockFromReader (conn_source t) = (Inl e, s)" and "\<not> t_ctxDone t"
  shows "\<exists>t1 t2. InboundRelay_step now w t g = (None, InLoops, t1, g) \<and> t_connClosed t1 \<and> t_ctxDone t1 \<and>
    InboundRelay_step now' w' t1 g = (None, InEnded, t2, g)"
proof -
  let ?t1 = "closeThenCancel (t\<lparr>t_in := s\<rparr>)"
  have "t_connClosed ?t1" "t_ctxDone ?t1"
    by (simp_all add: closeThenCancel_def)
  then show ?thesis
    using InboundRelay_step_error [OF assms(1), of now w g] assms(2)
      InboundRelay_step_closed [of ?t1 now' w' g] by auto
qed

theorem inbound_relay_ends_witness:
  "\<exists>t1. InboundRelay_step 0 WriteOk (sample_tunnel [3]) (NewStats 1, NewStats 1) = (None, InLoops, t1, (NewStats 1, NewStats 1)) \<and>
     t_ctxDone t1"
proof -
  have "\<exists>s. NewBlockFromReader (conn_source (sample_tunnel [3])) = (Inl ErrUnexpectedEOF, s)"
    by (simp add: NewBlockFromReader_def NewBlockFromReader_from_def ReadFull_def conn_source_def sample_tunnel_def newTunnelWithID_def)
  then obtain s where "NewBlockFromReader (conn_source (sample_tunnel [3])) = (Inl ErrUnexpectedEOF, s)" ..
  from inbound_relay_ends [OF this sample_tunnel_open(2), of 0 WriteOk "(NewStats 1, NewStats 1)"] show ?thesis
    by blast
qed

end
