(* ===== verification/Transport.thy ===== *)
theory Transport
  imports Outbound_Connection Tunnel
begin

text \<open>
  One direction of the whole system: connections number their blocks and hand them to the pool
  (\<^verbatim>\<open>connection/block_processor.go\<close>), any number of tunnels take them from the pool's queues and
  write them to their connections, failed sends go to the retry queue
  (\<^verbatim>\<open>tunnel_pool/tunnel.go\<close>), the network delivers the bytes of each tunnel in order, the other
  end parses them into blocks, and the receiving connection puts them back into order. All
  goroutines interleave freely: each event is one step of one of them, built from the
  definitions of the component theories.
\<close>

section \<open>The state\<close>

text \<open>
  A link is a tunnel with its two ends. \<open>l_carry\<close> is a history variable: the blocks that were
  written completely and have not been read yet.
\<close>

record link =
  l_tx :: Tunnel
  l_pc :: relay_pc
  l_rx :: Tunnel
  l_carry :: "Block list"

text \<open>
  \<open>tx_proc\<close> and \<open>rx_proc\<close> are the block processors of the connections on the two sides, by
  connection number. \<open>outbox\<close> holds blocks whose sender waits for room in the queue,
  \<open>retrying\<close> those of the goroutines of \<open>packThenSend\<close>, \<open>inq\<close> the receive queue of the other
  side. \<open>sent\<close>, \<open>arrived\<close> and \<open>dropped\<close> are history variables; \<open>delivered\<close> is what the ordered
  queues have received.
\<close>

record transport =
  tx_proc :: "u32 \<Rightarrow> blockProcessor"
  outbox :: "Block list"
  out_qs :: out_queues
  retrying :: "Block list"
  links :: "link list"
  inq :: "Block list"
  rx_proc :: "u32 \<Rightarrow> blockProcessor"
  delivered :: "u32 \<Rightarrow> Block list"
  sent :: "u32 \<Rightarrow> Block list"
  arrived :: "u32 \<Rightarrow> Block list"
  dropped :: "Block list"

definition transport_init :: "nat \<Rightarrow> transport" where
  "transport_init SendQueueSize =
     \<lparr>tx_proc = (\<lambda>_. newBlockProcessor), outbox = [],
      out_qs = \<lparr>normalQueue = make_chan SendQueueSize, retryQueue = make_chan SendQueueSize\<rparr>,
      retrying = [], links = [], inq = [], rx_proc = (\<lambda>_. newBlockProcessor),
      delivered = (\<lambda>_. []), sent = (\<lambda>_. []), arrived = (\<lambda>_. []), dropped = []\<rparr>"

section \<open>The events\<close>

datatype tx_op = OpConnect "byte list" | OpData "byte list" | OpDisconnect byte

datatype t_event =
    ESend u32 "nat \<Rightarrow> i64" tx_op      \<comment> \<open>a connection packs blocks\<close>
  | EEnqueue nat                        \<comment> \<open>a waiting block enters the send queue\<close>
  | EOut nat net_write relay_pick       \<comment> \<open>a step of a tunnel's \<open>OutboundRelay\<close>\<close>
  | ERetry nat bool                     \<comment> \<open>a retry goroutine's \<^verbatim>\<open>select\<close>\<close>
  | EControl nat Block                  \<comment> \<open>a ping or pong block is written\<close>
  | ENet nat nat                        \<comment> \<open>the network delivers bytes\<close>
  | EIn nat i64 net_write               \<comment> \<open>a round of the other end's \<open>InboundRelay\<close>\<close>
  | EReset nat                          \<comment> \<open>the other end loses its connection\<close>
  | EDeliver                            \<comment> \<open>a received block reaches its connection\<close>
  | ELink Tunnel Tunnel                 \<comment> \<open>a tunnel is added\<close>

definition pack_op :: "(nat \<Rightarrow> i64) \<Rightarrow> tx_op \<Rightarrow> u32 \<Rightarrow> blockProcessor \<Rightarrow> Block list \<times> blockProcessor" where
  "pack_op now op i x =
     (case op of
        OpConnect address \<Rightarrow> (let (b, x') = packConnect (now 0) x address i in ([b], x'))
      | OpData data \<Rightarrow> packData now x data i
      | OpDisconnect k \<Rightarrow> (let (b, x') = packDisconnect (now 0) x i k in ([b], x')))"

definition op_ok :: "tx_op \<Rightarrow> bool" where
  "op_ok op = (case op of OpConnect address \<Rightarrow> length address < 2 ^ 32 | _ \<Rightarrow> True)"

text \<open>The block a step of \<open>OutboundRelay\<close> took from the queues.\<close>

definition taken :: "out_queues \<Rightarrow> out_queues \<Rightarrow> Block list" where
  "taken qs qs' =
     take (length (chan_buf (retryQueue qs)) - length (chan_buf (retryQueue qs'))) (chan_buf (retryQueue qs)) @
     take (length (chan_buf (normalQueue qs)) - length (chan_buf (normalQueue qs'))) (chan_buf (normalQueue qs))"

definition no_stats :: "Stats \<times> Stats" where
  "no_stats = (NewStats 0, NewStats 0)"

text \<open>
  Reading waits unless a whole block is there, the end of the stream has been reached, or the
  end itself is closed.
\<close>

definition readable :: "link \<Rightarrow> bool" where
  "readable l \<longleftrightarrow>
     t_connClosed (l_rx l) \<or>
     (case fst (NewBlockFromReader (t_in (l_rx l))) of Inr _ \<Rightarrow> True | Inl _ \<Rightarrow> False) \<or>
     (t_connClosed (l_tx l) \<and> t_out (l_tx l) = [])"

definition link_out :: "nat \<Rightarrow> net_write \<Rightarrow> relay_pick \<Rightarrow> transport \<Rightarrow> transport" where
  "link_out j w pick s =
     (let l = links s ! j in
      case OutboundRelay_step w pick (l_pc l) (out_qs s) (l_tx l) no_stats of
        (pc, qs, t, _, r) \<Rightarrow>
          s\<lparr>out_qs := qs,
            links := (links s)[j := l\<lparr>l_tx := t, l_pc := pc,
              l_carry := l_carry l @ (if r = None then taken (out_qs s) qs else [])\<rparr>],
            retrying := retrying s @ (case r of None \<Rightarrow> [] | Some b \<Rightarrow> [b])\<rparr>)"

definition link_in :: "nat \<Rightarrow> i64 \<Rightarrow> net_write \<Rightarrow> transport \<Rightarrow> transport" where
  "link_in j now w s =
     (let l = links s ! j in
      case InboundRelay_step now w (l_rx l) no_stats of
        (out, _, t, _) \<Rightarrow>
          s\<lparr>links := (links s)[j := l\<lparr>l_rx := t,
              l_carry := (if t_connClosed (l_rx l) then l_carry l
                          else case fst (NewBlockFromReader (t_in (l_rx l))) of
                                 Inr _ \<Rightarrow> tl (l_carry l) | Inl _ \<Rightarrow> l_carry l)\<rparr>],
            inq := inq s @ (case out of None \<Rightarrow> [] | Some b \<Rightarrow> [b])\<rparr>)"

definition link_net :: "nat \<Rightarrow> nat \<Rightarrow> transport \<Rightarrow> transport" where
  "link_net j n s =
     (let l = links s ! j; t = l_tx l; r = l_rx l in
      s\<lparr>links := (links s)[j := l\<lparr>l_tx := t\<lparr>t_out := drop n (t_out t)\<rparr>,
          l_rx := r\<lparr>t_in := (t_in r)\<lparr>avail := avail (t_in r) @ take n (t_out t)\<rparr>\<rparr>\<rparr>]\<rparr>)"

definition link_control :: "nat \<Rightarrow> Block \<Rightarrow> transport \<Rightarrow> transport" where
  "link_control j b s =
     (let l = links s ! j in
      case packThenSend WriteOk b False (l_tx l) no_stats of
        (t, _, _) \<Rightarrow>
          s\<lparr>links := (links s)[j := l\<lparr>l_tx := t,
              l_carry := l_carry l @ (if t_connClosed (l_tx l) then [] else [b])\<rparr>]\<rparr>)"

definition link_reset :: "nat \<Rightarrow> transport \<Rightarrow> transport" where
  "link_reset j s =
     (let l = links s ! j in s\<lparr>links := (links s)[j := l\<lparr>l_rx := closeThenCancel (l_rx l)\<rparr>]\<rparr>)"

definition deliver_block :: "Block \<Rightarrow> transport \<Rightarrow> transport" where
  "deliver_block b s =
     (let i = ConnectionID b in
      case relay_block (rx_proc s i) b of
        (out, x) \<Rightarrow>
          s\<lparr>rx_proc := (rx_proc s)(i := x), delivered := (delivered s)(i := delivered s i @ out),
            arrived := (arrived s)(i := arrived s i @ [b])\<rparr>)"

text \<open>One event; \<open>None\<close> when it is not possible in the state.\<close>

definition transport_step :: "transport \<Rightarrow> t_event \<Rightarrow> transport option" where
  "transport_step s ev =
     (case ev of
        ESend i now op \<Rightarrow>
          if op_ok op then
            (case pack_op now op i (tx_proc s i) of
               (bs, x) \<Rightarrow>
                 Some (s\<lparr>tx_proc := (tx_proc s)(i := x), outbox := outbox s @ bs,
                         sent := (sent s)(i := sent s i @ bs)\<rparr>))
          else None
      | EEnqueue n \<Rightarrow>
          if n < length (outbox s) then
            (case chan_send (normalQueue (out_qs s)) (outbox s ! n) of
               Sent q \<Rightarrow> Some (s\<lparr>outbox := take n (outbox s) @ drop (Suc n) (outbox s),
                                out_qs := (out_qs s)\<lparr>normalQueue := q\<rparr>\<rparr>)
             | _ \<Rightarrow> None)
          else None
      | EOut j w pick \<Rightarrow> if j < length (links s) then Some (link_out j w pick s) else None
      | ERetry n pickDone \<Rightarrow>
          if n < length (retrying s) then
            (let b = retrying s ! n; rest = take n (retrying s) @ drop (Suc n) (retrying s) in
             case retry_select pickDone b True (retryQueue (out_qs s)) of
               None \<Rightarrow> None
             | Some None \<Rightarrow> Some (s\<lparr>retrying := rest, dropped := dropped s @ [b]\<rparr>)
             | Some (Some q) \<Rightarrow> Some (s\<lparr>retrying := rest, out_qs := (out_qs s)\<lparr>retryQueue := q\<rparr>\<rparr>))
          else None
      | EControl j b \<Rightarrow>
          if j < length (links s) \<and> is_control b \<and> block_wf b \<and> 8 \<le> length (BlockData b)
          then Some (link_control j b s) else None
      | ENet j n \<Rightarrow> if j < length (links s) then Some (link_net j n s) else None
      | EIn j now w \<Rightarrow>
          if j < length (links s) \<and> readable (links s ! j) then Some (link_in j now w s) else None
      | EReset j \<Rightarrow> if j < length (links s) then Some (link_reset j s) else None
      | EDeliver \<Rightarrow>
          (case inq s of [] \<Rightarrow> None | b # bs \<Rightarrow> Some (deliver_block b (s\<lparr>inq := bs\<rparr>)))
      | ELink t r \<Rightarrow>
          if t_out t = [] \<and> \<not> t_connClosed t \<and> avail (t_in r) = [] \<and> \<not> t_connClosed r \<and> \<not> t_ctxDone r
          then Some (s\<lparr>links := links s @ [\<lparr>l_tx = t, l_pc = AtTop, l_rx = r, l_carry = []\<rparr>]\<rparr>)
          else None)"

inductive transport_reachable :: "transport \<Rightarrow> bool" where
  start: "transport_reachable (transport_init n)"
| step: "transport_reachable s \<Longrightarrow> transport_step s ev = Some s' \<Longrightarrow> transport_reachable s'"

fun transport_run :: "transport \<Rightarrow> t_event list \<Rightarrow> transport option" where
  "transport_run s [] = Some s"
| "transport_run s (ev # evs) =
     (case transport_step s ev of None \<Rightarrow> None | Some s' \<Rightarrow> transport_run s' evs)"

section \<open>The invariant\<close>

text \<open>
  \<open>canon b\<close> is the block a receiver builds from the bytes of \<open>b\<close>. A block is \<open>known\<close> when its
  connection has sent it; the parts of the invariant say that the senders number their blocks
  consecutively, that everything under way is known, that each link's bytes are those of the
  blocks it carries, possibly followed by a piece of one block on a closed tunnel, and that
  the receivers have seen only what was sent.
\<close>

definition canon :: "Block \<Rightarrow> Block" where
  "canon b = snd (Pack (uncached b))"

definition known :: "transport \<Rightarrow> Block \<Rightarrow> bool" where
  "known s b \<longleftrightarrow> block_wf b \<and> uncached b \<in> uncached ` set (sent s (ConnectionID b))"

definition received :: "transport \<Rightarrow> Block \<Rightarrow> bool" where
  "received s b \<longleftrightarrow> b \<in> canon ` set (sent s (ConnectionID b))"

definition carried :: "transport \<Rightarrow> Block \<Rightarrow> bool" where
  "carried s b \<longleftrightarrow> known s b \<or> (block_wf b \<and> is_control b \<and> 8 \<le> length (BlockData b))"

definition tx_ok :: "transport \<Rightarrow> bool" where
  "tx_ok s \<longleftrightarrow>
     (\<forall>i. map BlockID (sent s i) = ids_from 0 (length (sent s i)) \<and>
          sendBlockID (tx_proc s i) = of_nat (length (sent s i)) \<and>
          (\<forall>b \<in> set (sent s i). ConnectionID b = i \<and> block_wf b \<and> \<not> is_control b))"

definition waiting :: "transport \<Rightarrow> Block list" where
  "waiting s = outbox s @ chan_buf (normalQueue (out_qs s)) @ chan_buf (retryQueue (out_qs s)) @ retrying s"

definition link_bytes :: "transport \<Rightarrow> link \<Rightarrow> bool" where
  "link_bytes s l \<longleftrightarrow>
     (\<exists>part. avail (t_in (l_rx l)) @ t_out (l_tx l) = wire_all (l_carry l) @ part \<and>
        (part = [] \<or> t_connClosed (l_tx l) \<and> (\<exists>b rest. carried s b \<and> part @ rest = wire b)))"

definition link_ok :: "transport \<Rightarrow> link \<Rightarrow> bool" where
  "link_ok s l \<longleftrightarrow>
     (t_ctxDone (l_rx l) \<longrightarrow> t_connClosed (l_rx l)) \<and>
     (\<forall>b \<in> set (l_carry l). carried s b) \<and>
     (\<not> t_connClosed (l_rx l) \<longrightarrow> link_bytes s l)"

definition rx_ok :: "transport \<Rightarrow> bool" where
  "rx_ok s \<longleftrightarrow>
     (\<forall>i. relay_blocks newBlockProcessor (arrived s i) = (delivered s i, rx_proc s i) \<and>
          (\<forall>b \<in> set (arrived s i). received s b \<and> ConnectionID b = i))"

definition t_inv :: "transport \<Rightarrow> bool" where
  "t_inv s \<longleftrightarrow>
     tx_ok s \<and> (\<forall>b \<in> set (waiting s). known s b) \<and> (\<forall>l \<in> set (links s). link_ok s l) \<and>
     (\<forall>b \<in> set (inq s). received s b) \<and> rx_ok s"

text \<open>Where a sent block can be: nothing that was sent disappears without a trace.\<close>

definition carry_of :: "link list \<Rightarrow> Block set" where
  "carry_of ls = (\<Union>l \<in> set ls. set (l_carry l))"

definition arrived_any :: "transport \<Rightarrow> Block set" where
  "arrived_any s = (\<Union>i. set (arrived s i))"

definition underway :: "transport \<Rightarrow> Block set" where
  "underway s = set (waiting s) \<union> set (dropped s) \<union> carry_of (links s) \<union> set (inq s) \<union> arrived_any s"

definition traced :: "transport \<Rightarrow> bool" where
  "traced s \<longleftrightarrow> (\<forall>i. \<forall>b \<in> set (sent s i). uncached b \<in> uncached ` underway s)"

subsection \<open>Facts about blocks\<close>

lemma uncached_idem [simp]: "uncached (uncached b) = uncached b"
  by (simp add: uncached_def)

lemma uncached_canon [simp]: "uncached (canon b) = uncached b"
  by (simp add: canon_def)

lemma canon_cong: "uncached a = uncached b \<Longrightarrow> canon a = canon b"
  by (simp add: canon_def)

lemma uncached_eqD: "uncached a = uncached b \<Longrightarrow>
    ConnectionID a = ConnectionID b \<and> BlockID a = BlockID b \<and> Type a = Type b \<and> BlockData a = BlockData b"
  by (metis uncached_sels)

lemma canon_sels [simp]:
  "ConnectionID (canon b) = ConnectionID b" "BlockID (canon b) = BlockID b" "Type (canon b) = Type b"
  "BlockData (canon b) = BlockData b"
  using uncached_eqD [OF uncached_canon] by auto

lemma known_Pack: "known s b \<Longrightarrow> known s (snd (Pack b))"
  using uncached_eqD [OF uncached_Pack [of b]] by (auto simp: known_def Pack_wf)

lemma known_not_control: "tx_ok s \<Longrightarrow> known s b \<Longrightarrow> \<not> is_control b"
proof -
  assume "tx_ok s" and "known s b"
  then obtain c where "uncached b = uncached c" "\<not> is_control c"
    unfolding known_def tx_ok_def by blast
  then show ?thesis
    using uncached_eqD [of b c] by (simp add: is_control_def)
qed

lemma carried_wf: "carried s b \<Longrightarrow> block_wf b"
  by (auto simp: carried_def known_def)

lemma received_of_known: "known s b \<Longrightarrow> received s (canon b)"
  by (auto simp: known_def received_def intro: canon_cong)

lemma sent_mono:
  assumes "\<And>i. set (sent s i) \<subseteq> set (sent s' i)"
  shows "known s b \<Longrightarrow> known s' b" and "received s b \<Longrightarrow> received s' b" and "carried s b \<Longrightarrow> carried s' b"
    and "link_ok s l \<Longrightarrow> link_ok s' l"
proof -
  show k: "known s' b" if "known s b" for b
    using that assms by (auto simp: known_def)
  show r: "received s' b" if "received s b" for b
    using that assms by (auto simp: received_def)
  show c: "carried s' b" if "carried s b" for b
    using that k by (auto simp: carried_def)
  show "link_ok s' l" if "link_ok s l"
    using that c unfolding link_ok_def link_bytes_def by blast
qed

lemma same_sent:
  assumes "sent s' = sent s"
  shows "known s' = known s" "received s' = received s" "carried s' = carried s"
    "link_ok s' = link_ok s" "link_bytes s' = link_bytes s"
proof -
  show 1: "known s' = known s" "received s' = received s"
    using assms by (auto simp: known_def received_def fun_eq_iff)
  then show 2: "carried s' = carried s"
    by (auto simp: carried_def fun_eq_iff)
  then show 3: "link_bytes s' = link_bytes s"
    by (auto simp: link_bytes_def fun_eq_iff)
  show "link_ok s' = link_ok s"
    using 2 3 by (auto simp: link_ok_def fun_eq_iff)
qed

lemma tx_ok_cong: "tx_proc s' = tx_proc s \<Longrightarrow> sent s' = sent s \<Longrightarrow> tx_ok s' = tx_ok s"
  by (simp add: tx_ok_def)

lemma rx_ok_cong:
  "arrived s' = arrived s \<Longrightarrow> delivered s' = delivered s \<Longrightarrow> rx_proc s' = rx_proc s \<Longrightarrow> sent s' = sent s \<Longrightarrow>
     rx_ok s' = rx_ok s"
  by (simp add: rx_ok_def received_def)

subsection \<open>Sending\<close>

lemma pack_op_blocks:
  assumes "op_ok op" and "pack_op now op i x = (bs, x')"
  shows "map BlockID bs = ids_from (sendBlockID x) (length bs) \<and>
    sendBlockID x' = sendBlockID x + of_nat (length bs) \<and>
    (\<forall>b \<in> set bs. ConnectionID b = i \<and> block_wf b \<and> \<not> is_control b)"
proof (cases op)
  case (OpConnect a)
  then have "length a < 4294967296"
    using assms(1) by (simp add: op_ok_def)
  then show ?thesis
    using assms(2) OpConnect
    by (auto simp: pack_op_def packConnect_def NewConnectBlock_def ids_from_Suc block_wf_def is_control_def Let_def
        unat_of_nat_u32)
next
  case (OpData d)
  then show ?thesis
    using assms(2) NewDataBlocks_cut [of i "sendBlockID x" d now]
    by (auto simp: pack_op_def packData_def cut_ok_def list_all_iff is_control_def split: prod.splits)
next
  case (OpDisconnect k)
  then show ?thesis
    using assms(2)
    by (auto simp: pack_op_def packDisconnect_def NewDisconnectBlock_def ids_from_Suc block_wf_def is_control_def Let_def)
qed

lemma tx_ok_known:
  assumes "tx_ok s" and "b \<in> set (sent s i)"
  shows "known s b"
  using assms by (auto simp: tx_ok_def known_def)

lemma t_inv_send:
  assumes "t_inv s" and "op_ok op" and "pack_op now op i (tx_proc s i) = (bs, x)"
  defines "s' \<equiv> s\<lparr>tx_proc := (tx_proc s)(i := x), outbox := outbox s @ bs, sent := (sent s)(i := sent s i @ bs)\<rparr>"
  shows "t_inv s'"
proof -
  note pk = pack_op_blocks [OF assms(2,3)]
  have tx: "tx_ok s'"
    using assms(1) pk by (auto simp: t_inv_def tx_ok_def s'_def ids_from_add)
  have mono: "set (sent s j) \<subseteq> set (sent s' j)" for j
    by (simp add: s'_def)
  have new: "known s' b" if "b \<in> set bs" for b
    using tx_ok_known [OF tx, of b i] that by (simp add: s'_def)
  have "set (waiting s') = set (waiting s) \<union> set bs"
    by (auto simp: waiting_def s'_def)
  then have "\<forall>b \<in> set (waiting s'). known s' b"
    using assms(1) new sent_mono(1) [OF mono] by (auto simp: t_inv_def)
  moreover have "\<forall>l \<in> set (links s'). link_ok s' l"
    using assms(1) sent_mono(4) [OF mono] by (simp add: t_inv_def s'_def)
  moreover have "\<forall>b \<in> set (inq s'). received s' b"
    using assms(1) sent_mono(2) [OF mono] by (simp add: t_inv_def s'_def)
  moreover have "rx_ok s'"
    using assms(1) sent_mono(2) [OF mono] by (simp add: t_inv_def rx_ok_def s'_def)
  ultimately show ?thesis
    using tx by (simp add: t_inv_def)
qed

text \<open>
  Events that leave the senders and receivers alone: the invariant follows from what they do to
  the queues, the links and the receive queue.
\<close>

lemma t_inv_middle:
  assumes "t_inv s" and "tx_proc s' = tx_proc s" "sent s' = sent s"
    and "arrived s' = arrived s" "delivered s' = delivered s" "rx_proc s' = rx_proc s"
    and "\<forall>b \<in> set (waiting s'). known s b" and "\<forall>l \<in> set (links s'). link_ok s l"
    and "\<forall>b \<in> set (inq s'). received s b"
  shows "t_inv s'"
  using assms same_sent [OF assms(3)] tx_ok_cong [OF assms(2,3)] rx_ok_cong [OF assms(4-6,3)]
  by (simp add: t_inv_def)

lemma in_set_remove: "b \<in> set (take n xs @ drop (Suc n) xs) \<Longrightarrow> b \<in> set xs"
  by (auto dest: in_set_takeD in_set_dropD)

lemma set_remove_nth: "n < length xs \<Longrightarrow> insert (xs ! n) (set (take n xs @ drop (Suc n) xs)) = set xs"
  by (metis Cons_nth_drop_Suc append_take_drop_id insert_is_Un list.simps(15) set_append sup_left_commute)

lemma t_inv_enqueue:
  assumes "t_inv s" and "n < length (outbox s)" and "chan_send (normalQueue (out_qs s)) (outbox s ! n) = Sent q"
  shows "t_inv (s\<lparr>outbox := take n (outbox s) @ drop (Suc n) (outbox s), out_qs := (out_qs s)\<lparr>normalQueue := q\<rparr>\<rparr>)"
  by (rule t_inv_middle [OF assms(1)])
    (use assms in \<open>auto simp: t_inv_def waiting_def chan_send_Sent_iff dest: in_set_takeD in_set_dropD\<close>)

lemma t_inv_retry:
  assumes "t_inv s" and "n < length (retrying s)"
    and "retry_select pick (retrying s ! n) True (retryQueue (out_qs s)) = Some r"
  shows "case r of
      None \<Rightarrow> t_inv (s\<lparr>retrying := take n (retrying s) @ drop (Suc n) (retrying s), dropped := dropped s @ [retrying s ! n]\<rparr>)
    | Some q \<Rightarrow> t_inv (s\<lparr>retrying := take n (retrying s) @ drop (Suc n) (retrying s), out_qs := (out_qs s)\<lparr>retryQueue := q\<rparr>\<rparr>)"
proof (cases r)
  case None
  show ?thesis
    unfolding None option.case
    by (rule t_inv_middle [OF assms(1)])
      (use assms in \<open>auto simp: t_inv_def waiting_def dest: in_set_takeD in_set_dropD\<close>)
next
  case (Some q)
  then have q: "q = (retryQueue (out_qs s))\<lparr>chan_buf := chan_buf (retryQueue (out_qs s)) @ [retrying s ! n]\<rparr>"
    using assms(3) by (auto simp: retry_select_def chan_send_def split: if_splits)
  show ?thesis
    unfolding Some option.case
    by (rule t_inv_middle [OF assms(1)])
      (use assms q in \<open>auto simp: t_inv_def waiting_def dest: in_set_takeD in_set_dropD\<close>)
qed

subsection \<open>A step of a sending relay\<close>

definition queued_blocks :: "out_queues \<Rightarrow> Block set" where
  "queued_blocks qs = set (chan_buf (normalQueue qs)) \<union> set (chan_buf (retryQueue qs))"

lemma OutboundRelay_step_cases:
  assumes "OutboundRelay_step w pick pc qs t g = (pc', qs', t', g', r)"
  obtains (idle) "qs' = qs" "t' = t" "r = None" "taken qs qs' = []"
    | (took) b where "packThenSend w b True t g = (t', g', r)" "taken qs qs' = [b]"
      "queued_blocks qs = insert b (queued_blocks qs')"
proof -
  have nil: "taken qs qs = []"
    by (simp add: taken_def)
  have from_retry: thesis if rb: "chan_recv (retryQueue qs) = Received b q"
      and sf: "send_from w b pc1 (qs\<lparr>retryQueue := q\<rparr>) t g = (pc', qs', t', g', r)" for b q pc1
  proof -
    obtain xs where xs: "chan_buf (retryQueue qs) = b # xs" "q = (retryQueue qs)\<lparr>chan_buf := xs\<rparr>"
      using rb by (auto simp: chan_recv_Received_iff)
    have "packThenSend w b True t g = (t', g', r)" "qs' = qs\<lparr>retryQueue := q\<rparr>"
      using sf by (auto simp: send_from_def split: prod.splits)
    then show thesis
      using took [of b] xs by (auto simp: taken_def queued_blocks_def)
  qed
  have from_normal: thesis if rb: "chan_recv (normalQueue qs) = Received b q"
      and sf: "send_from w b pc1 (qs\<lparr>normalQueue := q\<rparr>) t g = (pc', qs', t', g', r)" for b q pc1
  proof -
    obtain xs where xs: "chan_buf (normalQueue qs) = b # xs" "q = (normalQueue qs)\<lparr>chan_buf := xs\<rparr>"
      using rb by (auto simp: chan_recv_Received_iff)
    have "packThenSend w b True t g = (t', g', r)" "qs' = qs\<lparr>normalQueue := q\<rparr>"
      using sf by (auto simp: send_from_def split: prod.splits)
    then show thesis
      using took [of b] xs by (auto simp: taken_def queued_blocks_def)
  qed
  show thesis
    using assms from_retry from_normal idle nil
    by (auto simp: OutboundRelay_step_def split: relay_pc.splits relay_pick.splits recv_result.splits if_splits)
qed

lemma link_bytes_sent:
  assumes "link_bytes s l" and "\<not> t_connClosed (l_tx l)" and "t_out t' = t_out (l_tx l) @ wire b"
  shows "link_bytes s (l\<lparr>l_tx := t', l_pc := pc, l_carry := l_carry l @ [b]\<rparr>)"
proof -
  have "avail (t_in (l_rx l)) @ t_out (l_tx l) = wire_all (l_carry l)"
    using assms(1,2) by (auto simp: link_bytes_def)
  then have "avail (t_in (l_rx l)) @ t_out t' = wire_all (l_carry l @ [b])"
    unfolding assms(3) by (metis append_assoc append_Nil2 wire_all_simps)
  then show ?thesis
    by (simp add: link_bytes_def)
qed

lemma link_bytes_failed:
  assumes "link_bytes s l" and "carried s b" and "t_connClosed t'"
    and "t_out t' = t_out (l_tx l) @ take k (wire b)" and "t_connClosed (l_tx l) \<longrightarrow> t_out t' = t_out (l_tx l)"
  shows "link_bytes s (l\<lparr>l_tx := t', l_pc := pc\<rparr>)"
proof (cases "t_connClosed (l_tx l)")
  case True
  then show ?thesis
    using assms by (auto simp: link_bytes_def)
next
  case False
  then have "avail (t_in (l_rx l)) @ t_out (l_tx l) = wire_all (l_carry l)"
    using assms(1) by (auto simp: link_bytes_def)
  then have "avail (t_in (l_rx l)) @ t_out t' = wire_all (l_carry l) @ take k (wire b)"
    unfolding assms(4) by (metis append_assoc)
  then show ?thesis
    using assms(2,3) unfolding link_bytes_def by (auto intro!: exI [of _ b] exI [of _ "drop k (wire b)"])
qed

lemma t_inv_link_out:
  assumes inv: "t_inv s" and j: "j < length (links s)"
  shows "t_inv (link_out j w pick s)"
proof -
  let ?l = "links s ! j"
  obtain pc qs t g r where st: "OutboundRelay_step w pick (l_pc ?l) (out_qs s) (l_tx ?l) no_stats = (pc, qs, t, g, r)"
    by (metis prod_cases5)
  let ?l' = "?l\<lparr>l_tx := t, l_pc := pc, l_carry := l_carry ?l @ (if r = None then taken (out_qs s) qs else [])\<rparr>"
  let ?rs = "case r of None \<Rightarrow> [] | Some b \<Rightarrow> [b]"
  have s': "link_out j w pick s = s\<lparr>out_qs := qs, links := (links s)[j := ?l'], retrying := retrying s @ ?rs\<rparr>"
    by (simp add: link_out_def st Let_def)
  have ok: "link_ok s ?l" and lk: "\<forall>b \<in> queued_blocks (out_qs s). known s b"
    using inv j by (auto simp: t_inv_def waiting_def queued_blocks_def)
  have "link_ok s ?l' \<and> queued_blocks qs \<subseteq> queued_blocks (out_qs s) \<and> (\<forall>b \<in> set ?rs. known s b)"
    using st
  proof (cases rule: OutboundRelay_step_cases)
    case idle
    then show ?thesis
      using ok by (auto simp: link_ok_def link_bytes_def)
  next
    case (took b)
    then have kb: "known s b"
      using lk by auto
    then have cb: "carried s b" and wf: "block_wf b"
      by (auto simp: carried_def known_def)
    from wf took(1) show ?thesis
    proof (cases rule: packThenSend_cases)
      case sent
      then show ?thesis
        using ok took(2,3) cb link_bytes_sent [of s ?l t b pc] by (auto simp: link_ok_def)
    next
      case (failed k)
      then show ?thesis
        using ok took(3) link_bytes_failed [OF _ cb failed(3,1,6), where pc = pc] known_Pack [OF kb]
        by (auto simp: link_ok_def)
    qed
  qed
  then show ?thesis
    unfolding s' using inv lk
    by (intro t_inv_middle [OF inv])
      (auto simp: t_inv_def waiting_def queued_blocks_def dest!: set_update_subset_insert [THEN subsetD])
qed

subsection \<open>The network and the receiving relay\<close>

lemma t_inv_link:
  assumes "t_inv s" and "link_ok s l'"
  shows "t_inv (s\<lparr>links := (links s)[j := l']\<rparr>)"
  using assms by (intro t_inv_middle [OF assms(1)])
    (auto simp: t_inv_def waiting_def dest!: set_update_subset_insert [THEN subsetD])

lemma t_inv_link_ok: "t_inv s \<Longrightarrow> j < length (links s) \<Longrightarrow> link_ok s (links s ! j)"
  by (simp add: t_inv_def)

lemma t_inv_net:
  assumes "t_inv s" and "j < length (links s)"
  shows "t_inv (link_net j n s)"
  unfolding link_net_def Let_def
  using t_inv_link_ok [OF assms] by (intro t_inv_link [OF assms(1)]) (auto simp: link_ok_def link_bytes_def)

lemma t_inv_reset:
  assumes "t_inv s" and "j < length (links s)"
  shows "t_inv (link_reset j s)"
  unfolding link_reset_def Let_def
  using t_inv_link_ok [OF assms]
  by (intro t_inv_link [OF assms(1)]) (auto simp: link_ok_def closeThenCancel_def)

lemma t_inv_control:
  assumes "t_inv s" and "j < length (links s)" and "block_wf b" and "is_control b" and "8 \<le> length (BlockData b)"
  shows "t_inv (link_control j b s)"
proof -
  let ?l = "links s ! j"
  note ok = t_inv_link_ok [OF assms(1,2)]
  have cb: "carried s b"
    using assms(3-5) by (simp add: carried_def)
  show ?thesis
  proof (cases "t_connClosed (l_tx ?l)")
    case True
    obtain g r where "packThenSend WriteOk b False (l_tx ?l) no_stats = (l_tx ?l, g, r)"
      using True by (simp add: packThenSend_def conn_write_def split: prod.split)
    then have "link_control j b s = s\<lparr>links := (links s)[j := ?l]\<rparr>"
      using True by (simp add: link_control_def Let_def)
    then show ?thesis
      using assms(1) by simp
  next
    case False
    let ?t = "(l_tx ?l)\<lparr>t_out := t_out (l_tx ?l) @ wire b,
      t_SentBytes := t_SentBytes (l_tx ?l) + of_nat (length (wire b))\<rparr>"
    have "link_control j b s = s\<lparr>links := (links s)[j := ?l\<lparr>l_tx := ?t, l_carry := l_carry ?l @ [b]\<rparr>]\<rparr>"
      using False packThenSend_ok [OF False assms(3), of False no_stats] by (simp add: link_control_def Let_def)
    moreover have "link_ok s (?l\<lparr>l_tx := ?t, l_carry := l_carry ?l @ [b]\<rparr>)"
      using ok cb link_bytes_sent [of s ?l ?t b "l_pc ?l"] False by (auto simp: link_ok_def)
    ultimately show ?thesis
      using t_inv_link [OF assms(1)] by simp
  qed
qed

text \<open>
  Reading from a link: a block that can be parsed is the first one carried, or the complete
  piece that a failed write left behind it.
\<close>

lemma link_read:
  assumes "link_bytes s l" and "\<forall>c \<in> set (l_carry l). carried s c"
    and "NewBlockFromReader (t_in (l_rx l)) = (Inr b, src)"
  obtains (first) c part where "l_carry l = c # tl (l_carry l)" "uncached c = b" "carried s c"
      "avail src @ t_out (l_tx l) = wire_all (tl (l_carry l)) @ part"
      "part = [] \<or> t_connClosed (l_tx l) \<and> (\<exists>b rest. carried s b \<and> part @ rest = wire b)"
    | (piece) c where "l_carry l = []" "uncached c = b" "carried s c" "avail src @ t_out (l_tx l) = []"
proof -
  note rd = NewBlockFromReader_InrD [OF assms(3)]
  have b: "uncached b = b"
    using rd(4) by (simp add: uncached_def)
  obtain part where eq: "avail (t_in (l_rx l)) @ t_out (l_tx l) = wire_all (l_carry l) @ part"
      and part: "part = [] \<or> t_connClosed (l_tx l) \<and> (\<exists>b rest. carried s b \<and> part @ rest = wire b)"
    using assms(1) by (auto simp: link_bytes_def)
  have eq': "wire b @ avail src @ t_out (l_tx l) = wire_all (l_carry l) @ part"
    using eq rd(1) by simp
  show thesis
  proof (cases "l_carry l")
    case (Cons c cs)
    then have "carried s c"
      using assms(2) by simp
    moreover have "wire c @ (wire_all cs @ part) = wire b @ (avail src @ t_out (l_tx l))"
      using eq' Cons by simp
    from block_codec.enc_unique [OF carried_wf [OF \<open>carried s c\<close>] rd(2) this]
    have "uncached c = b" "avail src @ t_out (l_tx l) = wire_all cs @ part"
      using b by simp_all
    ultimately show thesis
      using first [of c part] Cons part by simp
  next
    case Nil
    have "wire b \<noteq> []"
      using length_wire [OF rd(2)] by auto
    then have "part \<noteq> []"
      using eq' Nil by auto
    then obtain c rest where c: "carried s c" "part @ rest = wire c"
      using part by blast
    have "wire c @ [] = wire b @ (avail src @ t_out (l_tx l) @ rest)"
      unfolding c(2) [symmetric] using eq' Nil by auto
    from block_codec.enc_unique [OF carried_wf [OF c(1)] rd(2) this] show thesis
      using piece [of c] Nil c(1) b by simp
  qed
qed

text \<open>What a round of \<open>InboundRelay\<close> does with a readable block of a link.\<close>

lemma InboundRelay_step_read:
  assumes "\<not> t_connClosed t" and "\<not> t_ctxDone t" and "NewBlockFromReader (t_in t) = (Inr b, src)"
    and "is_control b \<longrightarrow> 8 \<le> length (BlockData b)"
    and "InboundRelay_step now w t g = (out, st, t', g')"
  shows "out = (if is_control b then None else Some (snd (Pack b))) \<and>
    t_in t' = src \<and> t_connClosed t' = t_connClosed t \<and> t_ctxDone t' = t_ctxDone t"
proof -
  obtain bytes blk where pk: "Pack b = (bytes, blk)"
    by fastforce
  have ty: "Type blk = Type b" "BlockData blk = BlockData b"
    using pk by (auto simp: Pack_def Let_def split: option.splits)
  have pong: "t_in t1 = t_in t0 \<and> t_connClosed t1 = t_connClosed t0 \<and> t_ctxDone t1 = t_ctxDone t0"
    if "packThenSend w x False t0 g0 = (t1, g1, r)" for x t0 g0 t1 g1 r
    using that by (auto simp: packThenSend_def conn_write_def Let_def split: prod.splits if_splits net_write.splits)
  have rd: "NewBlockFromReader (conn_source t) = (Inr b, src)"
    using assms(1,3) by (simp add: conn_source_open)
  consider (ping) "Type b = TypePing" | (pong) "Type b = TypePong" | (other) "\<not> is_control b"
    by (auto simp: is_control_def)
  then show ?thesis
  proof cases
    case ping
    let ?t = "SetLatencyNano (le_word (take 8 (BlockData blk)))
      (t\<lparr>t_in := src, t_LastActivity := now, IsActive := True, t_RecvBytes := t_RecvBytes t + of_nat (length bytes)\<rparr>)"
    obtain g0 r where "packThenSend w (NewPongBlock now 0 0 (TimeStamp blk)) False ?t g0 = (t', g', r)"
        and "out = None"
      using assms(2,4,5) rd pk ty ping
      by (auto simp: InboundRelay_step_def is_control_def Let_def tun_SetLastActive_def
          split: prod.splits if_splits)
    then show ?thesis
      using pong [of _ ?t] ping by (auto simp: SetLatencyNano_def is_control_def)
  next
    case pong
    then show ?thesis
      using assms(2,4,5) rd pk ty
      by (auto simp: InboundRelay_step_def is_control_def Let_def tun_SetLastActive_def tun_SetLatencyNanoSince_def)
  next
    case other
    then show ?thesis
      using assms(2,5) rd pk ty
      by (auto simp: InboundRelay_step_def is_control_def Let_def tun_SetLastActive_def)
  qed
qed

lemma InboundRelay_step_fails:
  assumes "NewBlockFromReader (conn_source t) = (Inl e, src)" and "t_ctxDone t \<longrightarrow> t_connClosed t"
    and "InboundRelay_step now w t g = (out, st, t', g')"
  shows "out = None \<and> t_connClosed t' \<and> (t_ctxDone t' \<longrightarrow> t_connClosed t')"
  using InboundRelay_step_error [OF assms(1), of now w g] assms(2,3)
  by (auto simp: closeThenCancel_def split: if_splits)

lemma carried_cong: "uncached a = uncached b \<Longrightarrow> carried s b \<Longrightarrow> is_control a = is_control b \<and>
    (is_control a \<longrightarrow> tx_ok s \<longrightarrow> 8 \<le> length (BlockData a))"
  using uncached_eqD [of a b] known_not_control [of s b] by (auto simp: carried_def is_control_def)

text \<open>A round on a link: the new link, and what is put on the receive queue. First, when block \<open>b\<close> is read.\<close>

definition round_ok :: "transport \<Rightarrow> link \<Rightarrow> Tunnel \<Rightarrow> Block list \<Rightarrow> Block option \<Rightarrow> bool" where
  "round_ok s l t cs out \<longleftrightarrow>
     link_ok s (l\<lparr>l_rx := t, l_carry := cs\<rparr>) \<and> (\<forall>b \<in> set_option out. received s b) \<and>
     (\<forall>c \<in> set (l_carry l). known s c \<longrightarrow> c \<in> set cs \<or> uncached c \<in> uncached ` set_option out)"

lemma link_in_block:
  assumes tx: "tx_ok s" and ca: "\<forall>c \<in> set (l_carry l). carried s c"
    and st: "InboundRelay_step now w (l_rx l) g = (out, o', t, g')"
    and opn: "\<not> t_connClosed (l_rx l)" and nc: "\<not> t_ctxDone (l_rx l)"
    and rd: "NewBlockFromReader (t_in (l_rx l)) = (Inr b, src)" and cs: "cs = tl (l_carry l)"
    and c: "uncached c = b" "carried s c" and carry: "l_carry l = c # cs \<or> l_carry l = []"
    and lb: "\<exists>part. avail src @ t_out (l_tx l) = wire_all cs @ part \<and>
        (part = [] \<or> t_connClosed (l_tx l) \<and> (\<exists>b rest. carried s b \<and> part @ rest = wire b))"
  shows "round_ok s l t cs out"
proof -
  have b: "uncached b = uncached c"
    using c(1) by auto
  have ctl: "is_control b = is_control c" "is_control b \<longrightarrow> 8 \<le> length (BlockData b)"
    using carried_cong [OF b c(2)] tx by auto
  note r = InboundRelay_step_read [OF opn nc rd ctl(2) st]
  have "received s (snd (Pack b))" if "\<not> is_control b"
  proof -
    have "known s c"
      using c(2) that ctl(1) by (simp add: carried_def)
    moreover have "snd (Pack b) = canon c"
      using c(1) by (simp add: canon_def)
    ultimately show ?thesis
      using received_of_known by simp
  qed
  moreover have "\<forall>c \<in> set cs. carried s c"
    using ca cs by (cases "l_carry l") auto
  then have "link_ok s (l\<lparr>l_rx := t, l_carry := cs\<rparr>)"
    using r opn lb nc by (simp add: link_ok_def link_bytes_def)
  moreover have "\<forall>d \<in> set (l_carry l). known s d \<longrightarrow> d \<in> set cs \<or> uncached d \<in> uncached ` set_option out"
    using carry r ctl(1) known_not_control [OF tx] c(1) by auto
  ultimately show ?thesis
    using r by (auto simp: round_ok_def)
qed

lemma link_in_round:
  assumes tx: "tx_ok s" and ok: "link_ok s l"
    and st: "InboundRelay_step now w (l_rx l) g = (out, o', t, g')"
  defines "cs \<equiv> (if t_connClosed (l_rx l) then l_carry l
      else case fst (NewBlockFromReader (t_in (l_rx l))) of Inr _ \<Rightarrow> tl (l_carry l) | Inl _ \<Rightarrow> l_carry l)"
  shows "link_ok s (l\<lparr>l_rx := t, l_carry := cs\<rparr>) \<and> (\<forall>b \<in> set_option out. received s b) \<and>
    (\<forall>c \<in> set (l_carry l). known s c \<longrightarrow> c \<in> set cs \<or> uncached c \<in> uncached ` set_option out)"
  unfolding round_ok_def [symmetric]
proof (cases "\<exists>b src. NewBlockFromReader (conn_source (l_rx l)) = (Inr b, src)")
  case True
  then obtain b src where rd: "NewBlockFromReader (conn_source (l_rx l)) = (Inr b, src)" by blast
  have opn: "\<not> t_connClosed (l_rx l)"
    using rd NewBlockFromReader_short [of "conn_source (l_rx l)"] by (auto simp: conn_source_def)
  then have rd': "NewBlockFromReader (t_in (l_rx l)) = (Inr b, src)" and nc: "\<not> t_ctxDone (l_rx l)"
      and lb: "link_bytes s l" and ca: "\<forall>c \<in> set (l_carry l). carried s c"
    using rd ok by (auto simp: conn_source_open link_ok_def)
  have cs: "cs = tl (l_carry l)"
    using opn rd' by (simp add: cs_def)
  note body = link_in_block [OF tx ca st opn nc rd' cs]
  from lb ca rd' show "round_ok s l t cs out"
  proof (cases rule: link_read)
    case (first c part)
    then show ?thesis
      using body [of c] cs by blast
  next
    case (piece c)
    then show ?thesis
      using body [of c] cs by simp
  qed
next
  case False
  then obtain e src where rd: "NewBlockFromReader (conn_source (l_rx l)) = (Inl e, src)"
    by (metis sum.exhaust surj_pair)
  have "cs = l_carry l"
    using rd by (auto simp: cs_def conn_source_def split: sum.split)
  then show "round_ok s l t cs out"
    using InboundRelay_step_fails [OF rd _ st] ok by (auto simp: round_ok_def link_ok_def)
qed

lemma link_in_eq:
  assumes "InboundRelay_step now w (l_rx (links s ! j)) no_stats = (out, o', t, g')"
  shows "link_in j now w s =
    (let l = links s ! j in
     s\<lparr>links := (links s)[j := l\<lparr>l_rx := t,
         l_carry := (if t_connClosed (l_rx l) then l_carry l
           else case fst (NewBlockFromReader (t_in (l_rx l))) of Inr _ \<Rightarrow> tl (l_carry l) | Inl _ \<Rightarrow> l_carry l)\<rparr>],
       inq := inq s @ (case out of None \<Rightarrow> [] | Some b \<Rightarrow> [b])\<rparr>)"
  using assms by (simp add: link_in_def Let_def)

lemma t_inv_link_in:
  assumes inv: "t_inv s" and j: "j < length (links s)"
  shows "t_inv (link_in j now w s)"
proof -
  obtain out o' t g' where st: "InboundRelay_step now w (l_rx (links s ! j)) no_stats = (out, o', t, g')"
    by (metis prod_cases4)
  have "tx_ok s"
    using inv by (simp add: t_inv_def)
  note r = link_in_round [OF this t_inv_link_ok [OF inv j] st]
  show ?thesis
    unfolding link_in_eq [OF st] Let_def
    by (rule t_inv_middle [OF inv])
      (use r inv in \<open>auto simp: t_inv_def waiting_def split: option.splits
        dest!: set_update_subset_insert [THEN subsetD]\<close>)
qed

subsection \<open>Delivery, and the whole step\<close>

lemma t_inv_deliver:
  assumes "t_inv s" and "inq s = b # bs"
  shows "t_inv (deliver_block b (s\<lparr>inq := bs\<rparr>))"
proof -
  let ?i = "ConnectionID b"
  obtain out x where rb: "relay_block (rx_proc s ?i) b = (out, x)"
    by fastforce
  let ?s = "s\<lparr>inq := bs, rx_proc := (rx_proc s)(?i := x), delivered := (delivered s)(?i := delivered s ?i @ out),
      arrived := (arrived s)(?i := arrived s ?i @ [b])\<rparr>"
  have s': "deliver_block b (s\<lparr>inq := bs\<rparr>) = ?s"
    by (simp add: deliver_block_def Let_def rb)
  have same: "known ?s = known s" "received ?s = received s" "link_ok ?s = link_ok s" "tx_ok ?s = tx_ok s"
    by (intro same_sent, simp)+ (rule tx_ok_cong; simp)
  have "received s b"
    using assms by (simp add: t_inv_def)
  then have "rx_ok ?s"
    using assms(1) rb by (auto simp: t_inv_def rx_ok_def same(2) relay_blocks_snoc)
  then show ?thesis
    unfolding s' using assms by (simp add: t_inv_def same waiting_def)
qed

lemma t_inv_init: "t_inv (transport_init n)"
  by (simp add: t_inv_def transport_init_def tx_ok_def waiting_def rx_ok_def newBlockProcessor_def)

lemma t_inv_step:
  assumes "t_inv s" and "transport_step s ev = Some s'"
  shows "t_inv s'"
proof (cases ev)
  case (ESend i now op)
  then show ?thesis
    using assms t_inv_send [OF assms(1)] by (auto simp: transport_step_def split: if_splits prod.splits)
next
  case (EEnqueue n)
  then show ?thesis
    using assms t_inv_enqueue [OF assms(1)]
    by (auto simp: transport_step_def split: if_splits send_result.splits)
next
  case (ERetry n pick)
  then show ?thesis
    using assms(2) t_inv_retry [OF assms(1), of n pick]
    by (auto simp: transport_step_def Let_def split: if_splits option.splits)
next
  case (EDeliver)
  then show ?thesis
    using assms(2) t_inv_deliver [OF assms(1)] by (auto simp: transport_step_def split: list.splits)
next
  case (ELink t r)
  then have s': "s' = s\<lparr>links := links s @ [\<lparr>l_tx = t, l_pc = AtTop, l_rx = r, l_carry = []\<rparr>]\<rparr>"
      and l: "link_ok s \<lparr>l_tx = t, l_pc = AtTop, l_rx = r, l_carry = []\<rparr>"
    using assms(2) by (auto simp: transport_step_def link_ok_def link_bytes_def split: if_splits)
  show ?thesis
    by (rule t_inv_middle [OF assms(1)]) (use assms(1) s' l in \<open>auto simp: t_inv_def waiting_def\<close>)
qed (use assms in \<open>auto simp: transport_step_def t_inv_link_out t_inv_control t_inv_net t_inv_link_in t_inv_reset
    split: if_splits\<close>)

subsection \<open>Nothing disappears\<close>

lemma traced_mono:
  assumes "traced s" and "tx_ok s" and "sent s' = sent s"
    and "\<And>e. e \<in> underway s \<Longrightarrow> \<not> is_control e \<Longrightarrow> uncached e \<in> uncached ` underway s'"
  shows "traced s'"
  unfolding traced_def
proof (intro allI ballI)
  fix i b
  assume b: "b \<in> set (sent s' i)"
  then obtain e where e: "e \<in> underway s" "uncached b = uncached e"
    using assms(1,3) by (auto simp: traced_def)
  have "\<not> is_control e"
    using b assms(2,3) uncached_eqD [OF e(2)] by (auto simp: tx_ok_def is_control_def)
  then show "uncached b \<in> uncached ` underway s'"
    using assms(4) [OF e(1)] e(2) by simp
qed

text \<open>The carried blocks of all links when one link is replaced.\<close>

lemma carry_update:
  assumes "j < length ls"
  shows "carry_of ls \<subseteq>
    set (l_carry (ls ! j)) \<union> carry_of (ls[j := l'])" (is ?old)
    and "set (l_carry l') \<subseteq> carry_of (ls[j := l'])" (is ?new)
proof -
  show ?new
    using set_update_memI [OF assms, of l'] by (auto simp: carry_of_def)
  show ?old
  proof
    fix b
    assume "b \<in> carry_of ls"
    then obtain k where k: "k < length ls" "b \<in> set (l_carry (ls ! k))"
      by (auto simp: carry_of_def in_set_conv_nth [of _ ls])
    moreover have "ls ! k \<in> set (ls[j := l'])" if "k \<noteq> j"
      using that k(1) by (metis length_list_update nth_list_update_neq nth_mem)
    ultimately show "b \<in> set (l_carry (ls ! j)) \<union> carry_of (ls[j := l'])"
      by (cases "k = j") (auto simp: carry_of_def)
  qed
qed

lemma underway_link:
  assumes "j < length (links s)" and "links s' = (links s)[j := l']"
    and "set (waiting s) \<subseteq> underway s'" "set (dropped s) \<subseteq> underway s'" "set (inq s) \<subseteq> underway s'"
    and "arrived_any s \<subseteq> underway s'"
    and "\<And>c. c \<in> set (l_carry (links s ! j)) \<Longrightarrow> \<not> is_control c \<Longrightarrow> uncached c \<in> uncached ` underway s'"
  shows "e \<in> underway s \<Longrightarrow> \<not> is_control e \<Longrightarrow> uncached e \<in> uncached ` underway s'"
proof -
  assume e: "e \<in> underway s" "\<not> is_control e"
  have "carry_of (links s') \<subseteq> underway s'"
    by (auto simp: underway_def)
  then have "carry_of (links s) \<subseteq> set (l_carry (links s ! j)) \<union> underway s'"
    using carry_update(1) [OF assms(1), of l'] unfolding assms(2) by blast
  then have "e \<in> underway s' \<or> e \<in> set (l_carry (links s ! j))"
    using e(1) assms(3-6) unfolding underway_def by blast
  then show ?thesis
    using assms(7) [OF _ e(2)] by blast
qed

lemma underway_carry: "links s' = (links s)[j := l'] \<Longrightarrow> j < length (links s) \<Longrightarrow> set (l_carry l') \<subseteq> underway s'"
  using carry_update(2) [of j "links s" l'] by (auto simp: underway_def)

text \<open>A step of a sending relay moves a block of the queues to its link or to the retry goroutines.\<close>

lemma queued_moved:
  assumes "\<forall>b \<in> queued_blocks qs. block_wf b"
    and "OutboundRelay_step w pick pc qs t g = (pc', qs', t', g', r)"
  shows "uncached ` queued_blocks qs \<subseteq>
    uncached ` (queued_blocks qs' \<union> set (if r = None then taken qs qs' else []) \<union> set_option r)"
  using assms(2)
proof (cases rule: OutboundRelay_step_cases)
  case idle
  then show ?thesis
    by blast
next
  case (took b)
  then have "block_wf b"
    using assms(1) by blast
  from this took(1) have "uncached b \<in> uncached ` (set (if r = None then taken qs qs' else []) \<union> set_option r)"
  proof (cases rule: packThenSend_cases)
    case sent
    then show ?thesis
      using took(2) by auto
  next
    case (failed k)
    then show ?thesis
      using uncached_Pack [of b] by force
  qed
  then show ?thesis
    using took(3) by auto
qed

lemma traced_link_out:
  assumes inv: "t_inv s" and tr: "traced s" and j: "j < length (links s)"
  shows "traced (link_out j w pick s)"
proof -
  let ?l = "links s ! j"
  obtain pc qs t g r where st: "OutboundRelay_step w pick (l_pc ?l) (out_qs s) (l_tx ?l) no_stats = (pc, qs, t, g, r)"
    by (metis prod_cases5)
  let ?new = "if r = None then taken (out_qs s) qs else []"
  let ?l' = "?l\<lparr>l_tx := t, l_pc := pc, l_carry := l_carry ?l @ ?new\<rparr>"
  define s' where "s' = s\<lparr>out_qs := qs, links := (links s)[j := ?l'],
    retrying := retrying s @ (case r of None \<Rightarrow> [] | Some b \<Rightarrow> [b])\<rparr>"
  have s': "link_out j w pick s = s'"
    by (simp add: link_out_def st Let_def s'_def)
  have tx: "tx_ok s" and wf: "\<forall>b \<in> queued_blocks (out_qs s). block_wf b"
    using inv by (auto simp: t_inv_def waiting_def queued_blocks_def known_def)
  have cl: "set (l_carry ?l) \<union> set ?new \<subseteq> underway s'"
    using underway_carry [of s' s j ?l'] j by (simp add: s'_def)
  have w: "set (outbox s) \<union> set (retrying s) \<union> queued_blocks qs \<union> set_option r \<subseteq> underway s'"
    by (auto simp: underway_def waiting_def queued_blocks_def s'_def)
  have q: "uncached ` queued_blocks (out_qs s) \<subseteq> uncached ` underway s'"
    by (rule subset_trans [OF queued_moved [OF wf st]], rule image_mono) (use cl w in blast)
  have rest: "carry_of (links s') \<subseteq> underway s'" "set (dropped s) \<union> set (inq s) \<union> arrived_any s \<subseteq> underway s'"
      "carry_of (links s) \<subseteq> set (l_carry ?l) \<union> carry_of (links s')"
      "set (waiting s) = set (outbox s) \<union> set (retrying s) \<union> queued_blocks (out_qs s)"
    using carry_update(1) [OF j, of ?l']
    by (auto simp: underway_def s'_def arrived_any_def waiting_def queued_blocks_def)
  have "e \<in> underway s' \<or> e \<in> queued_blocks (out_qs s)" if "e \<in> underway s" for e
    using that cl w rest unfolding underway_def [of s] by blast
  then have "uncached e \<in> uncached ` underway s'" if "e \<in> underway s" for e
    using q that by (meson imageI subsetD)
  moreover have "sent s' = sent s"
    by (simp add: s'_def)
  ultimately show ?thesis
    unfolding s' using traced_mono [OF tr tx] by blast
qed

lemma traced_link_in:
  assumes inv: "t_inv s" and tr: "traced s" and j: "j < length (links s)"
  shows "traced (link_in j now w s)"
proof -
  let ?l = "links s ! j"
  obtain out o' t g' where st: "InboundRelay_step now w (l_rx ?l) no_stats = (out, o', t, g')"
    by (metis prod_cases4)
  define cs where "cs = (if t_connClosed (l_rx ?l) then l_carry ?l
      else case fst (NewBlockFromReader (t_in (l_rx ?l))) of Inr _ \<Rightarrow> tl (l_carry ?l) | Inl _ \<Rightarrow> l_carry ?l)"
  define s' where "s' = link_in j now w s"
  have s': "s' = s\<lparr>links := (links s)[j := ?l\<lparr>l_rx := t, l_carry := cs\<rparr>], inq := inq s @ (case out of None \<Rightarrow> [] | Some b \<Rightarrow> [b])\<rparr>"
    by (simp add: s'_def link_in_eq [OF st] cs_def Let_def)
  have tx: "tx_ok s" and ok: "link_ok s ?l"
    using inv j by (auto simp: t_inv_def)
  note r = link_in_round [OF tx ok st, folded cs_def]
  have lk: "links s' = (links s)[j := ?l\<lparr>l_rx := t, l_carry := cs\<rparr>]"
    by (simp add: s')
  have cs: "set cs \<subseteq> underway s'" and out: "set_option out \<subseteq> underway s'"
    using underway_carry [OF lk j] by (auto simp: underway_def s' split: option.splits)
  have gone: "uncached c \<in> uncached ` underway s'" if c: "c \<in> set (l_carry ?l)" "\<not> is_control c" for c
  proof -
    have "known s c"
      using c ok by (auto simp: link_ok_def carried_def)
    then have "c \<in> set cs \<or> uncached c \<in> uncached ` set_option out"
      using bspec [OF r [THEN conjunct2, THEN conjunct2] c(1)] by (rule mp [rotated])
    then show ?thesis
      using cs image_mono [OF out, of uncached] by (meson imageI subsetD)
  qed
  have rest: "set (waiting s) \<subseteq> underway s'" "set (dropped s) \<subseteq> underway s'" "set (inq s) \<subseteq> underway s'"
      "arrived_any s \<subseteq> underway s'"
    by (auto simp: underway_def waiting_def arrived_any_def s')
  show ?thesis
    unfolding s'_def [symmetric]
    by (rule traced_mono [OF tr tx], simp add: s') (rule underway_link [OF j lk rest gone])
qed

lemma underway_cong:
  assumes "set (waiting s) \<union> set (dropped s) \<subseteq> set (waiting s') \<union> set (dropped s')"
    and "links s' = links s" "inq s' = inq s" "arrived s' = arrived s"
  shows "underway s \<subseteq> underway s'"
  using assms by (auto simp: underway_def arrived_any_def)

lemma traced_same:
  assumes "traced s" and "tx_ok s" and "sent s' = sent s" and "underway s \<subseteq> underway s'"
  shows "traced s'"
  using assms by (intro traced_mono [OF assms(1-3)]) auto

lemma traced_keeps_carry:
  assumes "traced s" and "tx_ok s" and j: "j < length (links s)"
    and "set (l_carry (links s ! j)) \<subseteq> set (l_carry l')"
  shows "traced (s\<lparr>links := (links s)[j := l']\<rparr>)"
proof -
  let ?s = "s\<lparr>links := (links s)[j := l']\<rparr>"
  have "set (l_carry l') \<subseteq> underway ?s"
    using underway_carry [OF _ j, of ?s l'] by simp
  then have kept: "uncached c \<in> uncached ` underway ?s" if "c \<in> set (l_carry (links s ! j))" for c
    using assms(4) that by (meson imageI subsetD)
  have rest: "set (waiting s) \<subseteq> underway ?s" "set (dropped s) \<subseteq> underway ?s" "set (inq s) \<subseteq> underway ?s"
      "arrived_any s \<subseteq> underway ?s"
    by (auto simp: underway_def waiting_def arrived_any_def)
  have lk: "links ?s = (links s)[j := l']"
    by simp
  show ?thesis
    by (rule traced_mono [OF assms(1,2)], simp) (rule underway_link [OF j lk rest kept])
qed

lemma traced_send:
  assumes "traced s"
  shows "traced (s\<lparr>tx_proc := p, outbox := outbox s @ bs, sent := (sent s)(i := sent s i @ bs)\<rparr>)" (is "traced ?s")
proof -
  have "underway s \<subseteq> underway ?s" and new: "set bs \<subseteq> underway ?s"
    by (auto simp: underway_def waiting_def arrived_any_def)
  then have old: "uncached ` underway s \<subseteq> uncached ` underway ?s"
    by (intro image_mono)
  show ?thesis
    unfolding traced_def
  proof (intro allI ballI)
    fix j b
    assume "b \<in> set (sent ?s j)"
    then consider "b \<in> set (sent s j)" | "b \<in> set bs"
      by (auto split: if_splits)
    then show "uncached b \<in> uncached ` underway ?s"
      using assms old new by cases (auto simp: traced_def simp del: image_eqI dest: subsetD)
  qed
qed

lemma traced_deliver:
  assumes "traced s" and "tx_ok s" and "inq s = b # bs"
  shows "traced (deliver_block b (s\<lparr>inq := bs\<rparr>))"
proof (rule traced_same [OF assms(1,2)])
  let ?s = "deliver_block b (s\<lparr>inq := bs\<rparr>)"
  have s: "waiting ?s = waiting s" "dropped ?s = dropped s" "links ?s = links s" "inq ?s = bs" "sent ?s = sent s"
    by (simp_all add: deliver_block_def waiting_def Let_def split: prod.splits)
  then show "sent ?s = sent s" by simp
  have "arrived ?s = (arrived s)(ConnectionID b := arrived s (ConnectionID b) @ [b])"
    by (simp add: deliver_block_def Let_def split: prod.splits)
  then have "insert b (arrived_any s) \<subseteq> arrived_any ?s"
    by (auto simp: arrived_any_def split: if_splits)
  then show "underway s \<subseteq> underway ?s"
    using s assms(3) by (auto simp: underway_def)
qed

lemma traced_enqueue:
  assumes "traced s" and "tx_ok s" and st: "transport_step s (EEnqueue n) = Some s'"
  shows "traced s'"
proof -
  obtain q where n: "n < length (outbox s)"
      and s': "s' = s\<lparr>outbox := take n (outbox s) @ drop (Suc n) (outbox s), out_qs := (out_qs s)\<lparr>normalQueue := q\<rparr>\<rparr>"
      and q: "chan_buf q = chan_buf (normalQueue (out_qs s)) @ [outbox s ! n]"
    using st by (auto simp: transport_step_def chan_send_Sent_iff split: if_splits send_result.splits)
  have "set (waiting s) \<subseteq> set (waiting s')"
    using set_remove_nth [OF n] q by (auto simp: waiting_def s')
  then show ?thesis
    by (intro traced_same [OF assms(1,2)] underway_cong) (auto simp: s')
qed

lemma traced_retry:
  assumes "traced s" and "tx_ok s" and st: "transport_step s (ERetry n pick) = Some s'"
  shows "traced s'"
proof -
  obtain r where n: "n < length (retrying s)"
      and r: "retry_select pick (retrying s ! n) True (retryQueue (out_qs s)) = Some r"
      and s': "s' = (case r of
        None \<Rightarrow> s\<lparr>retrying := take n (retrying s) @ drop (Suc n) (retrying s), dropped := dropped s @ [retrying s ! n]\<rparr>
      | Some q \<Rightarrow> s\<lparr>retrying := take n (retrying s) @ drop (Suc n) (retrying s), out_qs := (out_qs s)\<lparr>retryQueue := q\<rparr>\<rparr>)"
    using st by (auto simp: transport_step_def Let_def split: if_splits option.splits)
  have q: "chan_buf q = chan_buf (retryQueue (out_qs s)) @ [retrying s ! n]" if "r = Some q" for q
    using r that by (auto simp: retry_select_def chan_send_def split: if_splits)
  have "set (waiting s) \<union> set (dropped s) \<subseteq> set (waiting s') \<union> set (dropped s')"
    using q unfolding s' waiting_def set_append set_remove_nth [OF n, symmetric]
    by (cases r) auto
  then show ?thesis
    by (intro traced_same [OF assms(1,2)] underway_cong) (auto simp: s' split: option.splits)
qed

lemma traced_step:
  assumes inv: "t_inv s" and tr: "traced s" and st: "transport_step s ev = Some s'"
  shows "traced s'"
proof -
  have tx: "tx_ok s"
    using inv by (simp add: t_inv_def)
  note keep = traced_keeps_carry [OF tr tx]
  show ?thesis
  proof (cases ev)
    case (ESend i now op)
    then show ?thesis
      using st traced_send [OF tr] by (auto simp: transport_step_def split: if_splits prod.splits)
  next
    case (EEnqueue n)
    then show ?thesis
      using st traced_enqueue [OF tr tx] by blast
  next
    case (ERetry n pick)
    then show ?thesis
      using st traced_retry [OF tr tx] by blast
  next
    case (EControl j b)
    then obtain t' where j: "j < length (links s)" and s': "s' = s\<lparr>links := (links s)[j := (links s ! j)\<lparr>l_tx := t',
        l_carry := l_carry (links s ! j) @ (if t_connClosed (l_tx (links s ! j)) then [] else [b])\<rparr>]\<rparr>"
      using st by (auto simp: transport_step_def link_control_def Let_def split: if_splits prod.splits)
    show ?thesis
      unfolding s' by (rule keep [OF j]) simp
  next
    case (ENet j n)
    then show ?thesis
      using st keep by (auto simp: transport_step_def link_net_def Let_def split: if_splits)
  next
    case (EReset j)
    then show ?thesis
      using st keep by (auto simp: transport_step_def link_reset_def Let_def split: if_splits)
  next
    case EDeliver
    then show ?thesis
      using st traced_deliver [OF tr tx] by (auto simp: transport_step_def split: list.splits)
  next
    case (ELink t r)
    then have s': "s' = s\<lparr>links := links s @ [\<lparr>l_tx = t, l_pc = AtTop, l_rx = r, l_carry = []\<rparr>]\<rparr>"
      using st by (auto simp: transport_step_def split: if_splits)
    show ?thesis
      by (rule traced_same [OF tr tx]) (auto simp: s' underway_def waiting_def carry_of_def arrived_any_def)
  qed (use st traced_link_out [OF inv tr] traced_link_in [OF inv tr] in
      \<open>auto simp: transport_step_def split: if_splits\<close>)
qed

lemma reachable_inv: "transport_reachable s \<Longrightarrow> t_inv s \<and> traced s"
proof (induction rule: transport_reachable.induct)
  case (start n)
  then show ?case
    using t_inv_init by (simp add: traced_def transport_init_def)
next
  case (step s ev s')
  then show ?case
    using t_inv_step traced_step by blast
qed

section \<open>End-to-end properties\<close>

lemma numbered_sent:
  assumes "tx_ok s" and "length (sent s i) < 2 ^ 32"
  shows "numbered (map canon (sent s i))"
  using assms by (simp add: tx_ok_def numbered_def comp_def)

lemma arrived_indices:
  assumes "t_inv s" and "length (sent s i) < 2 ^ 32"
  shows "\<exists>js. set js \<subseteq> {..<length (sent s i)} \<and> arrived s i = map (nth (map canon (sent s i))) js"
proof -
  let ?h = "map canon (sent s i)"
  have "\<exists>j < length ?h. b = ?h ! j" if "b \<in> set (arrived s i)" for b
  proof -
    have "b \<in> set ?h"
      using assms(1) that by (auto simp: t_inv_def rx_ok_def received_def)
    then show ?thesis
      by (metis in_set_conv_nth)
  qed
  then have "\<forall>b \<in> set (arrived s i). \<exists>j. j < length ?h \<and> b = ?h ! j"
    by blast
  then obtain f where f: "\<forall>b \<in> set (arrived s i). f b < length ?h \<and> b = ?h ! f b"
    by metis
  then have "map (\<lambda>b. ?h ! f b) (arrived s i) = arrived s i"
    by (intro map_idI) metis
  then have "arrived s i = map (nth ?h) (map f (arrived s i))" "set (map f (arrived s i)) \<subseteq> {..<length (sent s i)}"
    using f by (simp_all add: comp_def image_subset_iff)
  then show ?thesis
    by metis
qed

lemma delivered_prefix:
  assumes "transport_reachable s" and "length (sent s i) < 2 ^ 32"
  shows "\<exists>k. delivered s i = map canon (take k (sent s i))"
proof -
  let ?h = "map canon (sent s i)"
  have inv: "t_inv s"
    using reachable_inv [OF assms(1)] by simp
  then have tx: "tx_ok s" and r: "relay_blocks newBlockProcessor (arrived s i) = (delivered s i, rx_proc s i)"
    by (auto simp: t_inv_def rx_ok_def)
  obtain js where js: "set js \<subseteq> {..<length ?h}" "arrived s i = map (nth ?h) js"
    using arrived_indices [OF inv assms(2)] by auto
  from proc.run_prefix [OF numbered_sent [OF tx assms(2)] js(1)] r show ?thesis
    by (auto simp: js(2) relay_blocks_run take_map)
qed

text \<open>
  C3: end-to-end order. In every reachable state of the whole system, with any number of
  tunnels, any interleaving, failed and repeated sends, broken tunnels and control traffic,
  what a receiving connection has been handed is, block for block, a prefix of what its peer
  has sent: nothing is reordered, duplicated, altered or taken from another connection.
\<close>

theorem transport_in_order:
  assumes "transport_reachable s" and "length (sent s i) < 2 ^ 32"
  shows "\<exists>k. delivered s i = map canon (take k (sent s i))"
  by (rule delivered_prefix [OF assms])

text \<open>Nothing is under way: all queues are empty, nothing was dropped, every carried block was read.\<close>

definition quiet :: "transport \<Rightarrow> bool" where
  "quiet s \<longleftrightarrow> waiting s = [] \<and> dropped s = [] \<and> inq s = [] \<and> list_all (\<lambda>l. l_carry l = []) (links s)"

lemma delivered_complete:
  assumes "transport_reachable s" and "length (sent s i) < 2 ^ 32" and "quiet s"
  shows "delivered s i = map canon (sent s i)"
proof -
  let ?h = "map canon (sent s i)"
  have inv: "t_inv s" and tr: "traced s"
    using reachable_inv [OF assms(1)] by auto
  then have tx: "tx_ok s" and r: "relay_blocks newBlockProcessor (arrived s i) = (delivered s i, rx_proc s i)"
    by (auto simp: t_inv_def rx_ok_def)
  note num = numbered_sent [OF tx assms(2)]
  obtain js where js: "set js \<subseteq> {..<length ?h}" "arrived s i = map (nth ?h) js"
    using arrived_indices [OF inv assms(2)] by auto
  have "j \<in> set js" if j: "j < length ?h" for j
  proof -
    have uw: "underway s = arrived_any s"
      using assms(3) by (auto simp: underway_def quiet_def carry_of_def list_all_iff)
    have sj: "sent s i ! j \<in> set (sent s i)"
      using j by simp
    then obtain e i' where e: "e \<in> set (arrived s i')" "uncached (sent s i ! j) = uncached e"
      using tr unfolding traced_def uw arrived_any_def by blast
    have "ConnectionID e = i'"
      using inv e(1) by (auto simp: t_inv_def rx_ok_def)
    then have "i' = i"
      using uncached_eqD [OF e(2)] tx sj by (auto simp: tx_ok_def)
    then obtain m where m: "m \<in> set js" "e = ?h ! m"
      using e(1) js(2) by auto
    have "of_nat j = (of_nat m :: u32)"
      using numbered_BlockID [OF num j] numbered_BlockID [OF num, of m] m js(1) uncached_eqD [OF e(2)] j by auto
    then have "j = m"
      using of_nat_inj_u32 j js(1) m(1) assms(2) by auto
    then show ?thesis
      using m(1) by simp
  qed
  then have "set js = {..<length ?h}"
    using js(1) by auto
  from proc.run_complete [OF num this] r show ?thesis
    by (auto simp: js(2) relay_blocks_run)
qed


section \<open>A concrete run\<close>

text \<open>One block over one tunnel, from the sending connection to the receiving one.\<close>

definition sample_blk :: Block where
  "sample_blk = NewDisconnectBlock 0 5 0 7"

definition sample_run :: "t_event list" where
  "sample_run = [ELink (sample_tunnel []) (sample_tunnel []), ESend 5 (\<lambda>_. 0) (OpDisconnect 7), EEnqueue 0,
     EOut 0 WriteOk PickNormal, EOut 0 WriteOk PickNormal, ENet 0 (length (wire sample_blk)),
     EIn 0 0 WriteOk, EDeliver]"

lemma sample_blk_facts: "block_wf sample_blk" "\<not> is_control sample_blk" "ConnectionID sample_blk = 5"
  by (simp_all add: sample_blk_def NewDisconnectBlock_def block_wf_def is_control_def)

lemma sample_pack: "pack_op (\<lambda>_. 0) (OpDisconnect 7) 5 newBlockProcessor = ([sample_blk], newBlockProcessor\<lparr>sendBlockID := 1\<rparr>)"
  by (simp add: pack_op_def packDisconnect_def newBlockProcessor_def sample_blk_def)

lemma sample_tunnel_sels [simp]:
  "t_out (sample_tunnel inp) = []" "t_in (sample_tunnel inp) = \<lparr>avail = inp, final = EOF\<rparr>"
  by (simp_all add: sample_tunnel_def newTunnelWithID_def)

lemma sample_run_result:
  "\<exists>s. transport_run (transport_init 64) sample_run = Some s \<and> quiet s \<and> sent s = (\<lambda>_. [])(5 := [sample_blk])"
proof -
  let ?b = sample_blk
  have rd: "NewBlockFromReader \<lparr>avail = wire ?b, final = EOF\<rparr> = (Inr (uncached ?b), \<lparr>avail = [], final = EOF\<rparr>)"
    using NewBlockFromReader_wire [OF sample_blk_facts(1), of "[]" EOF] by simp
  have inb: "\<exists>t g. InboundRelay_step 0 WriteOk ((sample_tunnel [])\<lparr>t_in := \<lparr>avail = wire ?b, final = EOF\<rparr>\<rparr>) no_stats =
      (Some (snd (Pack (uncached ?b))), InLoops, t, g)"
    using InboundRelay_step_block [OF _ _ sample_blk_facts(1,2),
        of "(sample_tunnel [])\<lparr>t_in := \<lparr>avail = wire ?b, final = EOF\<rparr>\<rparr>" "[]" 0 WriteOk no_stats]
    by simp
  obtain t g where inb: "InboundRelay_step 0 WriteOk ((sample_tunnel [])\<lparr>t_in := \<lparr>avail = wire ?b, final = EOF\<rparr>\<rparr>) no_stats =
      (Some (snd (Pack (uncached ?b))), InLoops, t, g)"
    using inb by blast
  obtain out x where rb: "relay_block newBlockProcessor (snd (Pack (uncached ?b))) = (out, x)"
    by fastforce
  have cid: "ConnectionID (snd (Pack (uncached ?b))) = 5"
    using canon_sels(1) [of ?b] sample_blk_facts(3) by (simp add: canon_def)
  show ?thesis
    using sample_blk_facts(1) packThenSend_ok [OF _ sample_blk_facts(1), of "sample_tunnel []" True no_stats]
    by (simp add: sample_run_def transport_init_def transport_step_def op_ok_def sample_pack chan_send_def make_chan_def
        link_out_def OutboundRelay_step_def chan_recv_def send_from_def taken_def link_net_def link_in_def
        readable_def rd inb deliver_block_def rb cid quiet_def waiting_def Let_def)
qed

lemma run_reachable:
  "transport_reachable s \<Longrightarrow> transport_run s evs = Some s' \<Longrightarrow> transport_reachable s'"
  by (induction evs arbitrary: s) (auto split: option.splits intro: transport_reachable.step)


theorem transport_in_order_witness:
  "\<exists>s k. transport_run (transport_init 64) sample_run = Some s \<and> delivered s 5 = map canon (take k [sample_blk])"
proof -
  obtain s where s: "transport_run (transport_init 64) sample_run = Some s" "sent s 5 = [sample_blk]"
    using sample_run_result by (metis fun_upd_same)
  have "transport_reachable s"
    using run_reachable [OF transport_reachable.start s(1)] .
  from transport_in_order [OF this, of 5] s show ?thesis
    by auto
qed

end
