(* ===== verification/Client_Relay.thy ===== *)
theory Client_Relay
  imports Outbound_Connection
begin

text \<open>
  \<^verbatim>\<open>client/client.go\<close>, \<open>relay\<close> and \<open>biRelay\<close>: the client copies between the local socket and the
  connection through the tunnels with two goroutines. The model interleaves the rounds of the two
  \<^verbatim>\<open>io.Copy\<close> loops, the arrival of ordered blocks and the end of \<open>biRelay\<close>. What the socket returns
  in a round is part of the event. A \<open>Read\<close> that waits for a block stays blocked in its \<^verbatim>\<open>select\<close> and
  goes on from there in the next round.
\<close>

section \<open>The state and its steps\<close>

datatype copy_state = Copying | Blocked | Over | Spinning | Crashed

record bi_state =
  local_tcp :: tcp_conn          \<comment> \<open>\<^verbatim>\<open>left\<close>\<close>
  proxy :: InboundConnection     \<comment> \<open>\<^verbatim>\<open>right\<close>\<close>
  up :: copy_state               \<comment> \<open>\<^verbatim>\<open>local -> tunnel\<close>\<close>
  down :: copy_state             \<comment> \<open>\<^verbatim>\<open>local <- tunnel\<close>\<close>
  bi_over :: bool

definition bi_start :: "tcp_conn \<Rightarrow> InboundConnection \<Rightarrow> bi_state" where
  "bi_start t c = \<lparr>local_tcp = t, proxy = c, up = Copying, down = Copying, bi_over = False\<rparr>"

text \<open>
  Closing both ends: what \<open>relay\<close> does after an error, deadlines first, and \<open>biRelay\<close> at its end.
  \<open>None\<close> is the panic of closing a closed channel.
\<close>

definition close_both :: "i64 \<Rightarrow> bi_state \<Rightarrow> (Block list \<times> bi_state) option" where
  "close_both now s =
     (case Close now (proxy s) of
        None \<Rightarrow> None
      | Some (blks, c) \<Rightarrow> Some (blks, s\<lparr>local_tcp := (local_tcp s)\<lparr>tcp_closed := True\<rparr>, proxy := c\<rparr>))"

definition relay_failed :: "i64 \<Rightarrow> bi_state \<Rightarrow> (Block list \<times> bi_state) option" where
  "relay_failed now s = close_both now (s\<lparr>proxy := SetDeadline now (proxy s)\<rparr>)"

text \<open>The two orderly ends: the destination's write half and the source's read half are closed.\<close>

definition up_finished :: "i64 \<Rightarrow> bi_state \<Rightarrow> Block list \<times> bi_state" where
  "up_finished now s =
     (let (blks, c) = CloseWrite now (proxy s)
      in (blks, s\<lparr>proxy := c, local_tcp := (local_tcp s)\<lparr>tcp_rd_closed := True\<rparr>, up := Over\<rparr>))"

definition down_finished :: "i64 \<Rightarrow> bi_state \<Rightarrow> Block list \<times> bi_state" where
  "down_finished now s =
     (let (blks, c) = CloseRead now (proxy s)
      in (blks, s\<lparr>proxy := c, local_tcp := (local_tcp s)\<lparr>tcp_wr_closed := True\<rparr>, down := Over\<rparr>))"

definition up_failed :: "i64 \<Rightarrow> bi_state \<Rightarrow> Block list \<times> bi_state" where
  "up_failed now s =
     (case relay_failed now s of
        None \<Rightarrow> ([], s\<lparr>up := Crashed\<rparr>)
      | Some (blks, s') \<Rightarrow> (blks, s'\<lparr>up := Over\<rparr>))"

definition down_failed :: "i64 \<Rightarrow> bi_state \<Rightarrow> Block list \<times> bi_state" where
  "down_failed now s =
     (case relay_failed now s of
        None \<Rightarrow> ([], s\<lparr>down := Crashed\<rparr>)
      | Some (blks, s') \<Rightarrow> (blks, s'\<lparr>down := Over\<rparr>))"

text \<open>One round of \<^verbatim>\<open>io.Copy(right, left)\<close> on what the socket's read returns.\<close>

definition up_round :: "(nat \<Rightarrow> i64) \<Rightarrow> net_read \<Rightarrow> bi_state \<Rightarrow> Block list \<times> bi_state" where
  "up_round now r s =
     (if up s \<noteq> Copying then ([], s)
      else
        (case tcp_read r (local_tcp s) of
           ReadOk d \<Rightarrow>
             if d = [] then ([], s)
             else
               (case Write now d (proxy s) of
                  (n, None, blks, c) \<Rightarrow>
                    if n = length d then (blks, s\<lparr>proxy := c\<rparr>)
                    else (let (blks', s') = up_failed (now 0) (s\<lparr>proxy := c\<rparr>) in (blks @ blks', s'))
                | (n, Some _, blks, c) \<Rightarrow>
                    (let (blks', s') = up_failed (now 0) (s\<lparr>proxy := c\<rparr>) in (blks @ blks', s')))
         | ReadEOF \<Rightarrow> up_finished (now 0) s
         | _ \<Rightarrow> up_failed (now 0) s))"

text \<open>
  One round of \<^verbatim>\<open>io.Copy(left, right)\<close> into its buffer of 32 KiB. \<open>fuel\<close> bounds the loop inside
  \<open>Read\<close>, \<open>pick\<close> resolves its selects, \<open>w\<close> is what the socket does with a write.
\<close>

definition copy_buf :: "byte list" where
  "copy_buf = replicate 32768 0"

definition down_read :: "nat \<Rightarrow> i64 \<Rightarrow> bool list \<Rightarrow> bi_state \<Rightarrow> read_result" where
  "down_read fuel now pick s =
     (if down s = Blocked then read_first fuel now pick copy_buf (proxy s)
      else Read fuel now pick copy_buf (proxy s))"

definition down_round :: "nat \<Rightarrow> i64 \<Rightarrow> bool list \<Rightarrow> net_write \<Rightarrow> bi_state \<Rightarrow> Block list \<times> bi_state" where
  "down_round fuel now pick w s =
     (if down s \<noteq> Copying \<and> down s \<noteq> Blocked then ([], s)
      else
        (case down_read fuel now pick s of
           Waits \<Rightarrow> ([], s\<lparr>down := Blocked\<rparr>)
         | Panics \<Rightarrow> ([], s\<lparr>down := Crashed\<rparr>)
         | Loops \<Rightarrow> ([], s\<lparr>down := Spinning\<rparr>)
         | Returned n er b c \<Rightarrow>
             (let s1 = s\<lparr>proxy := c, down := Copying\<rparr>;
                  (m, ok, t) = (if n > 0 then tcp_write w (take n b) (local_tcp s1) else (0, True, local_tcp s1));
                  s2 = s1\<lparr>local_tcp := t\<rparr>
              in if \<not> ok \<or> m \<noteq> n then down_failed now s2
                 else
                   (case er of
                      None \<Rightarrow> ([], s2)
                    | Some e \<Rightarrow> if e = EOF then down_finished now s2 else down_failed now s2))))"

text \<open>
  The events. An arriving block is an event only when the ordered queue takes it; \<open>biRelay\<close> ends when
  both goroutines have.
\<close>

datatype bi_event =
  UpRound "nat \<Rightarrow> i64" net_read
| DownRound nat i64 "bool list" net_write
| Arrives Block
| Finish i64

definition bi_step :: "bi_state \<Rightarrow> bi_event \<Rightarrow> (Block list \<times> bi_state) option" where
  "bi_step s ev =
     (case ev of
        UpRound now r \<Rightarrow> Some (up_round now r s)
      | DownRound fuel now pick w \<Rightarrow> Some (down_round fuel now pick w s)
      | Arrives blk \<Rightarrow>
          (case chan_send (orderedRecvQueue (proxy s)) blk of
             Sent q \<Rightarrow> Some ([], s\<lparr>proxy := (proxy s)\<lparr>orderedRecvQueue := q\<rparr>\<rparr>)
           | _ \<Rightarrow> None)
      | Finish now \<Rightarrow>
          if up s = Over \<and> down s = Over \<and> \<not> bi_over s
          then map_option (\<lambda>(blks, s'). (blks, s'\<lparr>bi_over := True\<rparr>)) (close_both now s)
          else None)"

fun bi_run :: "bi_state \<Rightarrow> bi_event list \<Rightarrow> (Block list \<times> bi_state) option" where
  "bi_run s [] = Some ([], s)"
| "bi_run s (ev # evs) =
     (case bi_step s ev of
        None \<Rightarrow> None
      | Some (blks, s1) \<Rightarrow>
          (case bi_run s1 evs of
             None \<Rightarrow> None
           | Some (blks', s2) \<Rightarrow> Some (blks @ blks', s2)))"

section \<open>What the operations send\<close>

lemma Write_sent:
  assumes "Write now d c = (n, er, blks, c')"
  shows "sends c blks c'"
    and "concat (map data_of blks) = (if er = None then d else [])"
    and "er = None \<Longrightarrow> n = length d"
    and "dataBuffer c' = dataBuffer c" "orderedRecvQueue c' = orderedRecvQueue c" "recvQueue c' = recvQueue c"
proof -
  obtain bs c1 where sd: "sendData now d c = (bs, c1)"
    by fastforce
  note facts = sendData_sends [OF sd] sendData_data [OF sd]
  obtain p where p: "c1 = c\<lparr>processor := p\<rparr>"
    using sendData_frame [OF sd] by blast
  show "sends c blks c'" "concat (map data_of blks) = (if er = None then d else [])"
    "er = None \<Longrightarrow> n = length d" "dataBuffer c' = dataBuffer c" "orderedRecvQueue c' = orderedRecvQueue c"
    "recvQueue c' = recvQueue c"
    using assms sd facts p sends_refl [of c c]
    by (auto simp: Write_def sends_def split: if_splits)
qed

lemma Close_sent:
  assumes "Close now c = Some (blks, c')"
  shows "sends c blks c'" and "concat (map data_of blks) = []"
proof -
  have "sends c blks c' \<and> concat (map data_of blks) = []"
  proof (cases "closed c")
    case True
    then show ?thesis
      using assms by (auto simp: Close_def Stop_def intro: sends_refl)
  next
    case False
    obtain bs c1 where sd: "SendDisconnect now ShutdownBoth (c\<lparr>closed := True\<rparr>) = (bs, c1)"
      by fastforce
    then have "blks = bs" "processor c' = processor c1" "connectionID c' = connectionID c1"
      using assms False by (auto simp: Close_def Stop_def split: option.splits)
    then show ?thesis
      using sends_cong [OF SendDisconnect_sends [OF sd], of c' c] SendDisconnect_block [OF sd]
      by (auto simp: data_of_def)
  qed
  then show "sends c blks c'" "concat (map data_of blks) = []"
    by blast+
qed

lemma close_both_sent:
  assumes "close_both now s = Some (blks, s')"
  shows "sends (proxy s) blks (proxy s')" and "concat (map data_of blks) = []"
    and "tcp_closed (local_tcp s')" and "tcp_out (local_tcp s') = tcp_out (local_tcp s)"
    and "up s' = up s" and "down s' = down s"
proof -
  obtain c where "Close now (proxy s) = Some (blks, c)"
    and "s' = s\<lparr>local_tcp := (local_tcp s)\<lparr>tcp_closed := True\<rparr>, proxy := c\<rparr>"
    using assms by (auto simp: close_both_def split: option.splits)
  then show "sends (proxy s) blks (proxy s')" "concat (map data_of blks) = []"
    "tcp_closed (local_tcp s')" "tcp_out (local_tcp s') = tcp_out (local_tcp s)" "up s' = up s" "down s' = down s"
    using Close_sent by auto
qed

text \<open>The two ways a relay ends, for either direction: what is sent and what becomes of the socket.\<close>

definition ends_relay :: "bi_state \<Rightarrow> Block list \<Rightarrow> bi_state \<Rightarrow> bool" where
  "ends_relay s blks s' \<longleftrightarrow>
     sends (proxy s) blks (proxy s') \<and> concat (map data_of blks) = [] \<and>
     tcp_out (local_tcp s') = tcp_out (local_tcp s) \<and>
     (tcp_closed (local_tcp s) \<longrightarrow> tcp_closed (local_tcp s')) \<and>
     (tcp_closed (local_tcp s') \<or>
      dataBuffer (proxy s') = dataBuffer (proxy s) \<and> orderedRecvQueue (proxy s') = orderedRecvQueue (proxy s) \<and>
      recvQueue (proxy s') = recvQueue (proxy s))"

lemma relay_failed_ends:
  assumes "relay_failed now s = Some (blks, s')"
  shows "ends_relay s blks s' \<and> up s' = up s \<and> down s' = down s"
proof -
  let ?s = "s\<lparr>proxy := SetDeadline now (proxy s)\<rparr>"
  have cb: "close_both now ?s = Some (blks, s')"
    using assms by (simp add: relay_failed_def)
  have "sends (proxy s) blks (proxy s')"
    using sends_cong [OF close_both_sent(1) [OF cb], of "proxy s'" "proxy s"]
    by (simp add: SetDeadline_def SetReadDeadline_def SetWriteDeadline_def)
  then show ?thesis
    using close_both_sent [OF cb] by (simp add: ends_relay_def)
qed

lemma up_failed_ends: "up_failed now s = (blks, s') \<Longrightarrow> ends_relay s blks s' \<and> up s' \<noteq> Copying \<and> down s' = down s"
  using relay_failed_ends [of now s]
  by (auto simp: up_failed_def ends_relay_def intro: sends_refl split: option.splits prod.splits)

lemma down_failed_ends: "down_failed now s = (blks, s') \<Longrightarrow> ends_relay s blks s' \<and> down s' \<notin> {Copying, Blocked} \<and> up s' = up s"
  using relay_failed_ends [of now s]
  by (auto simp: down_failed_def ends_relay_def intro: sends_refl split: option.splits prod.splits)

lemma half_close_ends:
  assumes "SendDisconnect now k (proxy s) = (blks, c)" and "k \<noteq> ShutdownBoth"
    and "proxy s' = c" and "tcp_out (local_tcp s') = tcp_out (local_tcp s)"
    and "tcp_closed (local_tcp s') = tcp_closed (local_tcp s)"
  shows "ends_relay s blks s'"
proof -
  obtain p where "c = (proxy s)\<lparr>processor := p\<rparr>"
    using SendDisconnect_frame [OF assms(1)] assms(2) by auto
  then show ?thesis
    using SendDisconnect_sends [OF assms(1)] SendDisconnect_block [OF assms(1)] assms(3-5)
    by (auto simp: ends_relay_def data_of_def)
qed

lemma up_finished_ends: "up_finished now s = (blks, s') \<Longrightarrow> ends_relay s blks s' \<and> up s' = Over \<and> down s' = down s"
  by (auto simp: up_finished_def CloseWrite_def split: prod.splits intro!: half_close_ends)

lemma down_finished_ends: "down_finished now s = (blks, s') \<Longrightarrow> ends_relay s blks s' \<and> down s' = Over \<and> up s' = up s"
  by (auto simp: down_finished_def CloseRead_def split: prod.splits intro!: half_close_ends)

section \<open>Lemmas about single rounds\<close>

fun up_data :: "bi_event \<Rightarrow> byte list" where
  "up_data (UpRound _ (ReadOk d)) = d"
| "up_data _ = []"

fun down_data :: "bi_event \<Rightarrow> byte list" where
  "down_data (Arrives blk) = data_of blk"
| "down_data _ = []"

text \<open>
  A round of the upload either writes its data and goes on, or ends without data, or has nothing to do.
\<close>

lemma up_round_cases:
  assumes "up_round now r s = (blks, s')"
  shows "down s' = down s \<and>
    (blks = [] \<and> s' = s \<and> (up s = Copying \<longrightarrow> up_data (UpRound now r) = []) \<or>
     up s = Copying \<and> up s' \<noteq> Copying \<and> ends_relay s blks s' \<or>
     up s = Copying \<and> (\<exists>c. s' = s\<lparr>proxy := c\<rparr> \<and> sends (proxy s) blks c \<and>
       concat (map data_of blks) = up_data (UpRound now r) \<and>
       dataBuffer c = dataBuffer (proxy s) \<and> orderedRecvQueue c = orderedRecvQueue (proxy s) \<and>
       recvQueue c = recvQueue (proxy s)))"
proof (cases "up s = Copying")
  case False
  then show ?thesis
    using assms by (simp add: up_round_def)
next
  case copying: True
  show ?thesis
  proof (cases "tcp_read r (local_tcp s)")
    case (ReadOk d)
    then have r: "r = ReadOk d"
      by (auto simp: tcp_read_def split: if_splits)
    obtain n er bs c where w: "Write now d (proxy s) = (n, er, bs, c)"
      by (metis prod_cases4)
    consider "d = []" | "d \<noteq> []" "er = None" | "d \<noteq> []" "er \<noteq> None"
      by blast
    then show ?thesis
    proof cases
      case 1
      then show ?thesis
        using assms copying ReadOk r by (simp add: up_round_def)
    next
      case 2
      then have "blks = bs" "s' = s\<lparr>proxy := c\<rparr>"
        using assms copying ReadOk w Write_sent(3) [OF w] by (auto simp: up_round_def)
      then show ?thesis
        using copying 2 r Write_sent [OF w] by auto
    next
      case 3
      have c: "bs = []" "c = proxy s"
        using 3 w by (auto simp: Write_def split: if_splits prod.splits)
      then have "up_failed (now 0) s = (blks, s')"
        using 3 assms copying ReadOk w by (auto simp: up_round_def split: prod.splits)
      then show ?thesis
        using up_failed_ends copying by blast
    qed
  qed (use assms copying up_failed_ends up_finished_ends in \<open>auto simp: up_round_def\<close>)
qed

lemma tcp_write_on_closed: "tcp_closed t \<Longrightarrow> tcp_write w d t = (m, ok, t') \<Longrightarrow> t' = t"
  by (simp add: tcp_write_def)

lemma tcp_write_out:
  assumes "tcp_write w d t = (m, ok, t')"
  shows "tcp_closed t' = tcp_closed t" and "\<exists>k. tcp_out t' = tcp_out t @ take k d"
    and "ok \<Longrightarrow> m = length d \<and> tcp_out t' = tcp_out t @ d"
proof -
  show "tcp_closed t' = tcp_closed t"
    using assms by (auto simp: tcp_write_def split: if_splits net_write.splits)
  show "\<exists>k. tcp_out t' = tcp_out t @ take k d"
    using assms by (auto simp: tcp_write_def split: if_splits net_write.splits
        intro: exI [of _ 0] exI [of _ "length d"])
  show "ok \<Longrightarrow> m = length d \<and> tcp_out t' = tcp_out t @ d"
    using assms by (auto simp: tcp_write_def split: if_splits net_write.splits)
qed

text \<open>Reads touch neither what a connection sends nor its receive queue.\<close>

lemma readBlock_sender:
  "readBlock now blk n b c = Some (er, n', b', c') \<Longrightarrow> processor c' = processor c \<and> connectionID c' = connectionID c \<and> recvQueue c' = recvQueue c"
  by (auto simp: readBlock_def SetLastActive_def Let_def split: if_splits list.splits prod.splits)

lemma take_ordered_sender:
  "take_ordered c = Some (blk, c') \<Longrightarrow> processor c' = processor c \<and> connectionID c' = connectionID c \<and> recvQueue c' = recvQueue c"
  by (auto simp: take_ordered_def split: recv_result.splits)

lemma read_closed_loop_sender:
  "read_closed_loop fuel now n b c = Returned n' er b' c' \<Longrightarrow>
     processor c' = processor c \<and> connectionID c' = connectionID c \<and> recvQueue c' = recvQueue c"
proof (induction fuel arbitrary: n b c)
  case (Suc fuel)
  show ?case
    using Suc.prems Suc.IH
    by (fastforce split: option.splits if_splits dest!: readBlock_sender take_ordered_sender)
qed simp

lemma read_more_loop_sender:
  "read_more_loop fuel now pick n b c = Returned n' er b' c' \<Longrightarrow>
     processor c' = processor c \<and> connectionID c' = connectionID c \<and> recvQueue c' = recvQueue c"
proof (induction fuel arbitrary: pick n b c)
  case (Suc fuel)
  show ?case
  proof (cases "take_ordered c")
    case (Some x)
    obtain blk c1 where x: "x = (blk, c1)"
      by fastforce
    obtain skip pick' where sk: "(if readCtxDone now c then choose_done pick else (False, pick)) = (skip, pick')"
      by fastforce
    show ?thesis
      using Suc.prems Suc.IH take_ordered_sender [of c blk c1]
      by (auto simp: Some x sk split: if_splits option.splits dest!: readBlock_sender)
  qed (use Suc.prems in auto)
qed simp

lemma read_first_sender:
  "read_first fuel now pick b c = Returned n' er b' c' \<Longrightarrow>
     processor c' = processor c \<and> connectionID c' = connectionID c \<and> recvQueue c' = recvQueue c"
  by (auto simp: read_first_def split: prod.splits bool.splits option.splits if_splits
      dest!: readBlock_sender take_ordered_sender read_more_loop_sender)

lemma Read_sender:
  "Read fuel now pick b c = Returned n' er b' c' \<Longrightarrow>
     processor c' = processor c \<and> connectionID c' = connectionID c \<and> recvQueue c' = recvQueue c"
  by (auto simp: Read_def Let_def split: prod.splits if_splits
      dest!: read_closed_loop_sender read_first_sender read_more_loop_sender)

lemma down_read_sender:
  "down_read fuel now pick s = Returned n er b c \<Longrightarrow>
     processor c = processor (proxy s) \<and> connectionID c = connectionID (proxy s) \<and> recvQueue c = recvQueue (proxy s)"
  using Read_sender read_first_sender by (auto simp: down_read_def split: if_splits)

text \<open>A round of the download sends no data, numbers what it sends and leaves the upload alone.\<close>

lemma ends_relay_data [simp]: "ends_relay s blks s' \<Longrightarrow> concat (map data_of blks) = []"
  by (simp add: ends_relay_def)

definition quiet_round :: "bi_state \<Rightarrow> Block list \<Rightarrow> bi_state \<Rightarrow> bool" where
  "quiet_round s blks s' \<longleftrightarrow>
     sends (proxy s) blks (proxy s') \<and> concat (map data_of blks) = [] \<and> up s' = up s"

lemma quiet_roundI:
  assumes "ends_relay s1 blks s'" and "up s' = up s"
    and "processor (proxy s1) = processor (proxy s)" and "connectionID (proxy s1) = connectionID (proxy s)"
  shows "quiet_round s blks s'"
  using assms sends_cong [of "proxy s1" blks "proxy s'" "proxy s'" "proxy s"]
  by (simp add: quiet_round_def ends_relay_def)

text \<open>
  The outcomes of a round of the download: nothing is read, or what was read goes to the socket, and
  the loop goes on or ends.
\<close>

lemma down_round_cases:
  assumes "down_round fuel now pick w s = (blks, s')"
  obtains d where "blks = []" and "s' = s\<lparr>down := d\<rparr>"
      and "d = Blocked \<Longrightarrow> down s = Blocked \<or> down_read fuel now pick s = Waits"
  | n er b c m ok t where "down_read fuel now pick s = Returned n er b c"
      and "(if n > 0 then tcp_write w (take n b) (local_tcp s) else (0, True, local_tcp s)) = (m, ok, t)"
      and "blks = [] \<and> ok \<and> m = n \<and> s' = s\<lparr>proxy := c, down := Copying, local_tcp := t\<rparr> \<or>
        ok \<and> m = n \<and> down_finished now (s\<lparr>proxy := c, down := Copying, local_tcp := t\<rparr>) = (blks, s') \<or>
        (ok \<and> m = n \<or> \<not> ok \<or> m \<noteq> n) \<and> down_failed now (s\<lparr>proxy := c, down := Copying, local_tcp := t\<rparr>) = (blks, s')"
proof (cases "\<exists>n er b c. down_read fuel now pick s = Returned n er b c \<and> (down s = Copying \<or> down s = Blocked)")
  case False
  then show ?thesis
    using assms
    by (intro that(1) [of "down s'"]) (auto simp: down_round_def split: if_splits read_result.splits)
next
  case True
  then obtain n er b c where rd: "down_read fuel now pick s = Returned n er b c"
    and busy: "down s = Copying \<or> down s = Blocked"
    by blast
  obtain m ok t where wr: "(if n > 0 then tcp_write w (take n b) (local_tcp s) else (0, True, local_tcp s)) = (m, ok, t)"
    by (metis prod_cases3)
  show ?thesis
    by (rule that(2) [OF rd wr])
      (use assms busy rd wr in \<open>auto simp: down_round_def Let_def split: if_splits option.splits prod.splits\<close>)
qed

lemma down_round_quiet:
  assumes "down_round fuel now pick w s = (blks, s')"
  shows "quiet_round s blks s'"
  using assms
proof (cases rule: down_round_cases)
  case (1 d)
  then show ?thesis
    by (simp add: quiet_round_def sends_refl)
next
  case (2 n er b c m ok t)
  let ?s2 = "s\<lparr>proxy := c, down := Copying, local_tcp := t\<rparr>"
  have same: "processor (proxy ?s2) = processor (proxy s)" "connectionID (proxy ?s2) = connectionID (proxy s)"
    using down_read_sender [OF 2(1)] by auto
  have "ends_relay ?s2 blks s' \<and> up s' = up s \<or> blks = [] \<and> s' = ?s2"
    using 2(3) down_failed_ends [of now ?s2 blks s'] down_finished_ends [of now ?s2 blks s'] by auto
  then show ?thesis
  proof
    assume "ends_relay ?s2 blks s' \<and> up s' = up s"
    then show ?thesis
      using quiet_roundI [OF _ _ same] by blast
  next
    assume "blks = [] \<and> s' = ?s2"
    then show ?thesis
      using same by (simp add: quiet_round_def sends_refl)
  qed
qed

lemma bi_step_sent:
  assumes "bi_step s ev = Some (blks, s')"
  shows "sends (proxy s) blks (proxy s') \<and> (up s \<noteq> Copying \<longrightarrow> up s' \<noteq> Copying) \<and>
    (if up s' = Copying then concat (map data_of blks) = up_data ev else concat (map data_of blks) = [])"
proof (cases ev)
  case (UpRound now r)
  then have "up_round now r s = (blks, s')"
    using assms by (simp add: bi_step_def)
  from up_round_cases [OF this] show ?thesis
    using UpRound by (auto simp: ends_relay_def intro: sends_refl)
next
  case (DownRound fuel now pick w)
  then have "quiet_round s blks s'"
    using assms down_round_quiet by (simp add: bi_step_def)
  then show ?thesis
    using DownRound by (simp add: quiet_round_def)
next
  case (Arrives blk)
  then show ?thesis
    using assms by (auto simp: bi_step_def intro: sends_refl split: send_result.splits)
next
  case (Finish now)
  then obtain s1 where "close_both now s = Some (blks, s1)" "s' = s1\<lparr>bi_over := True\<rparr>" "up s = Over"
    using assms by (auto simp: bi_step_def split: if_splits)
  then show ?thesis
    using close_both_sent [of now s blks s1] Finish by simp
qed

section \<open>The stream to the local socket\<close>

text \<open>
  As long as the socket is open, the bytes it accepted and those still pending are the whole stream
  \<open>d\<close>; after that the accepted bytes stay a prefix of it.
\<close>

definition carries :: "byte list \<Rightarrow> bi_state \<Rightarrow> bool" where
  "carries d s \<longleftrightarrow>
     (if tcp_closed (local_tcp s) then \<exists>rest. tcp_out (local_tcp s) @ rest = d
      else conn_ok (proxy s) \<and> \<not> chan_closed (recvQueue (proxy s)) \<and> (down s = Blocked \<longrightarrow> rb_contents (dataBuffer (proxy s)) = []) \<and>
        tcp_out (local_tcp s) @ pending (proxy s) = d)"

lemma pending_cong:
  "dataBuffer c' = dataBuffer c \<Longrightarrow> orderedRecvQueue c' = orderedRecvQueue c \<Longrightarrow>
     pending c' = pending c \<and> conn_ok c' = conn_ok c"
  by (simp add: pending_def conn_ok_def)

lemma carries_prefix: "carries d s \<Longrightarrow> \<exists>rest. tcp_out (local_tcp s) @ rest = d"
  by (auto simp: carries_def split: if_splits)

lemma ends_relay_carries:
  assumes "carries d s" and "ends_relay s blks s'" and "down s' = Blocked \<Longrightarrow> down s = Blocked"
  shows "carries d s'"
proof (cases "tcp_closed (local_tcp s')")
  case True
  then show ?thesis
    using carries_prefix [OF assms(1)] assms(2) by (simp add: carries_def ends_relay_def)
next
  case False
  then have "\<not> tcp_closed (local_tcp s)" "dataBuffer (proxy s') = dataBuffer (proxy s)"
      "orderedRecvQueue (proxy s') = orderedRecvQueue (proxy s)" "recvQueue (proxy s') = recvQueue (proxy s)"
    using assms(2) by (auto simp: ends_relay_def)
  then show ?thesis
    using False assms pending_cong [of "proxy s'" "proxy s"] by (auto simp: carries_def ends_relay_def)
qed

text \<open>A \<open>Read\<close> that waits has found the leftover buffer empty.\<close>

lemma Read_Waits:
  assumes "conn_ok c" and "Read fuel now pick b c = Waits" and "b \<noteq> []"
  shows "rb_contents (dataBuffer c) = []"
proof (rule ccontr)
  assume ne: "rb_contents (dataBuffer c) \<noteq> []"
  have wf: "rb_wf (dataBuffer c)"
    using assms(1) by (simp add: conn_ok_def)
  obtain m b1 rb where rd: "rb_Read (dataBuffer c) b = (m, b1, rb)"
    by (metis prod_cases3)
  have "m \<noteq> 0"
    using ring.rd_count [OF wf rd] ne assms(3) by simp
  have no_wait: "read_closed_loop f now k x c1 \<noteq> Waits" "read_more_loop f now ps k x c1 \<noteq> Waits" for f k x c1 ps
  proof -
    show "read_closed_loop f now k x c1 \<noteq> Waits"
      by (induction f arbitrary: k x c1) (auto split: option.splits)
    show "read_more_loop f now ps k x c1 \<noteq> Waits"
      by (induction f arbitrary: k x c1 ps) (auto simp: Let_def split: option.splits prod.splits)
  qed
  show False
    using assms(2) ne rd \<open>m \<noteq> 0\<close> no_wait ring.empty_iff [OF wf]
    by (auto simp: Read_def split: if_splits)
qed

lemma copy_buf_nonempty [simp]: "copy_buf \<noteq> []"
  by (simp add: copy_buf_def)

lemma down_read_got:
  assumes "conn_ok (proxy s)" and "down s = Blocked \<Longrightarrow> rb_contents (dataBuffer (proxy s)) = []"
    and "down_read fuel now pick s = Returned n er b c"
  shows "pending (proxy s) = take n b @ pending c \<and> conn_ok c"
proof -
  have "\<exists>d. got d 0 n copy_buf b \<and> pending (proxy s) = d @ pending c \<and> conn_ok c"
  proof (cases "down s = Blocked")
    case True
    then show ?thesis
      using assms(3) read_first_got [OF assms(1) assms(2) [OF True]] by (simp add: down_read_def)
  next
    case False
    then show ?thesis
      using assms(3) Read_got [OF assms(1)] by (simp add: down_read_def)
  qed
  then show ?thesis
    using got_prefix by fastforce
qed

text \<open>Closing an open pair cannot fail.\<close>

lemma down_failed_closes:
  assumes "down_failed now s = (blks, s')" and "conn_ok (proxy s)" and "\<not> chan_closed (recvQueue (proxy s))"
  shows "tcp_closed (local_tcp s')"
  using assms
  by (auto simp: down_failed_def relay_failed_def close_both_def Close_def conn_ok_def chan_close_def SendDisconnect_def
      SetDeadline_def SetReadDeadline_def SetWriteDeadline_def Stop_def Let_def split: if_splits prod.splits)

text \<open>A failed write of what was read: the bytes that did not get out are lost with the socket.\<close>

lemma failed_write_carries:
  assumes "carries d s" and "\<not> tcp_closed (local_tcp s)" and "pending (proxy s) = take n b @ pending c"
    and "tcp_out t = tcp_out (local_tcp s) @ take k (take n b)" and "conn_ok c" and "\<not> chan_closed (recvQueue c)"
    and "down_failed now (s\<lparr>proxy := c, down := Copying, local_tcp := t\<rparr>) = (blks, s')"
  shows "carries d s'"
proof -
  have d: "d = tcp_out (local_tcp s) @ (take k (take n b) @ drop k (take n b)) @ pending c"
    using assms(1-3) unfolding append_take_drop_id by (simp add: carries_def)
  have "tcp_out (local_tcp s') = tcp_out t" "tcp_closed (local_tcp s')"
    using down_failed_ends [OF assms(7)] down_failed_closes [OF assms(7)] assms(5,6)
    by (auto simp: ends_relay_def conn_ok_def)
  then show ?thesis
    using d assms(4) by (simp add: carries_def)
qed

lemma down_round_carries:
  assumes "carries d s" and "down_round fuel now pick w s = (blks, s')"
  shows "carries d s'"
  using assms(2)
proof (cases rule: down_round_cases)
  case (1 x)
  have "rb_contents (dataBuffer (proxy s)) = []" if "x = Blocked" "\<not> tcp_closed (local_tcp s)"
    using 1(3) [OF that(1)] assms(1) that(2) Read_Waits [of "proxy s" fuel now pick copy_buf]
    by (auto simp: carries_def down_read_def split: if_splits)
  then show ?thesis
    using assms(1) 1(2) by (simp add: carries_def)
next
  case (2 n er b c m ok t)
  let ?s2 = "s\<lparr>proxy := c, down := Copying, local_tcp := t\<rparr>"
  have tc: "tcp_closed t = tcp_closed (local_tcp s)" "\<exists>k. tcp_out t = tcp_out (local_tcp s) @ take k (take n b)"
      "ok \<and> m = n \<Longrightarrow> tcp_out t = tcp_out (local_tcp s) @ take n b"
    using 2(2) tcp_write_out [of w "take n b" "local_tcp s" m ok t] by (auto split: if_splits intro: exI [of _ 0])
  have go_on: ?thesis if "carries d ?s2"
    using that 2(3) ends_relay_carries [of d ?s2 blks s'] down_failed_ends [of now ?s2 blks s']
      down_finished_ends [of now ?s2 blks s'] by auto
  show ?thesis
  proof (cases "tcp_closed (local_tcp s)")
    case True
    have "t = local_tcp s"
      using 2(2) True tcp_write_on_closed by (auto split: if_splits)
    then show ?thesis
      using go_on assms(1) True by (simp add: carries_def)
  next
    case False
    then have str: "pending (proxy s) = take n b @ pending c" "conn_ok c" "\<not> chan_closed (recvQueue c)"
      using down_read_got [OF _ _ 2(1)] down_read_sender [OF 2(1)] assms(1) by (auto simp: carries_def)
    show ?thesis
    proof (cases "ok \<and> m = n")
      case True
      then show ?thesis
        using go_on assms(1) False str tc by (simp add: carries_def)
    next
      case failed: False
      then show ?thesis
        using failed_write_carries [OF assms(1) False str(1) _ str(2,3)] tc(2) 2(3) by auto
    qed
  qed
qed

lemma up_round_carries:
  assumes "carries d s" and "up_round now r s = (blks, s')"
  shows "carries d s'"
proof -
  from up_round_cases [OF assms(2)] consider "s' = s" | "ends_relay s blks s'" "down s' = down s"
    | c where "s' = s\<lparr>proxy := c\<rparr>" "dataBuffer c = dataBuffer (proxy s)" "orderedRecvQueue c = orderedRecvQueue (proxy s)"
        "recvQueue c = recvQueue (proxy s)"
    by blast
  then show ?thesis
  proof cases
    case 1
    then show ?thesis using assms(1) by simp
  next
    case 2
    show ?thesis by (rule ends_relay_carries [OF assms(1) 2(1)]) (simp add: 2(2))
  next
    case (3 c)
    then show ?thesis
      using assms(1) pending_cong [of c "proxy s"] by (simp add: carries_def)
  qed
qed

lemma bi_step_carries:
  assumes "carries d s" and "bi_step s ev = Some (blks, s')"
  shows "carries (d @ down_data ev) s'"
proof (cases ev)
  case (Arrives blk)
  then obtain q where q: "chan_send (orderedRecvQueue (proxy s)) blk = Sent q"
    and s': "s' = s\<lparr>proxy := (proxy s)\<lparr>orderedRecvQueue := q\<rparr>\<rparr>"
    using assms(2) by (auto simp: bi_step_def split: send_result.splits)
  have "pending (proxy s') = pending (proxy s) @ data_of blk" "conn_ok (proxy s) \<longrightarrow> conn_ok (proxy s')"
    using q s' by (auto simp: chan_send_Sent_iff pending_def conn_ok_def)
  then show ?thesis
    using assms(1) s' Arrives by (auto simp: carries_def)
next
  case (Finish now)
  then obtain s1 where "close_both now s = Some (blks, s1)" "s' = s1\<lparr>bi_over := True\<rparr>"
    using assms(2) by (auto simp: bi_step_def split: if_splits)
  then show ?thesis
    using close_both_sent [of now s blks s1] carries_prefix [OF assms(1)] Finish by (simp add: carries_def)
next
  case (UpRound now r)
  then have "up_round now r s = (blks, s')"
    using assms(2) by (simp add: bi_step_def)
  then show ?thesis
    using up_round_carries [OF assms(1)] UpRound by simp
next
  case (DownRound fuel now pick w)
  then have "down_round fuel now pick w s = (blks, s')"
    using assms(2) by (simp add: bi_step_def)
  then show ?thesis
    using down_round_carries [OF assms(1)] DownRound by simp
qed

lemma bi_run_carries:
  "carries d s \<Longrightarrow> bi_run s evs = Some (blks, s') \<Longrightarrow> carries (d @ concat (map down_data evs)) s'"
proof (induction evs arbitrary: s d blks)
  case (Cons ev evs)
  then obtain b1 s1 b2 where st: "bi_step s ev = Some (b1, s1)" and run: "bi_run s1 evs = Some (b2, s')"
    by (auto split: option.splits)
  show ?case
    using Cons.IH [OF bi_step_carries [OF Cons.prems(1) st] run] by simp
qed simp

lemma bi_run_sent:
  "bi_run s evs = Some (blks, s') \<Longrightarrow>
     sends (proxy s) blks (proxy s') \<and> (up s \<noteq> Copying \<longrightarrow> up s' \<noteq> Copying \<and> concat (map data_of blks) = []) \<and>
     (\<exists>k. concat (map data_of blks) = concat (map up_data (take k evs)) \<and> (up s' = Copying \<longrightarrow> k = length evs))"
proof (induction evs arbitrary: s blks)
  case Nil
  then show ?case by (auto intro: sends_refl)
next
  case (Cons ev evs)
  then obtain b1 s1 b2 where st: "bi_step s ev = Some (b1, s1)" and run: "bi_run s1 evs = Some (b2, s')"
    and blks: "blks = b1 @ b2"
    by (auto split: option.splits)
  note h1 = bi_step_sent [OF st] and h2 = Cons.IH [OF run]
  have "\<exists>k. concat (map data_of blks) = concat (map up_data (take k (ev # evs))) \<and>
      (up s' = Copying \<longrightarrow> k = length (ev # evs))"
  proof (cases "up s1 = Copying")
    case True
    obtain k where k: "concat (map data_of b2) = concat (map up_data (take k evs))" "up s' = Copying \<longrightarrow> k = length evs"
      using h2 by blast
    have "concat (map data_of b1) = up_data ev"
      using h1 True by simp
    then show ?thesis
      using k by (intro exI [of _ "Suc k"]) (simp add: blks)
  next
    case False
    then show ?thesis
      using h1 h2 by (intro exI [of _ 0]) (simp add: blks)
  qed
  moreover have "sends (proxy s) blks (proxy s')"
    using h1 h2 sends_trans blks by blast
  moreover have "up s' \<noteq> Copying \<and> concat (map data_of blks) = []" if "up s \<noteq> Copying"
    using h1 h2 that by (auto simp: blks split: if_splits)
  ultimately show ?case
    by blast
qed

section \<open>Properties of the client's relay\<close>

text \<open>
  C14: what the client sends upstream. In every interleaved run of the two copy loops the blocks sent
  carry the connection's number and consecutive block numbers from its counter on; their data is the
  concatenation of what the reads of the local socket returned, up to the last one while the upload
  goes on and up to the round that ended it otherwise.
\<close>

theorem client_upload_stream:
  assumes "bi_run (bi_start t c) evs = Some (blks, s')"
  shows "sends c blks (proxy s') \<and>
    (\<exists>k. concat (map data_of blks) = concat (map up_data (take k evs)) \<and> (up s' = Copying \<longrightarrow> k = length evs))"
  using bi_run_sent [OF assms] by (simp add: bi_start_def)

definition relay_script :: "bi_event list" where
  "relay_script = [UpRound (\<lambda>_. 0) (ReadOk [7, 8]), Arrives (sample_data 0 [1, 2, 3]),
     DownRound 3 0 [] WriteOk, UpRound (\<lambda>_. 0) (ReadOk [9])]"

lemma length_copy_buf [simp]: "length copy_buf = 32768"
  by (simp add: copy_buf_def)

lemma Write_open:
  "\<not> writeClosed c \<Longrightarrow> \<not> closed c \<Longrightarrow>
     \<exists>bs p. Write now d c = (length d, None, bs, c\<lparr>processor := p, SentBytes := SentBytes c + of_nat (length d)\<rparr>)"
  by (cases "packData now (processor c) d (connectionID c)") (auto simp: Write_def sendData_def)

lemma up_round_open:
  assumes "up s = Copying" and "\<not> tcp_closed (local_tcp s)" and "\<not> tcp_rd_closed (local_tcp s)" and "d \<noteq> []"
    and "\<not> writeClosed (proxy s)" and "\<not> closed (proxy s)"
  shows "\<exists>bs p n. up_round now (ReadOk d) s = (bs, s\<lparr>proxy := (proxy s)\<lparr>processor := p, SentBytes := n\<rparr>\<rparr>)"
proof -
  obtain bs p where "Write now d (proxy s) =
      (length d, None, bs, (proxy s)\<lparr>processor := p, SentBytes := SentBytes (proxy s) + of_nat (length d)\<rparr>)"
    using Write_open [OF assms(5,6)] by blast
  then have "up_round now (ReadOk d) s =
      (bs, s\<lparr>proxy := (proxy s)\<lparr>processor := p, SentBytes := SentBytes (proxy s) + of_nat (length d)\<rparr>\<rparr>)"
    using assms(1-4) by (simp add: up_round_def tcp_read_def)
  then show ?thesis
    by blast
qed

lemma relay_script_runs:
  "\<exists>blks s'. bi_run (bi_start tcp_open (sample_conn [])) relay_script = Some (blks, s') \<and> up s' = Copying \<and>
     tcp_out (local_tcp s') = [1, 2, 3] \<and> \<not> tcp_closed (local_tcp s')"
proof -
  let ?s0 = "bi_start tcp_open (sample_conn [])"
  note defs = bi_start_def tcp_open_def sample_conn_def NewInboundConnection_def
  obtain b1 p1 n1 where r1: "up_round (\<lambda>_. 0) (ReadOk [7, 8]) ?s0 =
      (b1, ?s0\<lparr>proxy := (sample_conn [])\<lparr>processor := p1, SentBytes := n1\<rparr>\<rparr>)"
    using up_round_open [of ?s0 "[7, 8]" "\<lambda>_. 0"] by (auto simp: defs)
  let ?c2 = "(sample_conn [sample_data 0 [1, 2, 3]])\<lparr>processor := p1, SentBytes := n1\<rparr>"
  have r2: "bi_step (?s0\<lparr>proxy := (sample_conn [])\<lparr>processor := p1, SentBytes := n1\<rparr>\<rparr>) (Arrives (sample_data 0 [1, 2, 3])) =
      Some ([], ?s0\<lparr>proxy := ?c2\<rparr>)"
    by (simp add: bi_step_def chan_send_def defs)
  obtain c3 where r3: "down_round 3 0 [] WriteOk (?s0\<lparr>proxy := ?c2\<rparr>) =
      ([], ?s0\<lparr>proxy := c3, local_tcp := tcp_open\<lparr>tcp_out := [1, 2, 3]\<rparr>\<rparr>)"
      "\<not> writeClosed c3" "\<not> closed c3"
  proof -
    let ?c3 = "?c2\<lparr>orderedRecvQueue := \<lparr>chan_buf = [], chan_cap = 4, chan_closed = False\<rparr>, RecvBytes := 3\<rparr>"
    have "Read 3 0 [] copy_buf ?c2 = Returned 3 None ([1, 2, 3] @ drop 3 copy_buf) ?c3"
      by (simp add: sample_conn_def NewInboundConnection_def sample_data_def Read_def rb_Empty_def NewByteRingBuffer_def
          read_first_def select_done_def readCtxDone_def take_ordered_def chan_recv_def readBlock_def SetLastActive_def
          go_copy_def Let_def numeral_3_eq_3)
    then show thesis
      by (intro that [of ?c3]) (simp_all add: down_round_def down_read_def defs tcp_write_def)
  qed
  obtain b4 p4 n4 where r4: "up_round (\<lambda>_. 0) (ReadOk [9]) (?s0\<lparr>proxy := c3, local_tcp := tcp_open\<lparr>tcp_out := [1, 2, 3]\<rparr>\<rparr>) =
      (b4, ?s0\<lparr>local_tcp := tcp_open\<lparr>tcp_out := [1, 2, 3]\<rparr>, proxy := c3\<lparr>processor := p4, SentBytes := n4\<rparr>\<rparr>)"
    using up_round_open [of "?s0\<lparr>proxy := c3, local_tcp := tcp_open\<lparr>tcp_out := [1, 2, 3]\<rparr>\<rparr>" "[9]" "\<lambda>_. 0"] r3(2,3)
    by (auto simp: bi_start_def tcp_open_def)
  show ?thesis
    using r1 r2 r3(1) r4 by (simp add: relay_script_def bi_step_def) (simp add: bi_start_def tcp_open_def)
qed

theorem client_upload_stream_witness:
  "\<exists>blks s'. bi_run (bi_start tcp_open (sample_conn [])) relay_script = Some (blks, s') \<and>
     concat (map data_of blks) = [7, 8, 9]"
proof -
  obtain blks s' where r: "bi_run (bi_start tcp_open (sample_conn [])) relay_script = Some (blks, s')" and "up s' = Copying"
    using relay_script_runs by blast
  then show ?thesis
    using client_upload_stream [OF r] by (auto simp: relay_script_def)
qed

text \<open>
  C15: what the client writes to its local socket. In every interleaved run the bytes the socket has
  accepted are a prefix of what was pending on the connection followed by the data of the blocks that
  arrived, in order; as long as the socket has not been closed, the accepted bytes and those still
  pending are exactly that stream.
\<close>

theorem client_download_stream:
  assumes "conn_ok c" and "\<not> chan_closed (recvQueue c)" and "\<not> tcp_closed t"
    and "bi_run (bi_start t c) evs = Some (blks, s')"
  shows "\<exists>rest. tcp_out (local_tcp s') @ rest = tcp_out t @ pending c @ concat (map down_data evs) \<and>
    (\<not> tcp_closed (local_tcp s') \<longrightarrow> rest = pending (proxy s'))"
proof -
  have "carries (tcp_out t @ pending c) (bi_start t c)"
    using assms(1-3) by (simp add: carries_def bi_start_def)
  from bi_run_carries [OF this assms(4)] show ?thesis
    by (auto simp: carries_def split: if_splits)
qed

theorem client_download_stream_witness:
  "\<exists>blks s'. bi_run (bi_start tcp_open (sample_conn [])) relay_script = Some (blks, s') \<and>
     tcp_out (local_tcp s') @ pending (proxy s') = [1, 2, 3]"
proof -
  obtain blks s' where r: "bi_run (bi_start tcp_open (sample_conn [])) relay_script = Some (blks, s')"
    and "\<not> tcp_closed (local_tcp s')"
    using relay_script_runs by blast
  moreover have "\<not> chan_closed (recvQueue (sample_conn []))" "\<not> tcp_closed tcp_open" "pending (sample_conn []) = []"
      "tcp_out tcp_open = []"
    by (simp_all add: sample_conn_def NewInboundConnection_def tcp_open_def pending_def NewByteRingBuffer_def rb_contents_def)
  ultimately show ?thesis
    using client_download_stream [OF sample_conn_ok _ _ r] by (auto simp: relay_script_def sample_data_def data_of_def)
qed

end
