(* ===== verification/End_To_End.thy ===== *)
theory End_To_End
  imports Transport Client_Relay
begin

text \<open>
  The composition of the client's relay, the transport over many tunnels and the server's outbound
  connection: the bytes of a local application reach the target and the other way round. The parts are
  glued by what they hand over: the blocks a connection sends are those the transport accepts for its
  number, and the blocks the transport hands to a connection are those that arrive there.
\<close>

section \<open>Data of block lists\<close>

abbreviation data_in :: "Block list \<Rightarrow> byte list" where
  "data_in bs \<equiv> concat (map data_of bs)"

lemma data_of_canon [simp]: "data_of (canon b) = data_of b"
  by (simp add: data_of_def)

lemma data_in_canon [simp]: "data_in (map canon bs) = data_in bs"
  by (simp add: comp_def)

lemma data_in_prefix: "\<exists>rest. data_in (take k bs) @ rest = data_in bs"
  by (metis append_take_drop_id concat_append map_append)

lemma concat_prefix: "\<exists>rest. concat (map f (take k xs)) @ rest = concat (map f xs)"
  by (metis append_take_drop_id concat_append map_append)

text \<open>What the transport has handed over holds a prefix of the data that was sent.\<close>

lemma delivered_data:
  assumes "transport_reachable T" and "length (sent T i) < 2 ^ 32"
  shows "\<exists>rest. data_in (delivered T i) @ rest = data_in (sent T i)"
proof -
  obtain k where "delivered T i = map canon (take k (sent T i))"
    using delivered_prefix [OF assms] by blast
  then show ?thesis
    using data_in_prefix [of k "sent T i"] by (simp add: comp_def)
qed

text \<open>The ordered blocks that arrive in a run of the outbound connection and of the client's relay.\<close>

fun oc_arrivals :: "oc_event list \<Rightarrow> Block list" where
  "oc_arrivals [] = []"
| "oc_arrivals (Ordered b # evs) = b # oc_arrivals evs"
| "oc_arrivals (_ # evs) = oc_arrivals evs"

fun bi_arrivals :: "bi_event list \<Rightarrow> Block list" where
  "bi_arrivals [] = []"
| "bi_arrivals (Arrives b # evs) = b # bi_arrivals evs"
| "bi_arrivals (_ # evs) = bi_arrivals evs"

lemma oc_arrivals_data: "concat (map arriving evs) = data_in (oc_arrivals evs)"
  by (induction evs rule: oc_arrivals.induct) auto

lemma bi_arrivals_data: "concat (map down_data evs) = data_in (bi_arrivals evs)"
  by (induction evs rule: bi_arrivals.induct) auto

lemma delivered_all_data:
  assumes "transport_reachable T" and "length (sent T i) < 2 ^ 32" and "quiet T"
  shows "data_in (delivered T i) = data_in (sent T i)"
  using delivered_complete [OF assms] by (simp add: comp_def)

section \<open>From the local application to the target\<close>

text \<open>
  C1: upload, end to end. The client dials, so its connection has sent a connect block and then the
  blocks of the relay; the transport hands over blocks of that connection through any number of tunnels
  that may fail; the server's connection, once dialled, writes what it is handed. Then the bytes the
  target's socket has accepted are a prefix of the bytes read from the local application, whatever the
  interleaving on either side; and they are all of these bytes once nothing is under way in the
  transport, no block was dropped, nothing is queued for the socket, and neither the client's reading
  nor the server's writing has come to an end.
\<close>

theorem upload_end_to_end:
  assumes "bi_run (bi_start t c) evs = Some (blks, s')"
    and "transport_reachable T" and "length (sent T i) < 2 ^ 32"
    and "sent T i = NewConnectBlock now i 0 address # blks"
    and "HalfOpenConn oc = Some tcp_open" and "\<not> baseConnection.closed oc"
    and "oc_run (oc_started oc) oevs = (oblks, os')"
    and "chan_buf (orderedRecvQueue oc) @ oc_arrivals oevs = delivered T i"
  shows "(\<exists>rest. tcp_out (the_tcp os') @ rest = concat (map up_data evs)) \<and>
    (up s' = Copying \<and> quiet T \<and> \<not> tx_dead os' \<and> chan_buf (orderedRecvQueue (oc_conn os')) = [] \<longrightarrow>
     tcp_out (the_tcp os') = concat (map up_data evs))"
proof (intro conjI impI)
  have inv: "oc_inv (oc_conn (oc_started oc))" and alive: "\<not> tx_dead (oc_started oc)"
    and stream: "tx_stream (oc_started oc) = data_in (chan_buf (orderedRecvQueue oc))"
    using assms(5,6) by (simp_all add: oc_inv_def oc_started_def tx_dead_def the_tcp_def tcp_open_def tx_stream_def)
  have wrote: "\<exists>r. tcp_out (the_tcp os') @ r = data_in (delivered T i)"
      "\<not> tx_dead os' \<longrightarrow> tx_stream os' = data_in (delivered T i)"
    using oc_run_tx [OF inv assms(7)] alive by (auto simp: oc_arrivals_data stream simp flip: assms(8))
  have connect: "data_in (sent T i) = data_in blks"
    by (simp add: assms(4) data_of_def NewConnectBlock_def)
  obtain k where k: "data_in blks = concat (map up_data (take k evs))" "up s' = Copying \<longrightarrow> k = length evs"
    using bi_run_sent [OF assms(1)] by blast
  {
    assume "up s' = Copying \<and> quiet T \<and> \<not> tx_dead os' \<and> chan_buf (orderedRecvQueue (oc_conn os')) = []"
    then show "tcp_out (the_tcp os') = concat (map up_data evs)"
      using wrote(2) delivered_all_data [OF assms(2,3)] connect k by (simp add: tx_stream_def)
  }
  obtain r1 where r1: "tcp_out (the_tcp os') @ r1 = data_in (delivered T i)"
    using wrote(1) by blast
  obtain r2 where r2: "data_in (delivered T i) @ r2 = data_in blks"
    using delivered_data [OF assms(2,3)] connect by auto
  obtain r3 where r3: "concat (map up_data (take k evs)) @ r3 = concat (map up_data evs)"
    using concat_prefix by blast
  have "tcp_out (the_tcp os') @ (r1 @ r2 @ r3) = concat (map up_data evs)"
    using r1 r2 k(1) r3 by (metis append_assoc)
  then show "\<exists>rest. tcp_out (the_tcp os') @ rest = concat (map up_data evs)"
    by blast
qed

section \<open>From the target to the local application\<close>

text \<open>
  C2: download, end to end. The bytes the local application's socket has accepted are a prefix of the
  bytes the target's socket returned to the server, whatever the interleaving of the relays on either
  side and of the tunnels between them; and they are all of these bytes once nothing is under way in
  the transport, no block was dropped, nothing is pending for the local socket, which is still open,
  and the server's reading has not come to an end.
\<close>

theorem download_end_to_end:
  assumes "HalfOpenConn oc = Some tcp_open" and "\<not> baseConnection.closed oc"
    and "oc_run (oc_started oc) oevs = (blks, os')"
    and "transport_reachable T" and "length (sent T i) < 2 ^ 32" and "sent T i = blks"
    and "conn_ok c" and "\<not> chan_closed (recvQueue c)" and "pending c = []"
    and "bi_run (bi_start tcp_open c) evs = Some (ublks, s')" and "bi_arrivals evs = delivered T i"
  shows "(\<exists>rest. tcp_out (local_tcp s') @ rest = concat (map data_sent oevs)) \<and>
    (\<not> rx_dead os' \<and> quiet T \<and> \<not> tcp_closed (local_tcp s') \<and> pending (proxy s') = [] \<longrightarrow>
     tcp_out (local_tcp s') = concat (map data_sent oevs))"
proof (intro conjI impI)
  have inv: "oc_inv (oc_conn (oc_started oc))" and alive: "\<not> rx_dead (oc_started oc)"
    using assms(1,2) by (simp_all add: oc_inv_def oc_started_def rx_dead_def the_tcp_def tcp_open_def)
  have "carries [] (bi_start tcp_open c)"
    using assms(7-9) by (simp add: carries_def bi_start_def tcp_open_def)
  from bi_run_carries [OF this assms(10)]
  have got: "carries (data_in (delivered T i)) s'"
    by (simp add: bi_arrivals_data assms(11))
  obtain k where k: "data_in blks = concat (map data_sent (take k oevs))" "\<not> rx_dead os' \<longrightarrow> k = length oevs"
    using oc_run_rx [OF inv assms(3)] alive by auto
  {
    assume "\<not> rx_dead os' \<and> quiet T \<and> \<not> tcp_closed (local_tcp s') \<and> pending (proxy s') = []"
    then show "tcp_out (local_tcp s') = concat (map data_sent oevs)"
      using got delivered_all_data [OF assms(4,5)] k assms(6) by (simp add: carries_def)
  }
  obtain r1 where r1: "tcp_out (local_tcp s') @ r1 = data_in (delivered T i)"
    using carries_prefix [OF got] by blast
  obtain r2 where r2: "data_in (delivered T i) @ r2 = data_in blks"
    using delivered_data [OF assms(4,5)] assms(6) by auto
  obtain r3 where r3: "concat (map data_sent (take k oevs)) @ r3 = concat (map data_sent oevs)"
    using concat_prefix by blast
  have "tcp_out (local_tcp s') @ (r1 @ r2 @ r3) = concat (map data_sent oevs)"
    using r1 r2 k(1) r3 by (metis append_assoc)
  then show "\<exists>rest. tcp_out (local_tcp s') @ rest = concat (map data_sent oevs)"
    by blast
qed

section \<open>A concrete connection\<close>

text \<open>One block over one idle tunnel, from the queue of its sender to the receiving connection.\<close>

definition idle_link :: "link \<Rightarrow> bool" where
  "idle_link l \<longleftrightarrow>
     t_out (l_tx l) = [] \<and> \<not> t_connClosed (l_tx l) \<and> \<not> t_ctxDone (l_tx l) \<and> avail (t_in (l_rx l)) = [] \<and>
     \<not> t_connClosed (l_rx l) \<and> \<not> t_ctxDone (l_rx l) \<and> l_carry l = [] \<and> l_pc l = AtTop"

definition idle :: "transport \<Rightarrow> bool" where
  "idle s \<longleftrightarrow>
     (\<exists>l. links s = [l] \<and> idle_link l) \<and> outbox s = [] \<and> retrying s = [] \<and> inq s = [] \<and> dropped s = [] \<and>
     out_qs s = \<lparr>normalQueue = make_chan 64, retryQueue = make_chan 64\<rparr>"

definition hop :: "Block \<Rightarrow> t_event list" where
  "hop b = [EEnqueue 0, EOut 0 WriteOk PickNormal, EOut 0 WriteOk PickNormal, ENet 0 (length (wire b)),
     EIn 0 0 WriteOk, EDeliver]"

lemma idle_quiet: "idle s \<Longrightarrow> quiet s"
  by (auto simp: idle_def idle_link_def quiet_def waiting_def)

lemma hop_delivers:
  assumes "idle s" and "block_wf b" and "\<not> is_control b" and "ConnectionID b = i"
    and "relay_block (rx_proc s i) (canon b) = (out, x)"
  shows "\<exists>s'. transport_run (s\<lparr>outbox := [b]\<rparr>) (hop b) = Some s' \<and> idle s' \<and> sent s' = sent s \<and>
    tx_proc s' = tx_proc s \<and> rx_proc s' = (rx_proc s)(i := x) \<and>
    delivered s' = (delivered s)(i := delivered s i @ out)"
proof -
  obtain l where l: "links s = [l]" "idle_link l"
    using assms(1) by (auto simp: idle_def)
  note q = assms(1) [unfolded idle_def] and il = l(2) [unfolded idle_link_def]
  let ?tx = "(l_tx l)\<lparr>t_SentBytes := t_SentBytes (l_tx l) + of_nat (length (wire b))\<rparr>"
  let ?rx = "(l_rx l)\<lparr>t_in := (t_in (l_rx l))\<lparr>avail := wire b\<rparr>\<rparr>"
  obtain g where send: "packThenSend WriteOk b True (l_tx l) no_stats = (?tx\<lparr>t_out := wire b\<rparr>, g, None)"
    using packThenSend_ok [OF _ assms(2), of "l_tx l" True no_stats] il by simp
  obtain g2 t where recv: "InboundRelay_step 0 WriteOk ?rx no_stats = (Some (canon b), InLoops, t, g2)"
    and t: "t = ?rx\<lparr>t_in := (t_in (l_rx l))\<lparr>avail := []\<rparr>, t_LastActivity := 0, IsActive := True,
        t_RecvBytes := t_RecvBytes (l_rx l) + of_nat (length (wire b))\<rparr>"
    using InboundRelay_step_block [OF _ _ assms(2,3), of ?rx "[]" 0 WriteOk no_stats] il by (auto simp: canon_def)
  have rd: "fst (NewBlockFromReader ((t_in (l_rx l))\<lparr>avail := wire b\<rparr>)) = Inr (uncached b)"
    using NewBlockFromReader_wire [OF assms(2), of "[]" "final (t_in (l_rx l))"] by (cases "t_in (l_rx l)") simp
  have cid: "ConnectionID (canon b) = i"
    using assms(4) by simp
  show ?thesis
    using q il l(1) send recv t rd cid assms(5)
    by (simp add: hop_def transport_step_def chan_send_def make_chan_def link_out_def OutboundRelay_step_def chan_recv_def
        send_from_def taken_def link_net_def link_in_def readable_def deliver_block_def idle_def idle_link_def Let_def)
qed

lemma send_hop:
  assumes "transport_reachable s" and "idle s" and "op_ok op" and "pack_op now op i (tx_proc s i) = ([b], x)"
    and "block_wf b" and "\<not> is_control b" and "ConnectionID b = i"
  shows "\<exists>s'. transport_reachable s' \<and> idle s' \<and> sent s' = (sent s)(i := sent s i @ [b]) \<and>
    tx_proc s' = (tx_proc s)(i := x)"
proof -
  let ?s = "s\<lparr>tx_proc := (tx_proc s)(i := x), sent := (sent s)(i := sent s i @ [b])\<rparr>"
  have idle: "idle ?s"
    using assms(2) by (simp add: idle_def)
  obtain out y where "relay_block (rx_proc ?s i) (canon b) = (out, y)"
    by fastforce
  from hop_delivers [OF idle assms(5-7) this] obtain s' where
    s': "transport_run (?s\<lparr>outbox := [b]\<rparr>) (hop b) = Some s'" "idle s'" "sent s' = sent ?s" "tx_proc s' = tx_proc ?s"
    by blast
  have "transport_step s (ESend i now op) = Some (?s\<lparr>outbox := [b]\<rparr>)"
    using assms(2-4) by (simp add: transport_step_def idle_def)
  then have "transport_reachable (?s\<lparr>outbox := [b]\<rparr>)"
    by (rule transport_reachable.step [OF assms(1)])
  then show ?thesis
    using run_reachable [OF _ s'(1)] s'(2-4) by auto
qed

lemma linked: "\<exists>s. transport_reachable s \<and> idle s \<and> sent s = (\<lambda>_. []) \<and> tx_proc s = (\<lambda>_. newBlockProcessor)"
proof -
  let ?t = "sample_tunnel []"
  let ?s = "(transport_init 64)\<lparr>links := [\<lparr>l_tx = ?t, l_pc = AtTop, l_rx = ?t, l_carry = []\<rparr>]\<rparr>"
  have "transport_step (transport_init 64) (ELink ?t ?t) = Some ?s"
    by (simp add: transport_step_def transport_init_def sample_tunnel_def newTunnelWithID_def)
  then have "transport_reachable ?s"
    by (rule transport_reachable.step [OF transport_reachable.start])
  moreover have "idle ?s"
    by (simp add: idle_def idle_link_def transport_init_def sample_tunnel_def newTunnelWithID_def)
  ultimately show ?thesis
    by (intro exI [of _ ?s]) (simp add: transport_init_def)
qed

lemma two_bytes: "NewDataBlocks now i n [7, 8] = ([newDataBlock (now 0) i n [7, 8]], n + 1)"
  by (simp add: NewDataBlocks_def data_blocks_from.simps DataSize_eq)

text \<open>A connect block and a data block of connection 7, sent and handed over.\<close>

lemma connection_carried:
  "\<exists>T. transport_reachable T \<and> quiet T \<and>
     sent T 7 = [NewConnectBlock 0 7 0 [97], newDataBlock 0 7 1 [7, 8]]"
proof -
  let ?cb = "NewConnectBlock 0 7 0 [97]" and ?db = "newDataBlock 0 7 1 [7, 8]"
  have wf: "block_wf ?cb" "\<not> is_control ?cb" "block_wf ?db" "\<not> is_control ?db"
    by (simp_all add: NewConnectBlock_def newDataBlock_def block_wf_def is_control_def Pack_def header_def Let_def)
  have ids: "ConnectionID ?cb = 7" "ConnectionID ?db = 7"
    by (simp_all add: NewConnectBlock_def)
  obtain s0 where s0: "transport_reachable s0" "idle s0" "sent s0 = (\<lambda>_. [])" "tx_proc s0 = (\<lambda>_. newBlockProcessor)"
    using linked by blast
  have p1: "pack_op (\<lambda>_. 0) (OpConnect [97]) 7 (tx_proc s0 7) = ([?cb], newBlockProcessor\<lparr>sendBlockID := 1\<rparr>)"
    by (simp add: s0 pack_op_def packConnect_def newBlockProcessor_def)
  obtain s1 where s1: "transport_reachable s1" "idle s1" "sent s1 = (sent s0)(7 := sent s0 7 @ [?cb])"
      "tx_proc s1 = (tx_proc s0)(7 := newBlockProcessor\<lparr>sendBlockID := 1\<rparr>)"
    using send_hop [OF s0(1,2) _ p1 wf(1,2) ids(1)] by (auto simp: op_ok_def)
  have p2: "pack_op (\<lambda>_. 0) (OpData [7, 8]) 7 (tx_proc s1 7) = ([?db], newBlockProcessor\<lparr>sendBlockID := 2\<rparr>)"
    by (simp add: s1 pack_op_def packData_def two_bytes newBlockProcessor_def)
  obtain s2 where "transport_reachable s2" "idle s2" "sent s2 = (sent s1)(7 := sent s1 7 @ [?db])"
    using send_hop [OF s1(1,2) _ p2 wf(3,4) ids(2)] by (auto simp: op_ok_def)
  then show ?thesis
    using idle_quiet s1(3) s0(3) by auto
qed

definition dialled_conn :: InboundConnection where
  "dialled_conn = snd (SendConnect 0 [97] (sample_conn []))"

lemma dialled_conn_upload:
  "\<exists>s'. bi_run (bi_start tcp_open dialled_conn) [UpRound (\<lambda>_. 0) (ReadOk [7, 8])] = Some ([newDataBlock 0 7 1 [7, 8]], s') \<and>
     up s' = Copying"
  by (simp add: bi_step_def up_round_def bi_start_def tcp_read_def tcp_open_def Write_def sendData_def packData_def two_bytes
      dialled_conn_def SendConnect_def packConnect_def sample_conn_def NewInboundConnection_def newBlockProcessor_def)

definition target_script :: "oc_event list" where
  "target_script = [Ordered (canon (NewConnectBlock 0 7 0 [97])), Ordered (canon (newDataBlock 0 7 1 [7, 8])),
     SendRound 0 WriteOk False, SendRound 0 WriteOk False]"

theorem upload_end_to_end_witness:
  "\<exists>oblks os'. oc_run (oc_started sample_out) target_script = (oblks, os') \<and> tcp_out (the_tcp os') = [7, 8]"
proof -
  let ?cb = "NewConnectBlock 0 7 0 [97]" and ?db = "newDataBlock 0 7 1 [7, 8]"
  obtain T where T: "transport_reachable T" "quiet T" "sent T 7 = [?cb, ?db]"
    using connection_carried by blast
  then have d: "delivered T 7 = [canon ?cb, canon ?db]"
    using delivered_complete [of T 7] by simp
  obtain s' where up: "bi_run (bi_start tcp_open dialled_conn) [UpRound (\<lambda>_. 0) (ReadOk [7, 8])] = Some ([?db], s')"
      "up s' = Copying"
    using dialled_conn_upload by blast
  obtain oblks os' where run: "oc_run (oc_started sample_out) target_script = (oblks, os')"
    by fastforce
  have types: "Type (canon ?cb) = TypeConnect" "Type (canon ?db) = TypeData" "BlockData (canon ?db) = [7, 8]"
    by (simp_all add: NewConnectBlock_def)
  have out: "HalfOpenConn sample_out = Some tcp_open" "\<not> baseConnection.closed sample_out"
      "chan_buf (orderedRecvQueue sample_out) = []"
    by (simp_all add: sample_out_def connect_def NewOutboundConnection_def)
  have "\<not> tx_dead os'" "chan_buf (orderedRecvQueue (oc_conn os')) = []"
    using run types
    by (auto simp: target_script_def oc_event_step_def oc_started_def SendRelay_step_def sample_out_def connect_def
        NewOutboundConnection_def make_chan_def chan_recv_def send_ordered_def tcp_write_def tcp_open_def
        tx_dead_def the_tcp_def Let_def)
  then show ?thesis
    using upload_end_to_end [OF up(1) T(1) _ T(3) out(1,2) run] T d up(2) out(3) run by (auto simp: target_script_def)
qed

text \<open>The other direction: what the target sent, as one data block of connection 7.\<close>

lemma reply_carried: "\<exists>T. transport_reachable T \<and> quiet T \<and> sent T 7 = [newDataBlock 0 7 0 [7, 8]]"
proof -
  let ?db = "newDataBlock 0 7 0 [7, 8]"
  have wf: "block_wf ?db" "\<not> is_control ?db"
    by (simp_all add: newDataBlock_def block_wf_def is_control_def Pack_def header_def Let_def)
  obtain s0 where s0: "transport_reachable s0" "idle s0" "sent s0 = (\<lambda>_. [])" "tx_proc s0 = (\<lambda>_. newBlockProcessor)"
    using linked by blast
  have "pack_op (\<lambda>_. 0) (OpData [7, 8]) 7 (tx_proc s0 7) = ([?db], newBlockProcessor\<lparr>sendBlockID := 1\<rparr>)"
    by (simp add: s0 pack_op_def packData_def two_bytes newBlockProcessor_def)
  from send_hop [OF s0(1,2) _ this wf] show ?thesis
    using idle_quiet s0(3) by (auto simp: op_ok_def)
qed

lemma target_replies:
  "\<exists>os'. oc_run (oc_started sample_out) [RecvRound (\<lambda>_. 0) (ReadOk [7, 8])] = ([newDataBlock 0 7 0 [7, 8]], os') \<and> \<not> rx_dead os'"
  by (simp add: oc_event_step_def oc_started_def RecvRelay_step_def sample_out_def connect_def NewOutboundConnection_def
      tcp_read_def tcp_open_def sendData_def packData_def two_bytes newBlockProcessor_def rx_dead_def the_tcp_def)

definition local_script :: "bi_event list" where
  "local_script = [Arrives (canon (newDataBlock 0 7 0 [7, 8])), DownRound 3 0 [] WriteOk]"

lemma local_script_runs:
  "\<exists>s'. bi_run (bi_start tcp_open (sample_conn [])) local_script = Some ([], s') \<and>
     \<not> tcp_closed (local_tcp s') \<and> pending (proxy s') = []"
proof -
  let ?b = "canon (newDataBlock 0 7 0 [7, 8])" and ?s0 = "bi_start tcp_open (sample_conn [])"
  let ?c = "(sample_conn [])\<lparr>RecvBytes := 2\<rparr>"
  have b: "Type ?b = TypeData" "BlockData ?b = [7, 8]"
    by simp_all
  have r: "Read 3 0 [] copy_buf (sample_conn [?b]) = Returned 2 None ([7, 8] @ drop 2 copy_buf) ?c"
    using b by (simp add: sample_conn_def NewInboundConnection_def Read_def rb_Empty_def NewByteRingBuffer_def
        read_first_def select_done_def readCtxDone_def take_ordered_def chan_recv_def readBlock_def SetLastActive_def
        go_copy_def Let_def numeral_3_eq_3 numeral_2_eq_2)
  have "bi_step ?s0 (Arrives ?b) = Some ([], ?s0\<lparr>proxy := sample_conn [?b]\<rparr>)"
    by (simp add: bi_step_def bi_start_def chan_send_def sample_conn_def)
  moreover have "down_round 3 0 [] WriteOk (?s0\<lparr>proxy := sample_conn [?b]\<rparr>) =
      ([], ?s0\<lparr>proxy := ?c, local_tcp := tcp_open\<lparr>tcp_out := [7, 8]\<rparr>\<rparr>)"
    using r by (simp add: down_round_def down_read_def bi_start_def tcp_write_def tcp_open_def)
  moreover have "pending ?c = []"
    by (simp add: pending_def sample_conn_def NewByteRingBuffer_def rb_contents_def)
  ultimately show ?thesis
    by (simp add: local_script_def bi_step_def) (simp add: bi_start_def tcp_open_def)
qed

theorem download_end_to_end_witness:
  "\<exists>s'. bi_run (bi_start tcp_open (sample_conn [])) local_script = Some ([], s') \<and> tcp_out (local_tcp s') = [7, 8]"
proof -
  let ?db = "newDataBlock 0 7 0 [7, 8]"
  obtain T where T: "transport_reachable T" "quiet T" "sent T 7 = [?db]"
    using reply_carried by blast
  then have d: "delivered T 7 = [canon ?db]"
    using delivered_complete [of T 7] by simp
  obtain os' where run: "oc_run (oc_started sample_out) [RecvRound (\<lambda>_. 0) (ReadOk [7, 8])] = ([?db], os')"
      "\<not> rx_dead os'"
    using target_replies by blast
  obtain s' where s': "bi_run (bi_start tcp_open (sample_conn [])) local_script = Some ([], s')"
      "\<not> tcp_closed (local_tcp s')" "pending (proxy s') = []"
    using local_script_runs by blast
  have c: "\<not> chan_closed (recvQueue (sample_conn []))" "pending (sample_conn []) = []"
    by (simp_all add: sample_conn_def NewInboundConnection_def pending_def NewByteRingBuffer_def rb_contents_def)
  show ?thesis
    using download_end_to_end [OF sample_out_open run(1) T(1) _ T(3) sample_conn_ok c s'(1)] run(2) T d s'
    by (auto simp: local_script_def)
qed

end
