(* ===== verification/Go_Map.thy ===== *)
theory Go_Map
  imports "HOL-Library.AList" Rabbit_Prelude
begin

text \<open>
  Go maps as the pools use them: lookup, assignment, deletion and \<^verbatim>\<open>len\<close>. A map is an
  association list with distinct keys, so that its length is the number of its entries. The
  locale \<open>keyed_pool\<close> is the contract the pools rely on.
\<close>

type_synonym ('k, 'v) go_map = "('k \<times> 'v) list"

definition map_get :: "('k, 'v) go_map \<Rightarrow> 'k \<Rightarrow> 'v option" where
  "map_get m k = map_of m k"

definition map_put :: "'k \<Rightarrow> 'v \<Rightarrow> ('k, 'v) go_map \<Rightarrow> ('k, 'v) go_map" where
  "map_put k v m = AList.update k v m"

definition map_del :: "'k \<Rightarrow> ('k, 'v) go_map \<Rightarrow> ('k, 'v) go_map" where
  "map_del k m = AList.delete k m"

definition map_len :: "('k, 'v) go_map \<Rightarrow> nat" where
  "map_len m = length m"

definition map_ok :: "('k, 'v) go_map \<Rightarrow> bool" where
  "map_ok m \<longleftrightarrow> distinct (map fst m)"

lemma map_get_empty [simp]: "map_get [] k = None"
  by (simp add: map_get_def)

lemma map_len_empty [simp]: "map_len [] = 0"
  by (simp add: map_len_def)

lemma map_ok_empty [simp]: "map_ok []"
  by (simp add: map_ok_def)

lemma map_get_put [simp]: "map_get (map_put k v m) j = (if j = k then Some v else map_get m j)"
  by (simp add: map_get_def map_put_def update_conv')

lemma map_get_del [simp]: "map_get (map_del k m) j = (if j = k then None else map_get m j)"
  by (simp add: map_get_def map_del_def delete_conv')

lemma map_ok_put [simp]: "map_ok m \<Longrightarrow> map_ok (map_put k v m)"
  by (simp add: map_ok_def map_put_def distinct_update)

lemma map_ok_del [simp]: "map_ok m \<Longrightarrow> map_ok (map_del k m)"
  by (simp add: map_ok_def map_del_def distinct_delete)

lemma map_get_None: "map_get m k = None \<longleftrightarrow> k \<notin> fst ` set m"
  by (simp add: map_get_def map_of_eq_None_iff)

lemma map_len_card: "map_ok m \<Longrightarrow> map_len m = card {k. map_get m k \<noteq> None}"
proof -
  assume "map_ok m"
  then have "map_len m = card (fst ` set m)"
    by (metis distinct_card length_map list.set_map map_len_def map_ok_def)
  moreover have "{k. map_get m k \<noteq> None} = fst ` set m"
    by (simp only: map_get_None) auto
  ultimately show ?thesis
    by simp
qed

lemma map_len_put: "map_ok m \<Longrightarrow> map_len (map_put k v m) = map_len m + (if map_get m k = None then 1 else 0)"
proof -
  assume ok: "map_ok m"
  have fin: "finite {j. map_get m j \<noteq> None}"
    by (simp add: map_get_None)
  have "{j. map_get (map_put k v m) j \<noteq> None} = insert k {j. map_get m j \<noteq> None}"
    by auto
  then show ?thesis
    using fin ok by (simp add: map_len_card card_insert_if)
qed

lemma map_len_del: "map_ok m \<Longrightarrow> map_len (map_del k m) = map_len m - (if map_get m k = None then 0 else 1)"
proof -
  assume ok: "map_ok m"
  have "{j. map_get (map_del k m) j \<noteq> None} = {j. map_get m j \<noteq> None} - {k}"
    by auto
  then show ?thesis
    using ok by (simp add: map_len_card card_Diff_singleton_if)
qed

lemma map_len_0: "map_len m = 0 \<longleftrightarrow> m = []"
  by (simp add: map_len_def)

lemma map_len_pos: "map_get m k = Some v \<Longrightarrow> 0 < map_len m"
  by (cases m) (auto simp: map_len_def)

section \<open>The contract of a keyed pool\<close>

text \<open>
  A pool registers members under a key, forgets them by key and counts them. The client's
  lemmas: a script of registrations and removals keeps a counter that is incremented on every
  new key and decremented on every removal of a present one equal to the size of the pool.
\<close>

datatype ('k, 'v) pool_op = Put 'k 'v | Del 'k

locale keyed_pool =
  fixes get :: "'m \<Rightarrow> 'k \<Rightarrow> 'v option"
    and put :: "'k \<Rightarrow> 'v \<Rightarrow> 'm \<Rightarrow> 'm"
    and del :: "'k \<Rightarrow> 'm \<Rightarrow> 'm"
    and len :: "'m \<Rightarrow> nat"
    and ok :: "'m \<Rightarrow> bool"
  assumes get_put: "get (put k v m) j = (if j = k then Some v else get m j)"
    and get_del: "get (del k m) j = (if j = k then None else get m j)"
    and ok_put: "ok m \<Longrightarrow> ok (put k v m)"
    and ok_del: "ok m \<Longrightarrow> ok (del k m)"
    and len_put: "ok m \<Longrightarrow> len (put k v m) = len m + (if get m k = None then 1 else 0)"
    and len_del: "ok m \<Longrightarrow> len (del k m) = len m - (if get m k = None then 0 else 1)"
    and len_pos: "ok m \<Longrightarrow> get m k \<noteq> None \<Longrightarrow> 0 < len m"
begin

fun apply_op :: "('k, 'v) pool_op \<Rightarrow> 'm \<times> int \<Rightarrow> 'm \<times> int" where
  "apply_op (Put k v) (m, n) = (put k v m, n + 1)"
| "apply_op (Del k) (m, n) = (if get m k = None then (m, n) else (del k m, n - 1))"

fun fresh_ops :: "('k, 'v) pool_op list \<Rightarrow> 'm \<Rightarrow> bool" where
  "fresh_ops [] m = True"
| "fresh_ops (Put k v # ops) m = (get m k = None \<and> fresh_ops ops (put k v m))"
| "fresh_ops (Del k # ops) m = fresh_ops ops (if get m k = None then m else del k m)"

lemma counter_exact:
  "ok m \<Longrightarrow> fresh_ops ops m \<Longrightarrow> fold apply_op ops (m, n) = (m', n') \<Longrightarrow>
     ok m' \<and> n' - n = int (len m') - int (len m)"
proof (induction ops arbitrary: m n)
  case Nil
  then show ?case by simp
next
  case (Cons op ops)
  show ?case
  proof (cases op)
    case (Put k v)
    then show ?thesis
      using Cons.prems Cons.IH [of "put k v m" "n + 1"] by (auto simp: ok_put len_put)
  next
    case (Del k)
    then show ?thesis
      using Cons.prems Cons.IH [of "del k m" "n - 1"] Cons.IH [of m n] len_pos [of m k]
      by (auto simp: ok_del len_del split: if_splits)
  qed
qed

lemma get_put_other: "j \<noteq> k \<Longrightarrow> get (put k v m) j = get m j"
  by (simp add: get_put)

end

interpretation go_pool: keyed_pool map_get map_put map_del map_len map_ok
  by unfold_locales (auto simp: map_len_put map_len_del dest: map_len_pos)

end
