(* ===== verification/Tunnel_Pool.thy ===== *)
theory Tunnel_Pool
  imports "HOL-Library.Multiset" Go_Map Tunnel
begin

text \<open>
  \<^verbatim>\<open>tunnel_pool/pool.go\<close> and \<^verbatim>\<open>tunnel_pool/manager.go\<close>: the tunnels of one peer, the client
  manager that dials until the wanted number of tunnels is there, and the server manager that
  removes a peer whose pool has been empty for a while. Goroutines that a call starts are part
  of the state: pending \<open>DecreaseNotify\<close> calls are counted, a running countdown is kept with
  the time it was started.
\<close>

section \<open>Managers\<close>

record ClientManager =
  tunnelNum :: int
  endpoints :: "string list"
  cm_peerID :: u32
  authkey :: string
  insecure :: bool
  retryFailed :: bool

definition NewClientManager :: "int \<Rightarrow> string list \<Rightarrow> u32 \<Rightarrow> string \<Rightarrow> bool \<Rightarrow> bool \<Rightarrow> ClientManager" where
  "NewClientManager n es pid key ins retry =
     \<lparr>tunnelNum = n, endpoints = es, cm_peerID = pid, authkey = key, insecure = ins, retryFailed = retry\<rparr>"

text \<open>
  \<open>cancelCountDownFunc\<close> names the countdown it cancels, if it is not nil; \<open>countdowns\<close> are the
  goroutines that wait for the end of their countdown, with their starting times.
\<close>

record ServerManager =
  triggered :: bool
  cancelCountDownFunc :: "nat option"
  countdowns :: "(nat \<times> nat) list"
  next_countdown :: nat

definition NewServerManager :: ServerManager where
  "NewServerManager = \<lparr>triggered = False, cancelCountDownFunc = None, countdowns = [], next_countdown = 0\<rparr>"

definition cancel_countdown :: "ServerManager \<Rightarrow> ServerManager" where
  "cancel_countdown sm =
     (case cancelCountDownFunc sm of
        None \<Rightarrow> sm
      | Some i \<Rightarrow> sm\<lparr>countdowns := filter (\<lambda>(j, _). j \<noteq> i) (countdowns sm)\<rparr>)"

definition sm_Notify :: "nat \<Rightarrow> nat \<Rightarrow> ServerManager \<Rightarrow> ServerManager" where
  "sm_Notify now n sm =
     (let sm1 =
            (if n = 0 \<and> \<not> triggered sm then
               (let sm' = cancel_countdown (sm\<lparr>triggered := True\<rparr>); i = next_countdown sm'
                in sm'\<lparr>cancelCountDownFunc := Some i, next_countdown := i + 1,
                       countdowns := countdowns sm' @ [(i, now)]\<rparr>)
             else sm)
      in if n \<noteq> 0 \<and> triggered sm1 then cancel_countdown (sm1\<lparr>triggered := False\<rparr>) else sm1)"

datatype Manager = MClient ClientManager | MServer ServerManager

definition mgr_Notify :: "nat \<Rightarrow> nat \<Rightarrow> Manager \<Rightarrow> Manager" where
  "mgr_Notify now n m =
     (case m of MClient cm \<Rightarrow> MClient cm | MServer sm \<Rightarrow> MServer (sm_Notify now n sm))"

section \<open>The pool\<close>

record TunnelPool =
  tunnelMapping :: "(u32, Tunnel) go_map"
  tp_peerID :: u32
  manager :: Manager
  tp_sendQueue :: "Block chan"
  tp_sendRetryQueue :: "Block chan"
  tp_recvQueue :: "Block chan"
  tp_ctxDone :: bool
  decreaseNotifies :: nat      \<comment> \<open>\<open>DecreaseNotify\<close> goroutines started and not yet run\<close>

definition NewTunnelPool :: "nat \<Rightarrow> nat \<Rightarrow> u32 \<Rightarrow> Manager \<Rightarrow> TunnelPool" where
  "NewTunnelPool SendQueueSize RecvQueueSize pid mgr =
     \<lparr>tunnelMapping = [], tp_peerID = pid, manager = mgr, tp_sendQueue = make_chan SendQueueSize,
      tp_sendRetryQueue = make_chan SendQueueSize, tp_recvQueue = make_chan RecvQueueSize,
      tp_ctxDone = False, decreaseNotifies = 1\<rparr>"

definition count_tunnel :: "(Stats \<Rightarrow> Stats) \<Rightarrow> Tunnel \<Rightarrow> Stats \<times> Stats \<Rightarrow> Stats \<times> Stats" where
  "count_tunnel f tun g = (if IsClientMode tun then (f (fst g), snd g) else (fst g, f (snd g)))"

text \<open>\<open>AddTunnel\<close>; the last component says whether \<open>PingPong\<close> is started next to the relays.\<close>

definition AddTunnel ::
    "int \<Rightarrow> nat \<Rightarrow> Tunnel \<Rightarrow> TunnelPool \<Rightarrow> Stats \<times> Stats \<Rightarrow> TunnelPool \<times> (Stats \<times> Stats) \<times> bool" where
  "AddTunnel PingInterval now tun tp g =
     (let tp1 = tp\<lparr>tunnelMapping := map_put (tunnelID tun) tun (tunnelMapping tp)\<rparr>;
          tp2 = tp1\<lparr>manager := mgr_Notify now (map_len (tunnelMapping tp1)) (manager tp1)\<rparr>
      in (tp2, count_tunnel IncrementTunnelCount tun g, PingInterval > 0))"

definition RemoveTunnel ::
    "nat \<Rightarrow> Tunnel \<Rightarrow> TunnelPool \<Rightarrow> Stats \<times> Stats \<Rightarrow> TunnelPool \<times> (Stats \<times> Stats)" where
  "RemoveTunnel now tun tp g =
     (case map_get (tunnelMapping tp) (tunnelID tun) of
        None \<Rightarrow> (tp, g)
      | Some tunnel1 \<Rightarrow>
          (let tp1 = tp\<lparr>tunnelMapping := map_del (tunnelID tunnel1) (tunnelMapping tp)\<rparr>;
               tp2 = tp1\<lparr>manager := mgr_Notify now (map_len (tunnelMapping tp1)) (manager tp1),
                         decreaseNotifies := decreaseNotifies tp1 + 1\<rparr>
           in (tp2, count_tunnel DecrementTunnelCount tunnel1 g)))"

definition GetTunnelMappingLen :: "TunnelPool \<Rightarrow> nat" where
  "GetTunnelMappingLen tp = map_len (tunnelMapping tp)"

record tunnel_pool_info =
  tpi_peer_id :: u32
  tpi_recv_queue_length :: nat
  tpi_send_queue_length :: nat
  tpi_send_retry_queue_length :: nat
  tpi_tunnel_count :: nat

definition GetTunnelPoolInfo :: "TunnelPool \<Rightarrow> tunnel_pool_info" where
  "GetTunnelPoolInfo tp =
     \<lparr>tpi_peer_id = tp_peerID tp, tpi_recv_queue_length = length (chan_buf (tp_recvQueue tp)),
      tpi_send_queue_length = length (chan_buf (tp_sendQueue tp)),
      tpi_send_retry_queue_length = length (chan_buf (tp_sendRetryQueue tp)),
      tpi_tunnel_count = map_len (tunnelMapping tp)\<rparr>"

record tunnel_info =
  ti_tunnel_id :: u32
  ti_peer_id :: u32
  ti_is_active :: bool
  ti_last_activity :: i64
  ti_latency_nano :: i64
  ti_sent_bytes :: u64
  ti_recv_bytes :: u64

definition GetTunnelConnsInfo :: "TunnelPool \<Rightarrow> tunnel_info list" where
  "GetTunnelConnsInfo tp =
     map (\<lambda>(_, tunn). \<lparr>ti_tunnel_id = tunnelID tunn, ti_peer_id = tp_peerID tp,
            ti_is_active = IsActive tunn, ti_last_activity = t_LastActivity tunn,
            ti_latency_nano = t_LatencyNano tunn, ti_sent_bytes = t_SentBytes tunn,
            ti_recv_bytes = t_RecvBytes tunn\<rparr>) (tunnelMapping tp)"

section \<open>Dialling\<close>

text \<open>
  \<open>TLSConfigFromFiles\<close>. Loading a key pair, reading a file and parsing its certificates belong
  to the Go library and are arguments: whether the pair loads, the contents if the file can
  be read, whether the contents hold a certificate.
\<close>

record tls_config =
  Certificates :: "(string \<times> string) list"
  RootCAs :: "string option"
  ClientCAs :: "string option"
  VerifyClientCertIfGiven :: bool
  InsecureSkipVerify :: bool
  MinVersion :: nat

datatype tls_error = KeyPairError | ReadCAError | AppendCAError

definition TLSConfigFromFiles ::
    "(string \<Rightarrow> string \<Rightarrow> bool) \<Rightarrow> (string \<Rightarrow> string option) \<Rightarrow> (string \<Rightarrow> bool) \<Rightarrow>
     string \<Rightarrow> string \<Rightarrow> string \<Rightarrow> bool \<Rightarrow> tls_error + tls_config" where
  "TLSConfigFromFiles loadPair readFile appendCerts certFile keyFile caFile insecureSkipVerify =
     (let base = \<lparr>Certificates = [], RootCAs = None, ClientCAs = None, VerifyClientCertIfGiven = False,
                  InsecureSkipVerify = False, MinVersion = 0\<rparr>;
          finish = (\<lambda>c. c\<lparr>InsecureSkipVerify := insecureSkipVerify, MinVersion := 0x0303\<rparr>);
          withCA = (\<lambda>c. if caFile \<noteq> '''' then
                           (case readFile caFile of
                              None \<Rightarrow> Inl ReadCAError
                            | Some pem \<Rightarrow>
                                if appendCerts pem
                                then Inr (finish (c\<lparr>RootCAs := Some pem, ClientCAs := Some pem,
                                                    VerifyClientCertIfGiven := True\<rparr>))
                                else Inl AppendCAError)
                         else Inr (finish c))
      in if certFile \<noteq> '''' \<and> keyFile \<noteq> '''' then
           (if loadPair certFile keyFile then withCA (base\<lparr>Certificates := [(certFile, keyFile)]\<rparr>)
            else Inl KeyPairError)
         else withCA base)"

text \<open>\<^verbatim>\<open>strings.Contains\<close> and the scheme the manager prepends.\<close>

fun str_contains :: "string \<Rightarrow> string \<Rightarrow> bool" where
  "str_contains sub [] = (sub = [])"
| "str_contains sub (c # cs) = (take (length sub) (c # cs) = sub \<or> str_contains sub cs)"

definition with_scheme :: "string \<Rightarrow> string" where
  "with_scheme endpoint =
     (if \<not> str_contains ''wss://'' endpoint \<and> \<not> str_contains ''ws://'' endpoint
      then ''ws://'' @ endpoint else endpoint)"

record dial_request =
  dial_endpoint :: string
  dial_tls :: "tls_config option"
  dial_auth :: "string option"     \<comment> \<open>the Authorization header\<close>

definition client_tls :: "bool \<Rightarrow> tls_error + tls_config" where
  "client_tls ins = TLSConfigFromFiles (\<lambda>_ _. False) (\<lambda>_. None) (\<lambda>_. False) '''' '''' '''' ins"

text \<open>
  What one round of the loop of \<open>DecreaseNotify\<close> meets: the pool is cancelled, the dial fails,
  the dial succeeds and the exchange of the peer number fails, or a tunnel is made.
\<close>

datatype attempt = PoolCancelled | DialFails | ExchangeFails | Dialed Tunnel

datatype dn_status = DnReturned | DnRunning

record dn_state =
  dn_cm :: ClientManager
  dn_pool :: TunnelPool
  dn_stats :: "Stats \<times> Stats"
  lastfailed :: string
  retryweight :: "string \<Rightarrow> nat"
  tunnelToCreate :: int
  dials :: "dial_request list"     \<comment> \<open>requests made, oldest first\<close>
  sleeps :: "nat list"             \<comment> \<open>waits in units of \<open>ErrorWaitSec\<close>\<close>

text \<open>The bookkeeping after a failed dial: the weight of the wait and the order of the endpoints.\<close>

definition dial_failed :: "nat \<Rightarrow> string \<Rightarrow> dn_state \<Rightarrow> dn_state" where
  "dial_failed curindex endpoint s =
     (let cm = dn_cm s; es = endpoints cm; rw = retryweight s;
          s1 = (if retryFailed cm then
                  s\<lparr>retryweight := (if rw endpoint < 5 then rw(endpoint := rw endpoint + 1) else rw)\<rparr>
                else
                  (let es' =
                        (if lastfailed s = endpoint then
                           (if curindex = length es - 1 then (es[curindex := es ! 0])[0 := endpoint]
                            else (es[curindex := es ! (curindex + 1)])[curindex + 1 := endpoint])
                         else es)
                   in s\<lparr>dn_cm := cm\<lparr>endpoints := es'\<rparr>, retryweight := rw(endpoint := 1)\<rparr>))
      in s1\<lparr>sleeps := sleeps s1 @ [retryweight s1 endpoint], lastfailed := endpoint\<rparr>)"

definition dial_ok :: "string \<Rightarrow> dn_state \<Rightarrow> dn_state" where
  "dial_ok endpoint s =
     (if lastfailed s = endpoint
      then s\<lparr>lastfailed := '''', retryweight := (retryweight s)(endpoint := 0)\<rparr> else s)"

definition dial_request_for :: "ClientManager \<Rightarrow> string \<Rightarrow> tls_error + dial_request" where
  "dial_request_for cm endpoint =
     (let auth = (if authkey cm \<noteq> '''' then Some (''Bearer '' @ authkey cm) else None)
      in if str_contains ''wss://'' endpoint then
           (case client_tls (insecure cm) of
              Inl e \<Rightarrow> Inl e
            | Inr c \<Rightarrow> Inr \<lparr>dial_endpoint = endpoint, dial_tls = Some c, dial_auth = auth\<rparr>)
         else Inr \<lparr>dial_endpoint = endpoint, dial_tls = None, dial_auth = auth\<rparr>)"

definition dn_round :: "int \<Rightarrow> nat \<Rightarrow> attempt \<Rightarrow> dn_state \<Rightarrow> dn_status \<times> dn_state" where
  "dn_round PingInterval now a s =
     (if a = PoolCancelled then (DnReturned, s)
      else
        let es = endpoints (dn_cm s);
            curindex = (if es \<noteq> [] then nat ((tunnelToCreate s - 1) mod int (length es)) else 0);
            endpoint0 = (if es \<noteq> [] then es ! curindex else '''') in
        if endpoint0 = '''' then (DnRunning, s)
        else
          let endpoint = with_scheme endpoint0 in
          (case dial_request_for (dn_cm s) endpoint of
             Inl _ \<Rightarrow> (DnReturned, s)
           | Inr req \<Rightarrow>
               let s1 = s\<lparr>dials := dials s @ [req]\<rparr> in
               (case a of
                  DialFails \<Rightarrow> (DnRunning, dial_failed curindex endpoint s1)
                | ExchangeFails \<Rightarrow> (DnRunning, (dial_ok endpoint s1)\<lparr>sleeps := sleeps s1 @ [1]\<rparr>)
                | Dialed tun \<Rightarrow>
                    (let s2 = dial_ok endpoint s1;
                         (tp, g, _) = AddTunnel PingInterval now tun (dn_pool s2) (dn_stats s2)
                     in (DnRunning, s2\<lparr>dn_pool := tp, dn_stats := g, tunnelToCreate := tunnelToCreate s2 - 1\<rparr>))
                | PoolCancelled \<Rightarrow> (DnReturned, s))))"

text \<open>
  The loop over a script of rounds, each with its time; \<open>DnRunning\<close> at the end means that the
  script is used up while the loop goes on.
\<close>

fun dn_loop :: "int \<Rightarrow> (nat \<times> attempt) list \<Rightarrow> dn_state \<Rightarrow> dn_status \<times> dn_state" where
  "dn_loop PingInterval [] s = (if tunnelToCreate s > 0 then DnRunning else DnReturned, s)"
| "dn_loop PingInterval ((now, a) # as) s =
     (if tunnelToCreate s > 0 then
        (case dn_round PingInterval now a s of
           (DnReturned, s') \<Rightarrow> (DnReturned, s')
         | (DnRunning, s') \<Rightarrow> dn_loop PingInterval as s')
      else (DnReturned, s))"

definition DecreaseNotify ::
    "int \<Rightarrow> (nat \<times> attempt) list \<Rightarrow> ClientManager \<Rightarrow> TunnelPool \<Rightarrow> Stats \<times> Stats \<Rightarrow> dn_status \<times> dn_state" where
  "DecreaseNotify PingInterval as cm tp g =
     dn_loop PingInterval as
       \<lparr>dn_cm = cm, dn_pool = tp, dn_stats = g, lastfailed = '''', retryweight = (\<lambda>_. 0),
        tunnelToCreate = tunnelNum cm - int (map_len (tunnelMapping tp)), dials = [], sleeps = []\<rparr>"

section \<open>Lemmas about the dialling loop\<close>

lemma client_tls_ok: "client_tls ins = Inr \<lparr>Certificates = [], RootCAs = None, ClientCAs = None,
    VerifyClientCertIfGiven = False, InsecureSkipVerify = ins, MinVersion = 0x0303\<rparr>"
  by (simp add: client_tls_def TLSConfigFromFiles_def Let_def)

lemma dial_request_for_ok: "\<exists>req. dial_request_for cm e = Inr req"
  by (simp add: dial_request_for_def client_tls_ok Let_def)

lemma str_contains_prefix: "str_contains sub (sub @ s)"
  by (cases "sub @ s") (auto simp: append_eq_Cons_conv)

lemma with_scheme_idem [simp]: "with_scheme (with_scheme e) = with_scheme e"
  using str_contains_prefix [of "''ws://''" e] by (simp add: with_scheme_def)

lemma with_scheme_nonempty: "with_scheme e \<noteq> ''''"
  by (auto simp: with_scheme_def)

definition good_endpoints :: "string list \<Rightarrow> bool" where
  "good_endpoints es \<longleftrightarrow> es \<noteq> [] \<and> '''' \<notin> set es"

lemma dial_failed_frame [simp]:
  "dn_pool (dial_failed i e s) = dn_pool s" "tunnelToCreate (dial_failed i e s) = tunnelToCreate s"
  "dn_stats (dial_failed i e s) = dn_stats s" "dials (dial_failed i e s) = dials s"
  by (simp_all add: dial_failed_def Let_def)

lemma dial_ok_frame [simp]:
  "dn_pool (dial_ok e s) = dn_pool s" "tunnelToCreate (dial_ok e s) = tunnelToCreate s"
  "dn_stats (dial_ok e s) = dn_stats s" "dn_cm (dial_ok e s) = dn_cm s" "dials (dial_ok e s) = dials s"
  by (simp_all add: dial_ok_def)

text \<open>Moving a failing endpoint is a swap, up to the scheme that was prepended.\<close>

lemma swap_with_scheme:
  assumes "i < length es" and "j < length es"
  shows "mset (map with_scheme ((es[i := es ! j])[j := with_scheme (es ! i)])) = mset (map with_scheme es)"
  using mset_swap [of j "map with_scheme es" i] assms by (simp add: map_update)

lemma dial_failed_endpoints:
  assumes "i < length (endpoints (dn_cm s))"
  defines "s' \<equiv> dial_failed i (with_scheme (endpoints (dn_cm s) ! i)) s"
  shows "mset (map with_scheme (endpoints (dn_cm s'))) = mset (map with_scheme (endpoints (dn_cm s)))"
    and "good_endpoints (endpoints (dn_cm s)) \<Longrightarrow> good_endpoints (endpoints (dn_cm s'))"
    and "dn_cm s' = (dn_cm s)\<lparr>endpoints := endpoints (dn_cm s')\<rparr>"
proof -
  let ?es = "endpoints (dn_cm s)" and ?e = "with_scheme (endpoints (dn_cm s) ! i)"
  have swap: "endpoints (dn_cm s') \<in> {?es, (?es[i := ?es ! 0])[0 := ?e], (?es[i := ?es ! (i + 1)])[i + 1 := ?e]}"
      and near: "endpoints (dn_cm s') = (?es[i := ?es ! (i + 1)])[i + 1 := ?e] \<longrightarrow>
        endpoints (dn_cm s') \<in> {?es, (?es[i := ?es ! 0])[0 := ?e]} \<or> i + 1 < length ?es"
    using assms(1) by (auto simp: s'_def dial_failed_def Let_def)
  then consider "endpoints (dn_cm s') = ?es" | "endpoints (dn_cm s') = (?es[i := ?es ! 0])[0 := ?e]"
    | "endpoints (dn_cm s') = (?es[i := ?es ! (i + 1)])[i + 1 := ?e]" "i + 1 < length ?es"
    by auto
  note cs = this
  have pos: "0 < length ?es"
    using assms(1) by linarith
  show "mset (map with_scheme (endpoints (dn_cm s'))) = mset (map with_scheme ?es)"
    using cs
  proof cases
    case 2
    then show ?thesis
      by (simp only: swap_with_scheme [OF assms(1) pos])
  next
    case 3
    then show ?thesis
      by (simp only: swap_with_scheme [OF assms(1) 3(2)])
  qed simp
  show "good_endpoints (endpoints (dn_cm s'))" if "good_endpoints ?es"
  proof -
    have "set (endpoints (dn_cm s')) \<subseteq> insert ?e (set ?es)"
      using cs assms(1) nth_mem [OF pos] nth_mem [of "i + 1" ?es]
      by cases (auto dest!: set_update_subset_insert [THEN subsetD])
    moreover have "endpoints (dn_cm s') \<noteq> []"
      using cs that by cases (auto simp: good_endpoints_def)
    ultimately show ?thesis
      using that with_scheme_nonempty [of "?es ! i"] unfolding good_endpoints_def by (metis insertE subsetD)
  qed
  show "dn_cm s' = (dn_cm s)\<lparr>endpoints := endpoints (dn_cm s')\<rparr>"
    by (simp add: s'_def dial_failed_def Let_def)
qed

fun dialed :: "(nat \<times> attempt) list \<Rightarrow> Tunnel list" where
  "dialed [] = []"
| "dialed ((_, Dialed t) # as) = t # dialed as"
| "dialed ((_, _) # as) = dialed as"

definition not_cancelled :: "(nat \<times> attempt) list \<Rightarrow> bool" where
  "not_cancelled as \<longleftrightarrow> list_all (\<lambda>(_, a). a \<noteq> PoolCancelled) as"

definition put_tunnels :: "Tunnel list \<Rightarrow> (u32, Tunnel) go_map \<Rightarrow> (u32, Tunnel) go_map" where
  "put_tunnels ts m = fold (\<lambda>t. map_put (tunnelID t) t) ts m"

text \<open>One round with usable endpoints: what it adds, and that the endpoints stay usable.\<close>

lemma dn_round_effect:
  assumes "good_endpoints (endpoints (dn_cm s))" and "a \<noteq> PoolCancelled"
    and "dn_round ival now a s = (st, s')"
  shows "st = DnRunning \<and> good_endpoints (endpoints (dn_cm s')) \<and>
    mset (map with_scheme (endpoints (dn_cm s'))) = mset (map with_scheme (endpoints (dn_cm s))) \<and>
    tunnelMapping (dn_pool s') = put_tunnels (dialed [(now, a)]) (tunnelMapping (dn_pool s)) \<and>
    tunnelToCreate s' = tunnelToCreate s - int (length (dialed [(now, a)])) \<and>
    (\<exists>req. dials s' = dials s @ [req] \<and> dial_endpoint req \<in> with_scheme ` set (endpoints (dn_cm s)) \<and>
      dial_request_for (dn_cm s) (dial_endpoint req) = Inr req) \<and>
    dn_cm s' = (dn_cm s)\<lparr>endpoints := endpoints (dn_cm s')\<rparr>"
proof -
  let ?es = "endpoints (dn_cm s)"
  let ?i = "nat ((tunnelToCreate s - 1) mod int (length ?es))"
  let ?e = "with_scheme (?es ! ?i)"
  have ne: "?es \<noteq> []"
    using assms(1) by (simp add: good_endpoints_def)
  then have i: "?i < length ?es"
    by (simp add: nat_less_iff)
  then have e0: "?es ! ?i \<noteq> ''''" "?es ! ?i \<in> set ?es"
    using assms(1) by (auto simp: good_endpoints_def dest: nth_mem)
  obtain req where req: "dial_request_for (dn_cm s) ?e = Inr req"
    using dial_request_for_ok by blast
  then have de: "dial_endpoint req = ?e"
    by (auto simp: dial_request_for_def client_tls_ok Let_def split: if_splits)
  let ?s1 = "s\<lparr>dials := dials s @ [req]\<rparr>"
  have cm1: "dn_cm ?s1 = dn_cm s"
    by simp
  note df = dial_failed_endpoints [of ?i ?s1, unfolded cm1, OF i]
  have round: "dn_round ival now a s = (case a of
      DialFails \<Rightarrow> (DnRunning, dial_failed ?i ?e ?s1)
    | ExchangeFails \<Rightarrow> (DnRunning, (dial_ok ?e ?s1)\<lparr>sleeps := sleeps ?s1 @ [1]\<rparr>)
    | Dialed tun \<Rightarrow>
        (let s2 = dial_ok ?e ?s1;
             (tp, g, _) = AddTunnel ival now tun (dn_pool s2) (dn_stats s2)
         in (DnRunning, s2\<lparr>dn_pool := tp, dn_stats := g, tunnelToCreate := tunnelToCreate s2 - 1\<rparr>))
    | PoolCancelled \<Rightarrow> (DnReturned, s))"
    using assms(2) ne e0(1) req by (simp add: dn_round_def Let_def)
  show ?thesis
  proof (cases a)
    case DialFails
    then have "st = DnRunning" "s' = dial_failed ?i ?e ?s1"
      using assms(3) round by simp_all
    then show ?thesis
      using DialFails df assms(1) de e0(2) req by (simp add: put_tunnels_def)
  qed (use assms round de e0 req in \<open>auto simp: put_tunnels_def AddTunnel_def Let_def\<close>)
qed

lemma put_tunnels_Cons: "put_tunnels (t # ts) m = put_tunnels ts (map_put (tunnelID t) t m)"
  by (simp add: put_tunnels_def)

lemma put_tunnels_Nil [simp]: "put_tunnels [] m = m"
  by (simp add: put_tunnels_def)

lemma dn_loop_effect:
  assumes "good_endpoints (endpoints (dn_cm s))" and "not_cancelled as"
    and "dn_loop ival as s = (st, s')"
  shows "mset (map with_scheme (endpoints (dn_cm s'))) = mset (map with_scheme (endpoints (dn_cm s))) \<and>
    tunnelMapping (dn_pool s') = put_tunnels (take (nat (tunnelToCreate s)) (dialed as)) (tunnelMapping (dn_pool s)) \<and>
    (st = DnReturned \<longleftrightarrow> tunnelToCreate s \<le> int (length (dialed as)))"
  using assms
proof (induction as arbitrary: s)
  case Nil
  then show ?case by (auto split: if_splits)
next
  case (Cons x as)
  obtain now a where x: "x = (now, a)"
    by fastforce
  show ?case
  proof (cases "tunnelToCreate s > 0")
    case False
    then show ?thesis
      using Cons.prems(3) x by auto
  next
    case True
    obtain st1 s1 where r: "dn_round ival now a s = (st1, s1)"
      by fastforce
    have "a \<noteq> PoolCancelled" "not_cancelled as"
      using Cons.prems(2) x by (simp_all add: not_cancelled_def)
    note eff = dn_round_effect [OF Cons.prems(1) this(1) r]
    have loop: "dn_loop ival as s1 = (st, s')"
      using Cons.prems(3) True x r eff by simp
    note IH = Cons.IH [OF _ \<open>not_cancelled as\<close> loop]
    show ?thesis
    proof (cases a)
      case (Dialed t)
      have n: "nat (tunnelToCreate s) = Suc (nat (tunnelToCreate s - 1))"
        using True by linarith
      show ?thesis
        using IH eff x Dialed by (simp add: n put_tunnels_Cons) linarith
    qed (use IH eff x in auto)
  qed
qed

section \<open>Properties of the client manager\<close>

lemma put_tunnels_len:
  "map_ok m \<Longrightarrow> distinct (map tunnelID ts) \<Longrightarrow> list_all (\<lambda>t. map_get m (tunnelID t) = None) ts \<Longrightarrow>
     map_ok (put_tunnels ts m) \<and> map_len (put_tunnels ts m) = map_len m + length ts"
proof (induction ts arbitrary: m)
  case Nil
  then show ?case by simp
next
  case (Cons t ts)
  have "list_all (\<lambda>u. map_get (map_put (tunnelID t) t m) (tunnelID u) = None) ts"
    using Cons.prems by (auto simp: list_all_iff image_iff)
  then show ?case
    using Cons.prems Cons.IH [of "map_put (tunnelID t) t m"] by (simp add: put_tunnels_Cons map_len_put)
qed

lemma list_all_take: "list_all P xs \<Longrightarrow> list_all P (take n xs)"
  by (auto simp: list_all_iff dest: in_set_takeD)


definition sample_pool :: "Manager \<Rightarrow> TunnelPool" where
  "sample_pool m = NewTunnelPool 64 64 9 m"

definition sample_cm :: ClientManager where
  "sample_cm = NewClientManager 2 [''a:1'', ''wss://b:2''] 9 ''k'' True False"

definition tun_no :: "u32 \<Rightarrow> Tunnel" where
  "tun_no i = newTunnelWithID i \<lparr>avail = [], final = EOF\<rparr> 9"


text \<open>
  No endpoint is lost. Whatever dials fail, and whichever endpoints are moved because they
  failed twice in a row, the endpoints of the manager afterwards are those it had, reordered,
  up to the scheme the manager prepends.
\<close>

theorem client_endpoints_kept:
  assumes "good_endpoints (endpoints cm)" and "not_cancelled as"
    and "DecreaseNotify ival as cm tp g = (st, s')"
  shows "mset (map with_scheme (endpoints (dn_cm s'))) = mset (map with_scheme (endpoints cm))"
  using dn_loop_effect [OF _ assms(2) assms(3) [unfolded DecreaseNotify_def]] assms(1) by simp

theorem client_endpoints_kept_witness:
  "\<exists>st s'. DecreaseNotify 30 [(0, DialFails), (3, DialFails), (4, DialFails)]
       sample_cm (sample_pool (MClient sample_cm)) (NewStats 1, NewStats 1) = (st, s') \<and>
     mset (map with_scheme (endpoints (dn_cm s'))) = {#''ws://a:1'', ''wss://b:2''#}"
proof -
  let ?as = "[(0, DialFails), (3, DialFails), (4, DialFails)] :: (nat \<times> attempt) list"
  obtain st s' where r: "DecreaseNotify 30 ?as sample_cm (sample_pool (MClient sample_cm)) (NewStats 1, NewStats 1) = (st, s')"
    by fastforce
  have h: "good_endpoints (endpoints sample_cm)" "not_cancelled ?as"
    by (simp_all add: good_endpoints_def sample_cm_def NewClientManager_def not_cancelled_def)
  show ?thesis
    using client_endpoints_kept [OF h r] r
    by (auto simp: sample_cm_def NewClientManager_def with_scheme_def)
qed

text \<open>
  Without an endpoint the loop spins. If a tunnel is missing and the manager has no
  endpoint, \<open>DecreaseNotify\<close> neither returns nor dials nor waits, for any number of rounds,
  until the pool is cancelled.
\<close>

theorem client_no_endpoint_spins:
  assumes "endpoints cm = []" and "not_cancelled as" and "int (GetTunnelMappingLen tp) < tunnelNum cm"
  shows "\<exists>s'. DecreaseNotify ival as cm tp g = (DnRunning, s') \<and> dials s' = [] \<and> sleeps s' = [] \<and> dn_pool s' = tp"
proof -
  have "dn_loop ival as s = (DnRunning, s)" if "endpoints (dn_cm s) = []" "tunnelToCreate s > 0" for s
    using assms(2)
  proof (induction as)
    case Nil
    then show ?case using that by simp
  next
    case (Cons x as)
    obtain now a where x: "x = (now, a)" by fastforce
    then have "dn_round ival now a s = (DnRunning, s)"
      using Cons.prems that by (simp add: dn_round_def not_cancelled_def Let_def)
    then show ?case
      using Cons x that by (simp add: not_cancelled_def)
  qed
  then show ?thesis
    using assms(1,3) by (simp add: DecreaseNotify_def GetTunnelMappingLen_def)
qed

theorem client_no_endpoint_spins_witness:
  "\<exists>s'. DecreaseNotify 30 [(0, DialFails), (1, Dialed (tun_no 1))] (NewClientManager 1 [] 9 '''' False False)
     (sample_pool (MClient sample_cm)) (NewStats 1, NewStats 1) = (DnRunning, s') \<and> dials s' = []"
  using client_no_endpoint_spins [of "NewClientManager 1 [] 9 '''' False False"
      "[(0, DialFails), (1, Dialed (tun_no 1))]" "sample_pool (MClient sample_cm)" 30 "(NewStats 1, NewStats 1)"]
  by (auto simp: NewClientManager_def not_cancelled_def sample_pool_def NewTunnelPool_def GetTunnelMappingLen_def)

end
