(* ===== verification/Connection_Pool.thy ===== *)
theory Connection_Pool
  imports Outbound_Connection Tunnel_Pool
begin

text \<open>
  \<^verbatim>\<open>connection_pool/pool.go\<close>, \<^verbatim>\<open>peer/\<close>: the connections of one peer, keyed by their numbers. The pool
  creates connections, delivers the blocks of the tunnel pool to the connection they name, on
  the server creating it on its first block, and moves the blocks of the connections to the
  tunnel pool. A peer is such a pool over a tunnel pool; the server keeps one per peer number.
\<close>

section \<open>The pool\<close>

datatype Connection = InConn InboundConnection | OutConn OutboundConnection

fun GetConnectionID :: "Connection \<Rightarrow> u32" where
  "GetConnectionID (InConn c) = connectionID c"
| "GetConnectionID (OutConn c) = connectionID c"

fun conn_recvQueue :: "Connection \<Rightarrow> Block chan" where
  "conn_recvQueue (InConn c) = recvQueue c"
| "conn_recvQueue (OutConn c) = recvQueue c"

fun set_recvQueue :: "Block chan \<Rightarrow> Connection \<Rightarrow> Connection" where
  "set_recvQueue q (InConn c) = InConn (c\<lparr>recvQueue := q\<rparr>)"
| "set_recvQueue q (OutConn c) = OutConn (c\<lparr>recvQueue := q\<rparr>)"

record ConnectionPool =
  connectionMapping :: "(u32, Connection) go_map"
  cp_sendQueue :: "Block chan"
  acceptNewConnection :: bool
  cp_ctxDone :: bool

definition NewConnectionPool :: "nat \<Rightarrow> bool \<Rightarrow> ConnectionPool" where
  "NewConnectionPool SendQueueSize accept =
     \<lparr>connectionMapping = [], cp_sendQueue = make_chan SendQueueSize, acceptNewConnection = accept,
      cp_ctxDone = False\<rparr>"

definition both_stats :: "(Stats \<Rightarrow> Stats) \<Rightarrow> Stats \<times> Stats \<Rightarrow> Stats \<times> Stats" where
  "both_stats f g = (f (fst g), f (snd g))"

definition addConnection :: "Connection \<Rightarrow> ConnectionPool \<Rightarrow> Stats \<times> Stats \<Rightarrow> ConnectionPool \<times> (Stats \<times> Stats)" where
  "addConnection conn cp g =
     (cp\<lparr>connectionMapping := map_put (GetConnectionID conn) conn (connectionMapping cp)\<rparr>,
      both_stats IncrementConnectionCount g)"

definition removeConnection :: "Connection \<Rightarrow> ConnectionPool \<Rightarrow> Stats \<times> Stats \<Rightarrow> ConnectionPool \<times> (Stats \<times> Stats)" where
  "removeConnection conn cp g =
     (case map_get (connectionMapping cp) (GetConnectionID conn) of
        None \<Rightarrow> (cp, g)
      | Some _ \<Rightarrow>
          (cp\<lparr>connectionMapping := map_del (GetConnectionID conn) (connectionMapping cp)\<rparr>,
           both_stats DecrementConnectionCount g))"

text \<open>
  The sizes of the queues of a connection are configuration variables; a new inbound
  connection takes a random number.
\<close>

definition NewPooledInboundConnection ::
    "i64 \<Rightarrow> nat \<Rightarrow> nat \<Rightarrow> u32 \<Rightarrow> ConnectionPool \<Rightarrow> Stats \<times> Stats \<Rightarrow>
     InboundConnection \<times> ConnectionPool \<times> (Stats \<times> Stats)" where
  "NewPooledInboundConnection now recvSize orderedSize rand cp g =
     (let c = NewInboundConnection now recvSize orderedSize rand;
          (cp', g') = addConnection (InConn c) cp g in (c, cp', g'))"

definition NewPooledOutboundConnection ::
    "nat \<Rightarrow> nat \<Rightarrow> u32 \<Rightarrow> ConnectionPool \<Rightarrow> Stats \<times> Stats \<Rightarrow>
     OutboundConnection \<times> ConnectionPool \<times> (Stats \<times> Stats)" where
  "NewPooledOutboundConnection recvSize orderedSize connID cp g =
     (let c = NewOutboundConnection recvSize orderedSize connID;
          (cp', g') = addConnection (OutConn c) cp g in (c, cp', g'))"

section \<open>The relays of the pool\<close>

text \<open>
  Delivering one block. \<open>Delivered\<close> carries the address a new goroutine dials, if the block
  asks for it; \<open>UnknownConnection\<close> is the error branch of a pool that accepts no new
  connections; the last two are a full queue and the panic of a closed one.
\<close>

datatype deliver_result =
    Delivered "byte list option"
  | UnknownConnection
  | DeliverBlocks
  | DeliverPanics

definition conn_RecvBlock :: "Connection \<Rightarrow> Block \<Rightarrow> byte list option \<times> Block send_result" where
  "conn_RecvBlock conn blk =
     (case conn of
        InConn c \<Rightarrow> (None, RecvBlock c blk)
      | OutConn c \<Rightarrow> oc_RecvBlock c blk)"

definition deliver_to ::
    "Connection \<Rightarrow> Block \<Rightarrow> ConnectionPool \<Rightarrow> Stats \<times> Stats \<Rightarrow> deliver_result \<times> ConnectionPool \<times> (Stats \<times> Stats)" where
  "deliver_to conn blk cp g =
     (case conn_RecvBlock conn blk of
        (dial, Sent q) \<Rightarrow>
          (Delivered dial,
           cp\<lparr>connectionMapping := map_put (ConnectionID blk) (set_recvQueue q conn) (connectionMapping cp)\<rparr>, g)
      | (_, SendBlocks) \<Rightarrow> (DeliverBlocks, cp, g)
      | (_, SendPanics) \<Rightarrow> (DeliverPanics, cp, g))"

definition recvRelay_block ::
    "nat \<Rightarrow> nat \<Rightarrow> Block \<Rightarrow> ConnectionPool \<Rightarrow> Stats \<times> Stats \<Rightarrow> deliver_result \<times> ConnectionPool \<times> (Stats \<times> Stats)" where
  "recvRelay_block recvSize orderedSize blk cp g =
     (case map_get (connectionMapping cp) (ConnectionID blk) of
        Some conn \<Rightarrow> deliver_to conn blk cp g
      | None \<Rightarrow>
          if acceptNewConnection cp then
            (let (c, cp1, g1) = NewPooledOutboundConnection recvSize orderedSize (ConnectionID blk) cp g
             in deliver_to (OutConn c) blk cp1 g1)
          else (UnknownConnection, cp, g))"

text \<open>
  \<open>sendRelay\<close>: one block moves from the pool's queue to the tunnel pool's; \<open>None\<close> when nothing
  can move. A cancelled pool may also stop, which moves nothing.
\<close>

definition sendRelay_step :: "ConnectionPool \<Rightarrow> TunnelPool \<Rightarrow> (ConnectionPool \<times> TunnelPool) option" where
  "sendRelay_step cp tp =
     (case chan_recv (cp_sendQueue cp) of
        Received blk q \<Rightarrow>
          (case chan_send (tp_sendQueue tp) blk of
             Sent q' \<Rightarrow> Some (cp\<lparr>cp_sendQueue := q\<rparr>, tp\<lparr>tp_sendQueue := q'\<rparr>)
           | _ \<Rightarrow> None)
      | _ \<Rightarrow> None)"

text \<open>
  Cancelling the pool's context cancels those of its connections, which are derived from it; the
  goroutine that waits for each of them then takes the connection out of the pool.
\<close>

fun cancel_conn :: "Connection \<Rightarrow> Connection" where
  "cancel_conn (InConn c) = InConn (Stop c)"
| "cancel_conn (OutConn c) = OutConn (Stop c)"

definition stopRelay :: "ConnectionPool \<Rightarrow> ConnectionPool" where
  "stopRelay cp =
     cp\<lparr>cp_ctxDone := True,
       connectionMapping := map (\<lambda>(i, conn). (i, cancel_conn conn)) (connectionMapping cp)\<rparr>"

record connection_info =
  ci_connection_id :: u32
  ci_last_activity :: i64
  ci_latency_nano :: i64
  ci_recv_queue_length :: nat
  ci_ordered_recv_queue_length :: nat
  ci_sent_bytes :: u64
  ci_recv_bytes :: u64

definition base_info :: "'a baseConnection_scheme \<Rightarrow> connection_info" where
  "base_info c =
     \<lparr>ci_connection_id = connectionID c, ci_last_activity = LastActivity c, ci_latency_nano = LatencyNano c,
      ci_recv_queue_length = length (chan_buf (recvQueue c)),
      ci_ordered_recv_queue_length = length (chan_buf (orderedRecvQueue c)),
      ci_sent_bytes = SentBytes c, ci_recv_bytes = RecvBytes c\<rparr>"

definition GetConnectionsInfo :: "ConnectionPool \<Rightarrow> connection_info list" where
  "GetConnectionsInfo cp =
     map (\<lambda>(_, conn). case conn of InConn c \<Rightarrow> base_info c | OutConn c \<Rightarrow> base_info c) (connectionMapping cp)"

record connection_pool_info =
  cpi_connection_count :: nat
  cpi_send_queue_length :: nat
  cpi_tunnel_pool_size :: nat
  cpi_accept_new_connection :: bool

definition GetConnectionPoolInfo :: "ConnectionPool \<Rightarrow> TunnelPool \<Rightarrow> connection_pool_info" where
  "GetConnectionPoolInfo cp tp =
     \<lparr>cpi_connection_count = map_len (connectionMapping cp),
      cpi_send_queue_length = length (chan_buf (cp_sendQueue cp)),
      cpi_tunnel_pool_size = GetTunnelMappingLen tp,
      cpi_accept_new_connection = acceptNewConnection cp\<rparr>"

text \<open>The two calls the pool passes on to its tunnel pool.\<close>

definition GetTunnelsInfo :: "ConnectionPool \<Rightarrow> TunnelPool \<Rightarrow> tunnel_info list" where
  "GetTunnelsInfo cp tp = GetTunnelConnsInfo tp"

definition cp_GetTunnelPoolInfo :: "ConnectionPool \<Rightarrow> TunnelPool \<Rightarrow> tunnel_pool_info" where
  "cp_GetTunnelPoolInfo cp tp = GetTunnelPoolInfo tp"

section \<open>Lemmas about delivery\<close>

lemma conn_RecvBlock_queue: "snd (conn_RecvBlock conn blk) = chan_send (conn_recvQueue conn) blk"
  by (cases conn) (simp_all add: conn_RecvBlock_def RecvBlock_def oc_RecvBlock_def)

lemma set_recvQueue_sels [simp]:
  "conn_recvQueue (set_recvQueue q conn) = q" "GetConnectionID (set_recvQueue q conn) = GetConnectionID conn"
  by (cases conn; simp)+

text \<open>The contents of the receive queue of a connection, empty for an unknown number.\<close>

definition queued :: "ConnectionPool \<Rightarrow> u32 \<Rightarrow> Block list" where
  "queued cp i = (case map_get (connectionMapping cp) i of None \<Rightarrow> [] | Some conn \<Rightarrow> chan_buf (conn_recvQueue conn))"

definition cp_inv :: "ConnectionPool \<Rightarrow> bool" where
  "cp_inv cp \<longleftrightarrow> map_ok (connectionMapping cp) \<and>
     (\<forall>i. \<forall>conn \<in> set_option (map_get (connectionMapping cp) i). GetConnectionID conn = i)"

lemma deliver_to_spec:
  assumes "deliver_to conn blk cp g = (r, cp', g')"
  shows "g' = g \<and> acceptNewConnection cp' = acceptNewConnection cp \<and>
    (case r of
       Delivered d \<Rightarrow>
         cp' = cp\<lparr>connectionMapping := map_put (ConnectionID blk)
           (set_recvQueue ((conn_recvQueue conn)\<lparr>chan_buf := chan_buf (conn_recvQueue conn) @ [blk]\<rparr>) conn) (connectionMapping cp)\<rparr> \<and>
         d = fst (conn_RecvBlock conn blk)
     | UnknownConnection \<Rightarrow> False
     | DeliverBlocks \<Rightarrow> cp' = cp \<and> \<not> chan_closed (conn_recvQueue conn) \<and>
         chan_cap (conn_recvQueue conn) \<le> length (chan_buf (conn_recvQueue conn))
     | DeliverPanics \<Rightarrow> cp' = cp \<and> chan_closed (conn_recvQueue conn))"
proof -
  obtain d s where ds: "conn_RecvBlock conn blk = (d, s)" and s: "s = chan_send (conn_recvQueue conn) blk"
    using conn_RecvBlock_queue [of conn blk] by (metis prod.collapse)
  then show ?thesis
    using assms by (auto simp: deliver_to_def chan_send_def split: if_splits)
qed

lemma recvRelay_block_known:
  "map_get (connectionMapping cp) (ConnectionID blk) = Some conn \<Longrightarrow>
     recvRelay_block n m blk cp g = deliver_to conn blk cp g"
  by (simp add: recvRelay_block_def)

lemma recvRelay_block_new:
  assumes "map_get (connectionMapping cp) (ConnectionID blk) = None" and "acceptNewConnection cp"
  shows "recvRelay_block n m blk cp g =
    deliver_to (OutConn (NewOutboundConnection n m (ConnectionID blk))) blk
      (cp\<lparr>connectionMapping := map_put (ConnectionID blk) (OutConn (NewOutboundConnection n m (ConnectionID blk)))
        (connectionMapping cp)\<rparr>)
      (both_stats IncrementConnectionCount g)"
  using assms by (simp add: recvRelay_block_def NewPooledOutboundConnection_def addConnection_def
      NewOutboundConnection_def Let_def)

section \<open>Properties of the connection pool\<close>

text \<open>
  C27: a block reaches its connection and no other. When a block is delivered, it is appended
  to the receive queue of the connection whose number it carries, every other connection's
  queue is unchanged, and the pool stays well-formed; a goroutine that dials is started
  exactly for a connect block on an outbound connection, with the block's data as address.
\<close>

theorem block_routed:
  assumes "cp_inv cp" and "recvRelay_block n m blk cp g = (Delivered d, cp', g')"
  shows "cp_inv cp' \<and> (\<forall>i. queued cp' i = (if i = ConnectionID blk then queued cp i @ [blk] else queued cp i)) \<and>
    (case map_get (connectionMapping cp') (ConnectionID blk) of
       Some (OutConn _) \<Rightarrow> d = (if Type blk = TypeConnect then Some (BlockData blk) else None)
     | Some (InConn _) \<Rightarrow> d = None
     | None \<Rightarrow> False)"
proof (cases "map_get (connectionMapping cp) (ConnectionID blk)")
  case (Some conn)
  have "GetConnectionID conn = ConnectionID blk"
    using assms(1) Some by (simp add: cp_inv_def)
  moreover note deliver_to_spec [OF assms(2) [unfolded recvRelay_block_known [OF Some]]]
  ultimately show ?thesis
    using assms(1) Some
    by (cases conn) (auto simp: cp_inv_def queued_def conn_RecvBlock_def oc_RecvBlock_def split: if_splits)
next
  case None
  have acc: "acceptNewConnection cp"
    using assms(2) None by (auto simp: recvRelay_block_def split: if_splits)
  note deliver_to_spec [OF assms(2) [unfolded recvRelay_block_new [OF None acc]]]
  then show ?thesis
    using assms(1) None
    by (auto simp: cp_inv_def queued_def conn_RecvBlock_def oc_RecvBlock_def NewOutboundConnection_def split: if_splits)
qed

definition sample_cp :: "bool \<Rightarrow> ConnectionPool" where
  "sample_cp accept = NewConnectionPool 64 accept"

theorem block_routed_witness:
  "\<exists>cp' g'. recvRelay_block 32 32 (NewConnectBlock 0 5 0 [65]) (sample_cp True) (NewStats 1, NewStats 1) =
     (Delivered (Some [65]), cp', g') \<and> queued cp' 5 = [NewConnectBlock 0 5 0 [65]]"
proof -
  let ?blk = "NewConnectBlock 0 5 0 [65]" and ?g = "(NewStats 1, NewStats 1)"
  have inv: "cp_inv (sample_cp True)"
    by (simp add: cp_inv_def sample_cp_def NewConnectionPool_def)
  obtain cp' g' where r: "recvRelay_block 32 32 ?blk (sample_cp True) ?g = (Delivered (Some [65]), cp', g')"
    by (simp add: recvRelay_block_new sample_cp_def NewConnectionPool_def deliver_to_def conn_RecvBlock_def
        oc_RecvBlock_def NewOutboundConnection_def NewConnectBlock_def chan_send_def)
  show ?thesis
    using block_routed [OF inv r] r
    by (auto simp: queued_def sample_cp_def NewConnectionPool_def NewConnectBlock_def)
qed

text \<open>
  Blocks of unknown connections. A pool that accepts connections answers the first block of
  an unknown number with a new, closed outbound connection of that number whose queue holds
  that block; a pool that does not accept them drops the block and stays as it is.
\<close>

theorem unknown_connection:
  assumes "map_get (connectionMapping cp) (ConnectionID blk) = None" and "0 < n"
  shows "if acceptNewConnection cp
    then \<exists>d cp' c. recvRelay_block n m blk cp g = (Delivered d, cp', both_stats IncrementConnectionCount g) \<and>
      map_get (connectionMapping cp') (ConnectionID blk) = Some (OutConn c) \<and>
      baseConnection.closed c \<and> HalfOpenConn c = None \<and> chan_buf (recvQueue c) = [blk]
    else recvRelay_block n m blk cp g = (UnknownConnection, cp, g)"
proof (cases "acceptNewConnection cp")
  case True
  then show ?thesis
    using assms by (simp add: recvRelay_block_new deliver_to_def conn_RecvBlock_def oc_RecvBlock_def
        NewOutboundConnection_def chan_send_def)
next
  case False
  then show ?thesis
    using assms by (simp add: recvRelay_block_def)
qed

theorem unknown_connection_witness:
  "recvRelay_block 32 32 (NewPingBlock 0 5 0 1) (sample_cp False) (NewStats 1, NewStats 1) =
     (UnknownConnection, sample_cp False, (NewStats 1, NewStats 1))"
  using unknown_connection [of "sample_cp False" "NewPingBlock 0 5 0 1" 32 32 "(NewStats 1, NewStats 1)"]
  by (simp add: sample_cp_def NewConnectionPool_def)

text \<open>A script of additions and removals, with its counter.\<close>

datatype cp_op = AddConn Connection | RemoveConn Connection

fun cp_apply :: "cp_op \<Rightarrow> ConnectionPool \<times> (Stats \<times> Stats) \<Rightarrow> ConnectionPool \<times> (Stats \<times> Stats)" where
  "cp_apply (AddConn c) (cp, g) = addConnection c cp g"
| "cp_apply (RemoveConn c) (cp, g) = removeConnection c cp g"

fun as_pool_op :: "cp_op \<Rightarrow> (u32, Connection) pool_op" where
  "as_pool_op (AddConn c) = Put (GetConnectionID c) c"
| "as_pool_op (RemoveConn c) = Del (GetConnectionID c)"

lemma cp_apply_counter:
  "fold cp_apply ops (cp, g) = (cp', g') \<Longrightarrow>
     fold go_pool.apply_op (map as_pool_op ops) (connectionMapping cp, n) = (m, n') \<Longrightarrow>
     connectionMapping cp' = m \<and>
     connectionCount (fst g') = connectionCount (fst g) + of_int (n' - n) \<and>
     connectionCount (snd g') = connectionCount (snd g) + of_int (n' - n)"
proof (induction ops arbitrary: cp g n)
  case Nil
  then show ?case by simp
next
  case (Cons op ops)
  obtain cp1 g1 where s: "cp_apply op (cp, g) = (cp1, g1)"
    by (meson surj_pair)
  obtain n1 where n: "go_pool.apply_op (as_pool_op op) (connectionMapping cp, n) = (connectionMapping cp1, n1)"
      and c: "connectionCount (fst g1) = connectionCount (fst g) + of_int (n1 - n)"
        "connectionCount (snd g1) = connectionCount (snd g) + of_int (n1 - n)"
  proof (cases op)
    case (AddConn c)
    then show ?thesis
      using s that [of "n + 1"] by (auto simp: addConnection_def both_stats_def IncrementConnectionCount_def)
  next
    case (RemoveConn c)
    then show ?thesis
      using s that [of "n - 1"] that [of n]
      by (auto simp: removeConnection_def both_stats_def DecrementConnectionCount_def split: option.splits)
  qed
  show ?case
    using Cons.IH [of cp1 g1 n1] Cons.prems s n c by simp
qed

text \<open>
  C30: the connection counter is exact. For any script of additions and removals in which no
  connection is added under a number that is in use, both global counters change by exactly
  the change of the number of connections in the pool (modulo \<open>2\<^sup>3\<^sup>2\<close>).
\<close>

theorem connection_count_exact:
  assumes "map_ok (connectionMapping cp)" and "go_pool.fresh_ops (map as_pool_op ops) (connectionMapping cp)"
    and "fold cp_apply ops (cp, g) = (cp', g')"
  shows "connectionCount (fst g') - connectionCount (fst g) =
      of_int (int (map_len (connectionMapping cp')) - int (map_len (connectionMapping cp))) \<and>
    connectionCount (snd g') - connectionCount (snd g) =
      of_int (int (map_len (connectionMapping cp')) - int (map_len (connectionMapping cp)))"
proof -
  obtain m n' where f: "fold go_pool.apply_op (map as_pool_op ops) (connectionMapping cp, 0) = (m, n')"
    by fastforce
  note cp_apply_counter [OF assms(3) f] and go_pool.counter_exact [OF assms(1,2) f]
  then show ?thesis
    by simp
qed

theorem connection_count_exact_witness:
  "\<exists>cp' g'. fold cp_apply [AddConn (OutConn (NewOutboundConnection 1 1 5)), AddConn (OutConn (NewOutboundConnection 1 1 6)),
       RemoveConn (OutConn (NewOutboundConnection 1 1 5))] (sample_cp True, (NewStats 1, NewStats 1)) = (cp', g') \<and>
     connectionCount (fst g') = of_nat (map_len (connectionMapping cp'))"
proof -
  let ?ops = "[AddConn (OutConn (NewOutboundConnection 1 1 5)), AddConn (OutConn (NewOutboundConnection 1 1 6)),
       RemoveConn (OutConn (NewOutboundConnection 1 1 5))]"
  obtain cp' g' where r: "fold cp_apply ?ops (sample_cp True, (NewStats 1, NewStats 1)) = (cp', g')"
    by (metis surj_pair)
  have ok: "map_ok (connectionMapping (sample_cp True))"
    by (simp add: sample_cp_def NewConnectionPool_def)
  have fr: "go_pool.fresh_ops (map as_pool_op ?ops) (connectionMapping (sample_cp True))"
    by (simp add: sample_cp_def NewConnectionPool_def NewOutboundConnection_def)
  show ?thesis
    using connection_count_exact [OF ok fr r] r
    by (auto simp: sample_cp_def NewConnectionPool_def NewStats_def)
qed

end
