(* ===== verification/Peer_Group.thy ===== *)
theory Peer_Group
  imports Connection_Pool
begin

text \<open>
  \<^verbatim>\<open>peer/\<close>: a peer is a connection pool over a tunnel pool. The client has one and dials through
  it; the server keeps a group of them by peer number, creating a peer when the first tunnel
  with its number arrives. A connection that is in a pool and in the hands of a caller is one
  object, so operations on it are written back to the pool.
\<close>

section \<open>Peers\<close>

record Peer =
  p_peerID :: u32
  connectionPool :: ConnectionPool
  tunnelPool :: TunnelPool
  p_ctxDone :: bool

record pool_sizes =
  TunnelSendQueueSize :: nat
  TunnelRecvQueueSize :: nat
  ConnSendQueueSize :: nat
  ConnRecvQueueSize :: nat
  ConnOrderedRecvQueueSize :: nat

definition newClientPeerWithID ::
    "pool_sizes \<Rightarrow> u32 \<Rightarrow> int \<Rightarrow> string list \<Rightarrow> string \<Rightarrow> bool \<Rightarrow> bool \<Rightarrow> Peer" where
  "newClientPeerWithID z pid n es key ins retry =
     (let poolManager = NewClientManager n es pid key ins retry
      in \<lparr>p_peerID = pid, connectionPool = NewConnectionPool (ConnSendQueueSize z) False,
          tunnelPool = NewTunnelPool (TunnelSendQueueSize z) (TunnelRecvQueueSize z) pid (MClient poolManager),
          p_ctxDone = False\<rparr>)"

text \<open>
  \<open>initRand\<close>: the seed of the random numbers, from the system's source of random bytes, or the error
  of reading it. \<open>uint32\<close> is the first number the generator yields for a seed. \<open>None\<close>: the panic
  when there is no seed.
\<close>

definition initRand :: "source \<Rightarrow> io_error + i64" where
  "initRand crand =
     (case fst (ReadFull 8 crand) of
        Inl err \<Rightarrow> Inl err
      | Inr seedBytes \<Rightarrow> Inr (le_word seedBytes))"

definition NewClientPeer ::
    "(i64 \<Rightarrow> u32) \<Rightarrow> source \<Rightarrow> pool_sizes \<Rightarrow> int \<Rightarrow> string list \<Rightarrow> string \<Rightarrow> bool \<Rightarrow> bool \<Rightarrow> Peer option" where
  "NewClientPeer uint32 crand z n es key ins retry =
     (case initRand crand of
        Inl _ \<Rightarrow> None
      | Inr seed \<Rightarrow> Some (newClientPeerWithID z (uint32 seed) n es key ins retry))"

definition NewServerPeerWithID :: "pool_sizes \<Rightarrow> u32 \<Rightarrow> Peer" where
  "NewServerPeerWithID z pid =
     \<lparr>p_peerID = pid, connectionPool = NewConnectionPool (ConnSendQueueSize z) True,
      tunnelPool = NewTunnelPool (TunnelSendQueueSize z) (TunnelRecvQueueSize z) pid (MServer NewServerManager),
      p_ctxDone = False\<rparr>"

text \<open>Cancelling a peer cancels the contexts of both pools, which are derived from it, and with the
  connection pool's those of its connections.\<close>

definition p_Stop :: "Peer \<Rightarrow> Peer" where
  "p_Stop p = p\<lparr>p_ctxDone := True, connectionPool := stopRelay (connectionPool p),
     tunnelPool := (tunnelPool p)\<lparr>tp_ctxDone := True\<rparr>\<rparr>"

text \<open>\<open>Dial\<close>: the connection, the blocks it sends, the peer and the counters.\<close>

definition Dial ::
    "pool_sizes \<Rightarrow> i64 \<Rightarrow> i64 \<Rightarrow> u32 \<Rightarrow> byte list \<Rightarrow> Peer \<Rightarrow> Stats \<times> Stats \<Rightarrow>
     InboundConnection \<times> Block list \<times> Peer \<times> (Stats \<times> Stats)" where
  "Dial z now now' rand address p g =
     (let (conn, cp, g') = NewPooledInboundConnection now (ConnRecvQueueSize z) (ConnOrderedRecvQueueSize z) rand
            (connectionPool p) g;
          (blks, conn') = SendConnect now' address conn;
          cp' = cp\<lparr>connectionMapping := map_put (connectionID conn') (InConn conn') (connectionMapping cp)\<rparr>
      in (conn', blks, p\<lparr>connectionPool := cp'\<rparr>, g'))"

section \<open>The group\<close>

type_synonym PeerGroup = "(u32, Peer) go_map"

definition NewPeerGroup :: "source \<Rightarrow> PeerGroup option" where
  "NewPeerGroup crand = (case initRand crand of Inl _ \<Rightarrow> None | Inr _ \<Rightarrow> Some [])"

definition pg_AddTunnel ::
    "pool_sizes \<Rightarrow> int \<Rightarrow> nat \<Rightarrow> Tunnel \<Rightarrow> PeerGroup \<Rightarrow> Stats \<times> Stats \<Rightarrow> PeerGroup \<times> (Stats \<times> Stats)" where
  "pg_AddTunnel z PingInterval now tun pg g =
     (let p = (case map_get pg (peerID tun) of Some p \<Rightarrow> p | None \<Rightarrow> NewServerPeerWithID z (peerID tun));
          (tp, g', _) = AddTunnel PingInterval now tun (tunnelPool p) g
      in (map_put (peerID tun) (p\<lparr>tunnelPool := tp\<rparr>) pg, g'))"

text \<open>
  \<open>AddTunnelFromConn\<close>: the exchange of the peer number on a new connection; on an error the
  connection is closed and nothing is added.
\<close>

definition AddTunnelFromConn ::
    "pool_sizes \<Rightarrow> int \<Rightarrow> nat \<Rightarrow> net_write \<Rightarrow> u32 \<Rightarrow> source \<Rightarrow> PeerGroup \<Rightarrow> Stats \<times> Stats \<Rightarrow>
     exchange_error option \<times> PeerGroup \<times> (Stats \<times> Stats)" where
  "AddTunnelFromConn z PingInterval now w rand conn pg g =
     (case NewPassiveTunnel w rand conn of
        (Some e, _) \<Rightarrow> (Some e, pg, g)
      | (None, tun) \<Rightarrow> (let (pg', g') = pg_AddTunnel z PingInterval now tun pg g in (None, pg', g')))"

definition RemovePeer :: "u32 \<Rightarrow> PeerGroup \<Rightarrow> PeerGroup" where
  "RemovePeer pid pg = map_del pid pg"

definition GetAllConnectionPools :: "PeerGroup \<Rightarrow> ConnectionPool list" where
  "GetAllConnectionPools pg = map (connectionPool \<circ> snd) pg"

definition GetAllTunnelPools :: "PeerGroup \<Rightarrow> TunnelPool list" where
  "GetAllTunnelPools pg = map (tunnelPool \<circ> snd) pg"

definition pg_Stop :: "PeerGroup \<Rightarrow> PeerGroup" where
  "pg_Stop pg = map (\<lambda>(k, p). (k, p_Stop p)) pg"

section \<open>Properties of peers\<close>

definition tunnels_of :: "PeerGroup \<Rightarrow> u32 \<Rightarrow> (u32, Tunnel) go_map" where
  "tunnels_of pg pid = (case map_get pg pid of None \<Rightarrow> [] | Some p \<Rightarrow> tunnelMapping (tunnelPool p))"

lemma pg_AddTunnel_tunnels:
  assumes "pg_AddTunnel z ival now tun pg g = (pg', g')"
  shows "tunnels_of pg' i =
    (if i = peerID tun then map_put (tunnelID tun) tun (tunnels_of pg i) else tunnels_of pg i)"
  using assms
  by (auto simp: pg_AddTunnel_def AddTunnel_def tunnels_of_def NewServerPeerWithID_def NewTunnelPool_def Let_def
      split: option.splits)

text \<open>
  A tunnel joins the peer it names. When a client's peer number arrives on a new
  connection, the tunnel made from it is found in the pool of the peer with that number,
  together with the tunnels already there, and every other peer's tunnels are unchanged; the
  number is sent back on the connection. When no number arrives the group stays as it is.
\<close>

theorem tunnel_joins_its_peer:
  "case AddTunnelFromConn z ival now WriteOk rand \<lparr>avail = bs, final = e\<rparr> pg g of
     (None, pg', _) \<Rightarrow> \<exists>pid rest tun. bs = le_bytes 4 pid @ rest \<and> peerID tun = pid \<and> tunnelID tun = rand \<and>
       t_out tun = le_bytes 4 pid \<and> avail (t_in tun) = rest \<and>
       (\<forall>i. tunnels_of pg' i = (if i = pid then map_put rand tun (tunnels_of pg i) else tunnels_of pg i))
   | (Some _, pg', _) \<Rightarrow> length bs < 4 \<and> pg' = pg"
proof (cases "length bs < 4")
  case True
  then have "\<exists>x. NewPassiveTunnel WriteOk rand \<lparr>avail = bs, final = e\<rparr> = (Some x, (newTunnelWithID rand \<lparr>avail = [], final = e\<rparr> 0))"
    by (simp add: NewPassiveTunnel_def passiveExchangePeerID_def recvPeerID_def ReadFull_def conn_source_def
        newTunnelWithID_def)
  then show ?thesis
    using True by (auto simp: AddTunnelFromConn_def)
next
  case False
  define pid :: u32 where "pid = le_word (take 4 bs)"
  define tun where "tun = (newTunnelWithID rand \<lparr>avail = drop 4 bs, final = e\<rparr> 0)\<lparr>t_out := le_bytes 4 pid, peerID := pid\<rparr>"
  have t: "NewPassiveTunnel WriteOk rand \<lparr>avail = bs, final = e\<rparr> = (None, tun)"
    using False by (simp add: NewPassiveTunnel_def passiveExchangePeerID_def recvPeerID_def ReadFull_def conn_source_def
        newTunnelWithID_def sendPeerID_def conn_write_def tun_def pid_def)
  obtain pg' g' where pg: "pg_AddTunnel z ival now tun pg g = (pg', g')"
    by (meson surj_pair)
  have "le_bytes 4 pid = take 4 bs"
    using False by (simp add: pid_def)
  then have "bs = le_bytes 4 pid @ drop 4 bs"
    by simp
  moreover have "peerID tun = pid" "tunnelID tun = rand" "t_out tun = le_bytes 4 pid" "avail (t_in tun) = drop 4 bs"
    by (simp_all add: tun_def newTunnelWithID_def)
  ultimately show ?thesis
    using pg_AddTunnel_tunnels [OF pg] t pg by (auto simp: AddTunnelFromConn_def intro!: exI [of _ pid])
qed

text \<open>
  The race between a returning client and the removal of its peer. A tunnel that arrives
  after the peer has been cancelled and before it is taken out of the group is added to the
  cancelled peer and then forgotten with it; arriving after the removal it gets a new peer.
\<close>

theorem tunnel_lost_in_removal:
  "let pg1 = RemovePeer (peerID tun) (fst (pg_AddTunnel z ival now tun pg g));
       pg2 = fst (pg_AddTunnel z ival now tun (RemovePeer (peerID tun) pg) g)
   in map_get pg1 (peerID tun) = None \<and> tunnels_of pg2 (peerID tun) = [(tunnelID tun, tun)]"
proof -
  have "tunnels_of (RemovePeer (peerID tun) pg) (peerID tun) = []"
    by (simp add: tunnels_of_def RemovePeer_def)
  then show ?thesis
    using pg_AddTunnel_tunnels [of z ival now tun "RemovePeer (peerID tun) pg" g, OF prod.collapse [symmetric]]
    by (simp add: RemovePeer_def map_put_def)
qed

text \<open>
  Dialling through the client peer. A new connection is registered under its number, open,
  and exactly one block is sent for it: the connect block with the address, which carries
  block number 0 and is the first of the connection's stream.
\<close>

theorem client_dial:
  "case Dial z now now' rand address p g of
     (conn, blks, p', g') \<Rightarrow>
       map_get (connectionMapping (connectionPool p')) rand = Some (InConn conn) \<and>
       blks = [NewConnectBlock now' rand 0 address] \<and> connectionID conn = rand \<and> \<not> baseConnection.closed conn \<and>
       sendBlockID (processor conn) = 1 \<and> recvBlockID (processor conn) = 0 \<and>
       tunnelPool p' = tunnelPool p \<and> g' = both_stats IncrementConnectionCount g"
  by (simp add: Dial_def NewPooledInboundConnection_def addConnection_def SendConnect_def packConnect_def
      NewInboundConnection_def newBlockProcessor_def Let_def)

text \<open>
  Peers start exactly when there is a seed. The client's peer and the server's group are made when
  the source of random bytes yields eight bytes, and otherwise the program panics; the client's number
  is the one the generator yields for the seed these bytes encode.
\<close>

lemma initRand_ok: "initRand \<lparr>avail = le_bytes 8 seed @ rest, final = e\<rparr> = Inr seed"
  by (simp add: initRand_def ReadFull_append)

lemma initRand_short: "length (avail crand) < 8 \<Longrightarrow> \<exists>err. initRand crand = Inl err"
  by (simp add: initRand_def ReadFull_def)

lemma initRand_enough:
  assumes "8 \<le> length (avail crand)"
  shows "initRand crand = Inr (le_word (take 8 (avail crand)))"
  using assms by (simp add: initRand_def ReadFull_def)

theorem peers_need_seed:
  "(NewClientPeer uint32 crand z n es key ins retry = None \<longleftrightarrow> length (avail crand) < 8) \<and>
   (NewPeerGroup crand = None \<longleftrightarrow> length (avail crand) < 8) \<and>
   map_option p_peerID (NewClientPeer uint32 \<lparr>avail = le_bytes 8 seed @ rest, final = e\<rparr> z n es key ins retry) =
     Some (uint32 seed)"
proof (cases "length (avail crand) < 8")
  case True
  then show ?thesis
    using initRand_short [of crand] initRand_ok [of seed rest e]
    by (auto simp: NewClientPeer_def NewPeerGroup_def newClientPeerWithID_def)
next
  case False
  then show ?thesis
    using initRand_enough [of crand] initRand_ok [of seed rest e]
    by (auto simp: NewClientPeer_def NewPeerGroup_def newClientPeerWithID_def)
qed

text \<open>
  Stopping a peer reaches its connections. After \<open>Stop\<close> both pools and every connection registered with
  the peer are cancelled; the tunnels, whose contexts are made separately, are not.
\<close>

definition conn_ctxDone :: "Connection \<Rightarrow> bool" where
  "conn_ctxDone conn = (case conn of InConn c \<Rightarrow> ctxDone c | OutConn c \<Rightarrow> ctxDone c)"

lemma cancel_conn_done: "conn_ctxDone (cancel_conn conn) \<and> GetConnectionID (cancel_conn conn) = GetConnectionID conn"
  by (cases conn) (simp_all add: conn_ctxDone_def Stop_def)

lemma p_Stop_all:
  "p_ctxDone (p_Stop p) \<and> cp_ctxDone (connectionPool (p_Stop p)) \<and> tp_ctxDone (tunnelPool (p_Stop p)) \<and>
   list_all (\<lambda>(i, conn). conn_ctxDone conn) (connectionMapping (connectionPool (p_Stop p))) \<and>
   map fst (connectionMapping (connectionPool (p_Stop p))) = map fst (connectionMapping (connectionPool p)) \<and>
   tunnelMapping (tunnelPool (p_Stop p)) = tunnelMapping (tunnelPool p)"
  by (auto simp: p_Stop_def stopRelay_def list_all_iff cancel_conn_done)

end
