(* ===== verification/Cmd_Text.thy ===== *)
theory Cmd_Text
  imports Main
begin

text \<open>
  The text helpers of \<^verbatim>\<open>cmd/rabbit.go\<close>: the hand-written \<open>find\<close>, \<open>split\<close> and \<open>trimSpace\<close>, the
  library functions they imitate (on ASCII text), and \<open>splitAndTrim\<close>, which reads lists of
  addresses from the command line.
\<close>

section \<open>Searching\<close>

definition match_at :: "string \<Rightarrow> nat \<Rightarrow> string \<Rightarrow> bool" where
  "match_at s i substr = list_all (\<lambda>j. s ! (i + j) = substr ! j) [0..<length substr]"

function find_loop :: "string \<Rightarrow> string \<Rightarrow> nat \<Rightarrow> int" where
  "find_loop s substr i =
     (if i + length substr \<le> length s then
        if match_at s i substr then int i else find_loop s substr (i + 1)
      else -1)"
  by pat_completeness auto
termination
  by (relation "measure (\<lambda>(s, substr, i). length s + 1 - i)") auto

declare find_loop.simps [simp del]

definition find_str :: "string \<Rightarrow> string \<Rightarrow> int" where
  "find_str s substr = find_loop s substr 0"

text \<open>
  \<open>split\<close> as it is written, over the rest of the string; it does not end for an empty
  separator, so the loop has fuel.
\<close>

fun split_loop :: "nat \<Rightarrow> string \<Rightarrow> string \<Rightarrow> string list option" where
  "split_loop 0 s sep = None"
| "split_loop (Suc fuel) s sep =
     (let i = find_str s sep in
      if i = -1 then Some [s]
      else map_option (Cons (take (nat i) s)) (split_loop fuel (drop (nat i + length sep) s) sep))"

definition is_blank :: "char \<Rightarrow> bool" where
  "is_blank c = (c \<in> {CHR '' '', CHR 0x09, CHR 0x0A, CHR 0x0D})"

definition trimSpace :: "string \<Rightarrow> string" where
  "trimSpace s = rev (dropWhile is_blank (rev (dropWhile is_blank s)))"

section \<open>The library functions\<close>

text \<open>\<^verbatim>\<open>strings.Split\<close> for a separator of one character.\<close>

fun split_on :: "char \<Rightarrow> string \<Rightarrow> string list" where
  "split_on c [] = [[]]"
| "split_on c (x # xs) =
     (if x = c then [] # split_on c xs
      else (case split_on c xs of [] \<Rightarrow> [[x]] | y # ys \<Rightarrow> (x # y) # ys))"

text \<open>\<^verbatim>\<open>strings.TrimSpace\<close> on ASCII text also removes vertical tabs and form feeds.\<close>

definition is_space :: "char \<Rightarrow> bool" where
  "is_space c = (is_blank c \<or> c \<in> {CHR 0x0B, CHR 0x0C})"

definition TrimSpace :: "string \<Rightarrow> string" where
  "TrimSpace s = rev (dropWhile is_space (rev (dropWhile is_space s)))"

definition splitAndTrim :: "string \<Rightarrow> char \<Rightarrow> string list" where
  "splitAndTrim s sep =
     (if s = [] then [] else filter (\<lambda>p. p \<noteq> []) (map TrimSpace (split_on sep s)))"

section \<open>Lemmas about splitting\<close>

lemma split_on_nonempty [simp]: "split_on c s \<noteq> []"
  by (induction s) (auto split: list.splits)

lemma match_at_single: "i < length s \<Longrightarrow> match_at s i [c] \<longleftrightarrow> s ! i = c"
  by (simp add: match_at_def)

lemma find_str_single_Cons:
  "find_str (x # xs) [c] = (if x = c then 0 else if find_str xs [c] = -1 then -1 else find_str xs [c] + 1)"
proof -
  have "find_loop (x # xs) [c] (Suc i) = (if find_loop xs [c] i = -1 then -1 else find_loop xs [c] i + 1)" for i
  proof (induction xs "[c]" i rule: find_loop.induct)
    case (1 xs i)
    show ?case
      using 1 match_at_single [of i xs c] match_at_single [of "Suc i" "x # xs" c]
      by (subst (1 2 3) find_loop.simps) auto
  qed
  moreover have "find_loop (x # xs) [c] 0 = (if x = c then 0 else find_loop (x # xs) [c] (Suc 0))"
    using match_at_single [of 0 "x # xs" c] by (subst find_loop.simps) auto
  ultimately show ?thesis
    by (simp add: find_str_def)
qed

lemma find_str_Nil_single: "find_str [] [c] = -1"
  by (simp add: find_str_def find_loop.simps)

lemma find_str_ge: "-1 \<le> find_str s [c]"
  by (induction s) (auto simp: find_str_single_Cons find_str_Nil_single)

lemma split_on_step:
  "split_on c s = (if find_str s [c] = -1 then [s]
     else take (nat (find_str s [c])) s # split_on c (drop (nat (find_str s [c]) + 1) s))"
proof (induction s)
  case Nil
  show ?case by (simp add: find_str_Nil_single)
next
  case (Cons x xs)
  have "nat (find_str xs [c] + 1) = Suc (nat (find_str xs [c]))" if "find_str xs [c] \<noteq> -1"
    using that find_str_ge [of xs c] by simp
  then show ?case
    using Cons.IH by (auto simp: find_str_single_Cons)
qed

lemma split_loop_enough:
  "length s < fuel \<Longrightarrow> split_loop fuel s [c] = Some (split_on c s)"
proof (induction fuel arbitrary: s)
  case (Suc fuel)
  show ?case
  proof (cases "find_str s [c] = -1")
    case True
    then show ?thesis
      using split_on_step [of c s] by simp
  next
    case False
    then have "s \<noteq> []"
      by (auto simp: find_str_Nil_single)
    then have "length (drop (nat (find_str s [c]) + 1) s) < fuel"
      using Suc.prems by (cases s) auto
    then show ?thesis
      using Suc.IH False split_on_step [of c s] by (simp add: Let_def)
  qed
qed simp

section \<open>Properties of the text helpers\<close>

text \<open>
  C40: the hand-written \<open>split\<close> is the library's. For every separator of one character it returns
  after at most one round more than the string has characters, with the parts that
  \<^verbatim>\<open>strings.Split\<close> returns; for the empty separator it never returns.
\<close>

theorem split_matches_library:
  "split_loop (length s + 1) s [c] = Some (split_on c s) \<and> split_loop fuel s [] = None"
proof -
  have "find_str t [] = 0" for t
    by (simp add: find_str_def find_loop.simps match_at_def)
  then have "split_loop fuel s [] = None"
    by (induction fuel arbitrary: s) (simp_all add: Let_def)
  then show ?thesis
    using split_loop_enough [of s "length s + 1" c] by simp
qed

fun join_on :: "char \<Rightarrow> string list \<Rightarrow> string" where
  "join_on c [] = []"
| "join_on c [x] = x"
| "join_on c (x # y # xs) = x @ c # join_on c (y # xs)"

lemma join_split: "join_on c (split_on c s) = s"
proof (induction s)
  case (Cons x xs)
  obtain y ys where "split_on c xs = y # ys"
    by (cases "split_on c xs") auto
  then show ?case
    using Cons by (cases ys) auto
qed simp

lemma split_on_parts: "list_all (\<lambda>p. c \<notin> set p) (split_on c s)"
  by (induction s) (auto split: list.splits)

lemma dropWhile_hd: "xs = [] \<or> \<not> P (hd xs) \<Longrightarrow> dropWhile P xs = xs"
  by (cases xs) auto

lemma TrimSpace_ends: "TrimSpace s = [] \<or> \<not> is_space (hd (TrimSpace s)) \<and> \<not> is_space (last (TrimSpace s))"
proof (cases "TrimSpace s = []")
  case False
  let ?a = "dropWhile is_space s"
  have last: "\<not> is_space (last (TrimSpace s))"
    using False hd_dropWhile [of is_space "rev ?a"] by (auto simp: TrimSpace_def last_rev)
  obtain ys where "?a = TrimSpace s @ ys"
    unfolding TrimSpace_def by (metis rev_append rev_rev_ident takeWhile_dropWhile_id)
  then have "hd ?a = hd (TrimSpace s)" "?a \<noteq> []"
    using False by auto
  then show ?thesis
    using last hd_dropWhile [of is_space s] by (auto simp: dropWhile_eq_Nil_conv)
qed simp

lemma TrimSpace_set: "set (TrimSpace s) \<subseteq> set s"
  unfolding TrimSpace_def by (metis order_trans set_dropWhileD set_rev subsetI)

text \<open>
  What \<open>splitAndTrim\<close> returns is usable. Every part is non-empty, free of the separator and
  neither begins nor ends with white space.
\<close>

lemma split_and_trim_clean:
  "list_all (\<lambda>p. p \<noteq> [] \<and> sep \<notin> set p \<and> \<not> is_space (hd p) \<and> \<not> is_space (last p)) (splitAndTrim s sep)"
proof -
  have "sep \<notin> set (TrimSpace p)" if "p \<in> set (split_on sep s)" for p
    using that split_on_parts [of sep s] TrimSpace_set [of p] by (auto simp: list_all_iff)
  then show ?thesis
    using TrimSpace_ends by (auto simp: splitAndTrim_def list_all_iff)
qed

end
