(* ===== verification/Cmd_Config.thy ===== *)
theory Cmd_Config
  imports Cmd_Text Stats
begin

text \<open>
  \<^verbatim>\<open>cmd/rabbit.go\<close>: the configuration with its defaults, the merge of the configuration file
  and the command line, and the checks before the program starts. Reading files and YAML belong
  to libraries and are arguments.
\<close>

section \<open>The configuration\<close>

record Config =
  Mode :: string
  cfg_mode :: nat
  AppName :: string
  Verbose :: int
  RabbitAddr :: "string list"
  cfg_Password :: string
  AEADCipher :: string
  Listen :: string
  Dest :: string
  TunnelN :: int
  AuthKey :: string
  TLSCertFile :: string
  TLSKeyFile :: string
  Insecure :: bool
  UseSyslog :: bool
  RetryFailedAddr :: bool
  MemProf :: string
  StatusServer :: string
  StatusACL :: string
  PingIntervalSec :: int
  DialTimeoutSec :: int
  RecvTimeoutSec :: int
  PacketWaitTimeoutSec :: int
  ReconnectDelaySec :: int
  OutboundBlockTimeoutSec :: int
  MaxRetries :: int
  OrderedRecvQueueSize :: int
  SendQueueSize :: int
  RecvQueueSize :: int
  OutboundRecvBufferSize :: int

definition ClientMode :: nat where "ClientMode = 0"
definition ServerMode :: nat where "ServerMode = 1"
definition DefaultPassword :: string where "DefaultPassword = ''PASSWORD''"

definition NewDefaultConfig :: Config where
  "NewDefaultConfig =
     \<lparr>Mode = ''client'', cfg_mode = 0, AppName = ''rabbit-mtcp-ws'', Verbose = 4,
      RabbitAddr = [''ws://127.0.0.1:443/tunnel''], cfg_Password = ''PASSWORD'',
      AEADCipher = ''CHACHA20-IETF-POLY1305'', Listen = ''127.0.0.1:1080'', Dest = '''', TunnelN = 4,
      AuthKey = '''', TLSCertFile = '''', TLSKeyFile = '''', Insecure = True, UseSyslog = True,
      RetryFailedAddr = True, MemProf = '''', StatusServer = '''', StatusACL = '''', PingIntervalSec = 30,
      DialTimeoutSec = 6, RecvTimeoutSec = 20, PacketWaitTimeoutSec = 8, ReconnectDelaySec = 5,
      OutboundBlockTimeoutSec = 3, MaxRetries = 3, OrderedRecvQueueSize = 32, SendQueueSize = 32,
      RecvQueueSize = 32, OutboundRecvBufferSize = 32 * 1024\<rparr>"

text \<open>
  The command line after parsing: \<open>Some\<close> for the flags that were set, which is what
  \<^verbatim>\<open>flagsSeen\<close> records.
\<close>

record flag_args =
  configFileArg :: "string option"
  modeArg :: "string option"
  appNameArg :: "string option"
  verboseArg :: "int option"
  rabbitAddrArg :: "string option"
  aeadCipherArg :: "string option"
  passwordArg :: "string option"
  listenArg :: "string option"
  destArg :: "string option"
  tunnelNArg :: "int option"
  authKeyArg :: "string option"
  tlsCertFileArg :: "string option"
  tlsKeyFileArg :: "string option"
  insecureArg :: "bool option"
  useSyslogArg :: "bool option"
  retryFailedAddrArg :: "bool option"
  memProfArg :: "string option"
  statusServerArg :: "string option"
  statusACLArg :: "string option"
  pingIntervalSecArg :: "int option"
  dialTimeoutSecArg :: "int option"
  recvTimeoutSecArg :: "int option"
  packetWaitTimeoutSecArg :: "int option"
  reconnectDelaySecArg :: "int option"
  outboundBlockTimeoutSecArg :: "int option"
  maxRetriesArg :: "int option"
  orderedRecvQueueSizeArg :: "int option"
  sendQueueSizeArg :: "int option"
  recvQueueSizeArg :: "int option"
  outboundRecvBufferSizeArg :: "int option"
  printVersionArg :: bool

definition lower_char :: "char \<Rightarrow> char" where
  "lower_char c = (if 65 \<le> (of_char c :: nat) \<and> (of_char c :: nat) \<le> 90 then char_of ((of_char c :: nat) + 32) else c)"

definition ToLower :: "string \<Rightarrow> string" where
  "ToLower s = map lower_char s"

definition over :: "'a option \<Rightarrow> 'a \<Rightarrow> 'a" where
  "over flag old = (case flag of None \<Rightarrow> old | Some v \<Rightarrow> v)"

text \<open>The command line over what the file and the defaults gave, in the order of the code.\<close>

definition apply_flags :: "flag_args \<Rightarrow> Config \<Rightarrow> Config" where
  "apply_flags a cfg =
     (let cfg1 = cfg\<lparr>Mode := over (map_option ToLower (modeArg a)) (Mode cfg)\<rparr>;
          cfg2 = cfg1\<lparr>Mode := ToLower (Mode cfg1)\<rparr>
      in cfg2
        \<lparr>Verbose := over (verboseArg a) (Verbose cfg2),
         AppName := over (appNameArg a) (AppName cfg2),
         RabbitAddr := over (map_option (\<lambda>s. splitAndTrim s (CHR '','')) (rabbitAddrArg a)) (RabbitAddr cfg2),
         cfg_Password := over (passwordArg a) (cfg_Password cfg2),
         AEADCipher := over (aeadCipherArg a) (AEADCipher cfg2),
         Listen := over (listenArg a) (Listen cfg2),
         Dest := over (destArg a) (Dest cfg2),
         TunnelN := over (tunnelNArg a) (TunnelN cfg2),
         AuthKey := over (authKeyArg a) (AuthKey cfg2),
         TLSCertFile := over (tlsCertFileArg a) (TLSCertFile cfg2),
         TLSKeyFile := over (tlsKeyFileArg a) (TLSKeyFile cfg2),
         Insecure := over (insecureArg a) (Insecure cfg2),
         MemProf := over (memProfArg a) (MemProf cfg2),
         RetryFailedAddr := over (retryFailedAddrArg a) (RetryFailedAddr cfg2),
         StatusServer := over (statusServerArg a) (StatusServer cfg2),
         StatusACL := over (statusACLArg a) (StatusACL cfg2),
         PingIntervalSec := over (pingIntervalSecArg a) (PingIntervalSec cfg2),
         DialTimeoutSec := over (dialTimeoutSecArg a) (DialTimeoutSec cfg2),
         RecvTimeoutSec := over (recvTimeoutSecArg a) (RecvTimeoutSec cfg2),
         PacketWaitTimeoutSec := over (packetWaitTimeoutSecArg a) (PacketWaitTimeoutSec cfg2),
         ReconnectDelaySec := over (reconnectDelaySecArg a) (ReconnectDelaySec cfg2),
         OutboundBlockTimeoutSec := over (outboundBlockTimeoutSecArg a) (OutboundBlockTimeoutSec cfg2),
         MaxRetries := over (maxRetriesArg a) (MaxRetries cfg2),
         OrderedRecvQueueSize := over (orderedRecvQueueSizeArg a) (OrderedRecvQueueSize cfg2),
         SendQueueSize := over (sendQueueSizeArg a) (SendQueueSize cfg2),
         RecvQueueSize := over (recvQueueSizeArg a) (RecvQueueSize cfg2),
         OutboundRecvBufferSize := over (outboundRecvBufferSizeArg a) (OutboundRecvBufferSize cfg2)\<rparr>)"

text \<open>
  \<open>LoadConfig\<close>. The file system is given by what exists and what can be read, YAML by a
  function that merges a text into a configuration. \<open>Inr None\<close> is the version flag.
\<close>

datatype config_error = ReadConfigError string | ParseConfigError string

definition config_path :: "(string \<Rightarrow> bool) \<Rightarrow> string \<Rightarrow> flag_args \<Rightarrow> string" where
  "config_path stat homeDir a =
     (if over (configFileArg a) '''' = '''' then
        (case filter stat [''config.yaml'', homeDir @ ''/.rabbit/config.yaml'', ''/etc/rabbit/config.yaml''] of
           [] \<Rightarrow> '''' | p # _ \<Rightarrow> p)
      else over (configFileArg a) '''')"

definition LoadConfig ::
    "(string \<Rightarrow> bool) \<Rightarrow> (string \<Rightarrow> string option) \<Rightarrow> (string \<Rightarrow> Config \<Rightarrow> Config option) \<Rightarrow> string \<Rightarrow>
     flag_args \<Rightarrow> config_error + Config option" where
  "LoadConfig stat readFile unmarshal homeDir a =
     (if printVersionArg a then Inr None
      else
        let path = config_path stat homeDir a in
        if path \<noteq> '''' then
          (case readFile path of
             None \<Rightarrow> Inl (ReadConfigError path)
           | Some content \<Rightarrow>
               (case unmarshal content NewDefaultConfig of
                  None \<Rightarrow> Inl (ParseConfigError path)
                | Some cfg \<Rightarrow> Inr (Some (apply_flags a cfg))))
        else Inr (Some (apply_flags a NewDefaultConfig)))"

section \<open>Checks before the start\<close>

definition has_prefix :: "string \<Rightarrow> string \<Rightarrow> bool" where
  "has_prefix p s = (take (length p) s = p)"

text \<open>The package variables that \<open>parseFlags\<close> sets from the configuration.\<close>

record package_vars =
  pv_OrderedRecvQueueSize :: int
  pv_RecvQueueSize :: int
  pv_OutboundRecvBuffer :: int
  pv_OutboundBlockTimeoutSec :: int
  pv_PacketWaitTimeoutSec :: int
  pv_DialTimeoutSec :: int
  pv_ReconnectDelaySec :: int
  pv_MaxRetries :: int
  pv_TunnelBlockTimeoutSec :: int
  pv_ErrorWaitSec :: int
  pv_PingInterval :: int
  pv_TunnelRecvTimeoutSec :: int

definition set_package_vars :: "Config \<Rightarrow> package_vars" where
  "set_package_vars cfg =
     \<lparr>pv_OrderedRecvQueueSize = OrderedRecvQueueSize cfg, pv_RecvQueueSize = RecvQueueSize cfg,
      pv_OutboundRecvBuffer = OutboundRecvBufferSize cfg, pv_OutboundBlockTimeoutSec = OutboundBlockTimeoutSec cfg,
      pv_PacketWaitTimeoutSec = PacketWaitTimeoutSec cfg, pv_DialTimeoutSec = DialTimeoutSec cfg,
      pv_ReconnectDelaySec = ReconnectDelaySec cfg, pv_MaxRetries = MaxRetries cfg,
      pv_TunnelBlockTimeoutSec = OutboundBlockTimeoutSec cfg, pv_ErrorWaitSec = ReconnectDelaySec cfg,
      pv_PingInterval = PingIntervalSec cfg, pv_TunnelRecvTimeoutSec = RecvTimeoutSec cfg\<rparr>"

text \<open>The checks of \<open>parseFlags\<close>: whether the program may start, and the configuration with its mode.\<close>

definition check_config :: "Config \<Rightarrow> bool \<times> Config" where
  "check_config cfg =
     (if Mode cfg \<in> {''c'', ''client'', ''s'', ''server''} then
        (let cfg1 = cfg\<lparr>cfg_mode := (if Mode cfg \<in> {''c'', ''client''} then ClientMode else ServerMode)\<rparr> in
         if cfg_Password cfg1 = '''' then (False, cfg1)
         else if cfg_Password cfg1 = DefaultPassword then (False, cfg1)
         else if cfg_mode cfg1 = ClientMode then
           (Listen cfg1 \<noteq> '''' \<and> (has_prefix ''socks5://'' (Listen cfg1) \<or> Dest cfg1 \<noteq> '''') \<and> TunnelN cfg1 \<noteq> 0, cfg1)
         else (True, cfg1))
      else (False, cfg))"

text \<open>
  \<open>parseFlags\<close>: the process ends with code 1 on a configuration error and with 0 after printing
  the version; otherwise the package variables are set and the checks decide.
\<close>

datatype start = Exit int | Checked bool Config package_vars

definition parseFlags :: "config_error + Config option \<Rightarrow> start" where
  "parseFlags loaded =
     (case loaded of
        Inl _ \<Rightarrow> Exit 1
      | Inr None \<Rightarrow> Exit 0
      | Inr (Some cfg) \<Rightarrow>
          let vars = set_package_vars cfg; (pass, cfg') = check_config cfg in Checked pass cfg' vars)"

definition starts :: "start \<Rightarrow> bool" where
  "starts r = (case r of Exit _ \<Rightarrow> False | Checked pass _ _ \<Rightarrow> pass)"

section \<open>Properties of the configuration\<close>

lemma lower_char_idem [simp]: "lower_char (lower_char c) = lower_char c"
  by (auto simp: lower_char_def)

lemma ToLower_idem [simp]: "ToLower (ToLower s) = ToLower s"
  by (simp add: ToLower_def)

lemma over_simps [simp]: "over None x = x" "over (Some v) x = v"
  by (simp_all add: over_def)

lemma apply_flags_Mode: "Mode (apply_flags a cfg) = ToLower (over (modeArg a) (Mode cfg))"
  by (cases "modeArg a") (simp_all add: apply_flags_def)

lemma apply_flags_sels [simp]:
  "cfg_Password (apply_flags a cfg) = over (passwordArg a) (cfg_Password cfg)"
  "Listen (apply_flags a cfg) = over (listenArg a) (Listen cfg)"
  "Dest (apply_flags a cfg) = over (destArg a) (Dest cfg)"
  "TunnelN (apply_flags a cfg) = over (tunnelNArg a) (TunnelN cfg)"
  by (simp_all add: apply_flags_def Let_def)

text \<open>Which configurations \<open>parseFlags\<close> lets through.\<close>

lemma check_config_accepts:
  "fst (check_config cfg) \<longleftrightarrow>
     cfg_Password cfg \<notin> {'''', DefaultPassword} \<and>
     (Mode cfg \<in> {''s'', ''server''} \<or>
      Mode cfg \<in> {''c'', ''client''} \<and> Listen cfg \<noteq> '''' \<and>
      (has_prefix ''socks5://'' (Listen cfg) \<or> Dest cfg \<noteq> '''') \<and> TunnelN cfg \<noteq> 0)"
  by (auto simp: check_config_def ClientMode_def ServerMode_def Let_def)

lemma starts_checked: "starts (parseFlags (Inr (Some cfg))) = fst (check_config cfg)"
  by (simp add: parseFlags_def starts_def Let_def split: prod.split)

text \<open>
  What a command line needs when there is no configuration file. Without the version flag
  the program starts exactly when a password other than the empty one and the default was
  given, and either the mode, in any letter case, is the server's, or it is the client's, with a
  listen address that is not empty, which is a SOCKS5 address or comes with a destination, and a
  tunnel number that is not zero. A negative tunnel number is let through.
\<close>

theorem start_without_file:
  assumes "config_path stat homeDir a = ''''" and "\<not> printVersionArg a"
  shows "starts (parseFlags (LoadConfig stat readFile unmarshal homeDir a)) \<longleftrightarrow>
     over (passwordArg a) DefaultPassword \<notin> {'''', DefaultPassword} \<and>
     (ToLower (over (modeArg a) ''client'') \<in> {''s'', ''server''} \<or>
      ToLower (over (modeArg a) ''client'') \<in> {''c'', ''client''} \<and>
      over (listenArg a) ''127.0.0.1:1080'' \<noteq> '''' \<and>
      (has_prefix ''socks5://'' (over (listenArg a) ''127.0.0.1:1080'') \<or> over (destArg a) '''' \<noteq> '''') \<and>
      over (tunnelNArg a) 4 \<noteq> 0)"
  using assms
  by (simp add: LoadConfig_def starts_checked check_config_accepts apply_flags_Mode NewDefaultConfig_def
      DefaultPassword_def)

definition no_flags :: flag_args where
  "no_flags = \<lparr>configFileArg = None, modeArg = None, appNameArg = None, verboseArg = None, rabbitAddrArg = None,
     aeadCipherArg = None, passwordArg = None, listenArg = None, destArg = None, tunnelNArg = None,
     authKeyArg = None, tlsCertFileArg = None, tlsKeyFileArg = None, insecureArg = None, useSyslogArg = None,
     retryFailedAddrArg = None, memProfArg = None, statusServerArg = None, statusACLArg = None,
     pingIntervalSecArg = None, dialTimeoutSecArg = None, recvTimeoutSecArg = None,
     packetWaitTimeoutSecArg = None, reconnectDelaySecArg = None, outboundBlockTimeoutSecArg = None,
     maxRetriesArg = None, orderedRecvQueueSizeArg = None, sendQueueSizeArg = None, recvQueueSizeArg = None,
     outboundRecvBufferSizeArg = None, printVersionArg = False\<rparr>"

theorem start_without_file_witness:
  "starts (parseFlags (LoadConfig (\<lambda>_. False) (\<lambda>_. None) (\<lambda>_ _. None) ''/root''
     (no_flags\<lparr>modeArg := Some ''Client'', passwordArg := Some ''secret'',
        listenArg := Some ''socks5://127.0.0.1:1080'', tunnelNArg := Some (-3)\<rparr>)))"
proof -
  have "config_path (\<lambda>_. False) ''/root'' (no_flags\<lparr>modeArg := Some ''Client'', passwordArg := Some ''secret'',
        listenArg := Some ''socks5://127.0.0.1:1080'', tunnelNArg := Some (-3)\<rparr>) = ''''"
    by (simp add: config_path_def no_flags_def)
  moreover have "ToLower ''Client'' = ''client''"
    by code_simp
  ultimately show ?thesis
    using start_without_file [of "\<lambda>_. False" "''/root''"]
    by (simp add: no_flags_def DefaultPassword_def has_prefix_def)
qed

text \<open>
  The flag for the system log is parsed and never used. Whatever the files hold, two command
  lines that differ only in it give the same configuration or the same error, so the file and
  the default alone decide.
\<close>

theorem use_syslog_flag_ignored:
  "LoadConfig stat readFile unmarshal homeDir (a\<lparr>useSyslogArg := x\<rparr>) =
     LoadConfig stat readFile unmarshal homeDir a \<and>
   UseSyslog (apply_flags a cfg) = UseSyslog cfg"
proof -
  have "apply_flags (a\<lparr>useSyslogArg := x\<rparr>) c = apply_flags a c" for c
    by (simp add: apply_flags_def)
  moreover have "config_path stat homeDir (a\<lparr>useSyslogArg := x\<rparr>) = config_path stat homeDir a"
    by (simp add: config_path_def)
  ultimately have "LoadConfig stat readFile unmarshal homeDir (a\<lparr>useSyslogArg := x\<rparr>) =
      LoadConfig stat readFile unmarshal homeDir a"
    by (simp add: LoadConfig_def Let_def split: option.split)
  moreover have "UseSyslog (apply_flags a cfg) = UseSyslog cfg"
    by (simp add: apply_flags_def Let_def)
  ultimately show ?thesis
    by simp
qed

end
