(* ===== verification/Socks5.thy ===== *)
theory Socks5
  imports Rabbit_Prelude
begin

text \<open>
  The SOCKS5 front end of \<^verbatim>\<open>client/client.go\<close>: method negotiation, password authentication,
  the connect request and its replies. A handler reads from the client's connection and writes
  to it; its model maps the source to an error or a result, the bytes written and the rest of
  the source. A Go string is its list of bytes.
\<close>

section \<open>Constants\<close>

definition Socks5Version :: byte where "Socks5Version = 0x05"
definition Socks5AuthNone :: byte where "Socks5AuthNone = 0x00"
definition Socks5AuthPassword :: byte where "Socks5AuthPassword = 0x02"
definition Socks5AuthNoAcceptable :: byte where "Socks5AuthNoAcceptable = 0xFF"
definition Socks5CmdConnect :: byte where "Socks5CmdConnect = 0x01"
definition Socks5AddrTypeIPv4 :: byte where "Socks5AddrTypeIPv4 = 0x01"
definition Socks5AddrTypeDomain :: byte where "Socks5AddrTypeDomain = 0x03"
definition Socks5AddrTypeIPv6 :: byte where "Socks5AddrTypeIPv6 = 0x04"
definition Socks5ReplySuccess :: byte where "Socks5ReplySuccess = 0x00"
definition Socks5ReplyCommandNotSupported :: byte where "Socks5ReplyCommandNotSupported = 0x07"
definition Socks5ReplyAddressTypeNotSupported :: byte where "Socks5ReplyAddressTypeNotSupported = 0x08"
definition Socks5AuthPasswordVer :: byte where "Socks5AuthPasswordVer = 0x01"
definition Socks5AuthStatusSuccess :: byte where "Socks5AuthStatusSuccess = 0x00"
definition Socks5AuthStatusFailure :: byte where "Socks5AuthStatusFailure = 0x01"

lemmas socks_consts [simp] = Socks5Version_def Socks5AuthNone_def Socks5AuthPassword_def
  Socks5AuthNoAcceptable_def Socks5CmdConnect_def Socks5AddrTypeIPv4_def Socks5AddrTypeDomain_def
  Socks5AddrTypeIPv6_def Socks5ReplySuccess_def Socks5ReplyCommandNotSupported_def
  Socks5ReplyAddressTypeNotSupported_def Socks5AuthPasswordVer_def Socks5AuthStatusSuccess_def
  Socks5AuthStatusFailure_def

section \<open>Handlers\<close>

datatype socks_error =
    IoErr io_error
  | UnsupportedVersion byte
  | NoPasswordAuth
  | NoUnauthenticated
  | AuthInfoNil
  | UnsupportedAuthVersion byte
  | InvalidCredentials
  | UnsupportedCommand byte
  | UnsupportedAddressType byte
  | ReplyFailed

type_synonym 'a handler = "source \<Rightarrow> (socks_error + 'a) \<times> byte list \<times> source"

definition h_return :: "'a \<Rightarrow> 'a handler" where
  "h_return x s = (Inr x, [], s)"

definition h_fail :: "socks_error \<Rightarrow> 'a handler" where
  "h_fail e s = (Inl e, [], s)"

definition h_bind :: "'a handler \<Rightarrow> ('a \<Rightarrow> 'b handler) \<Rightarrow> 'b handler" where
  "h_bind m f s =
     (case m s of
        (Inl e, out, s1) \<Rightarrow> (Inl e, out, s1)
      | (Inr x, out, s1) \<Rightarrow> (case f x s1 of (r, out', s2) \<Rightarrow> (r, out @ out', s2)))"

definition h_read :: "nat \<Rightarrow> byte list handler" where
  "h_read n s =
     (case ReadFull n s of (Inl e, s1) \<Rightarrow> (Inl (IoErr e), [], s1) | (Inr b, s1) \<Rightarrow> (Inr b, [], s1))"

text \<open>A write whose error the code ignores.\<close>

definition h_write :: "byte list \<Rightarrow> unit handler" where
  "h_write b s = (Inr (), b, s)"

record Socks5Auth =
  Username :: "byte list"
  Password :: "byte list"

definition performPasswordAuth :: "Socks5Auth option \<Rightarrow> unit handler" where
  "performPasswordAuth auth =
     (case auth of
        None \<Rightarrow> h_fail AuthInfoNil
      | Some au \<Rightarrow>
          h_bind (h_read 2) (\<lambda>buf.
          let ver = buf ! 0; ulen = buf ! 1 in
          if ver \<noteq> Socks5AuthPasswordVer then h_fail (UnsupportedAuthVersion ver)
          else
            h_bind (h_read (unat ulen)) (\<lambda>username.
            h_bind (h_read 1) (\<lambda>pb.
            h_bind (h_read (unat (pb ! 0))) (\<lambda>password.
            if username = Username au \<and> password = Password au
            then h_write [Socks5AuthPasswordVer, Socks5AuthStatusSuccess]
            else h_bind (h_write [Socks5AuthPasswordVer, Socks5AuthStatusFailure])
                   (\<lambda>_. h_fail InvalidCredentials))))))"

definition socks5Handshake :: "Socks5Auth option \<Rightarrow> unit handler" where
  "socks5Handshake auth =
     h_bind (h_read 2) (\<lambda>buf.
     let ver = buf ! 0; nmethods = buf ! 1 in
     if ver \<noteq> Socks5Version then h_fail (UnsupportedVersion ver)
     else
       h_bind (h_read (unat nmethods)) (\<lambda>methods.
       let wanted = (if auth \<noteq> None then Socks5AuthPassword else Socks5AuthNone) in
       if wanted \<in> set methods then
         h_bind (h_write [Socks5Version, wanted]) (\<lambda>_.
         if wanted = Socks5AuthPassword then performPasswordAuth auth else h_return ())
       else
         h_bind (h_write [Socks5Version, Socks5AuthNoAcceptable]) (\<lambda>_.
         h_fail (if auth \<noteq> None then NoPasswordAuth else NoUnauthenticated))))"

text \<open>\<open>sendSocks5Reply\<close> with the outcome of its write.\<close>

definition sendSocks5Reply :: "bool \<Rightarrow> byte \<Rightarrow> unit handler" where
  "sendSocks5Reply ok reply s =
     (let response = [Socks5Version, reply, 0, Socks5AddrTypeIPv4, 0, 0, 0, 0, 0, 0]
      in if ok then (Inr (), response, s) else (Inl ReplyFailed, [], s))"

section \<open>Addresses as text\<close>

text \<open>
  What the Go library prints: decimal numbers, dotted IPv4 addresses, and IPv6 addresses in
  groups of lower-case hexadecimal digits where the first longest run of at least two zero
  groups becomes \<^verbatim>\<open>::\<close>. An IPv4 address embedded in IPv6 prints dotted.
\<close>

definition digit_char :: "nat \<Rightarrow> byte" where
  "digit_char d = of_nat (if d < 10 then 48 + d else 87 + d)"

fun num_str :: "nat \<Rightarrow> nat \<Rightarrow> byte list" where
  "num_str base n =
     (if n < base \<or> base < 2 then [digit_char n] else num_str base (n div base) @ [digit_char (n mod base)])"

declare num_str.simps [simp del]

definition colon :: byte where "colon = 58"
definition dot :: byte where "dot = 46"

fun join_with :: "byte list \<Rightarrow> byte list list \<Rightarrow> byte list" where
  "join_with sep [] = []"
| "join_with sep [x] = x"
| "join_with sep (x # y # xs) = x @ sep @ join_with sep (y # xs)"

definition ipv4_str :: "byte list \<Rightarrow> byte list" where
  "ipv4_str ip = join_with [dot] (map (\<lambda>b. num_str 10 (unat b)) ip)"

fun groups :: "byte list \<Rightarrow> nat list" where
  "groups (a # b # bs) = (unat a * 256 + unat b) # groups bs"
| "groups _ = []"

fun zero_run :: "nat list \<Rightarrow> nat" where
  "zero_run (g # gs) = (if g = 0 then Suc (zero_run gs) else 0)"
| "zero_run [] = 0"

text \<open>Start and length of the best run, scanning from position \<open>i\<close>.\<close>

fun best_run :: "nat \<Rightarrow> nat list \<Rightarrow> nat \<times> nat \<Rightarrow> nat \<times> nat" where
  "best_run i [] best = best"
| "best_run i (g # gs) best =
     best_run (Suc i) gs (let l = zero_run (g # gs) in if l \<ge> 2 \<and> l > snd best then (i, l) else best)"

definition ipv6_str :: "byte list \<Rightarrow> byte list" where
  "ipv6_str ip =
     (if take 12 ip = replicate 10 0 @ [255, 255] then ipv4_str (drop 12 ip)
      else
        let gs = groups ip; (z, l) = best_run 0 gs (0, 0); hex = map (num_str 16) in
        if l = 0 then join_with [colon] (hex gs)
        else join_with [colon] (hex (take z gs)) @ [colon, colon] @ join_with [colon] (hex (drop (z + l) gs)))"

definition target_str :: "byte list \<Rightarrow> nat \<Rightarrow> byte list" where
  "target_str host port = host @ [colon] @ num_str 10 port"

section \<open>The request\<close>

definition socks5ProcessRequest :: "bool \<Rightarrow> byte list handler" where
  "socks5ProcessRequest reply_ok =
     h_bind (h_read 4) (\<lambda>buf.
     let ver = buf ! 0; cmd = buf ! 1; atyp = buf ! 3;
         finish = (\<lambda>host.
           h_bind (h_read 2) (\<lambda>portBuf.
           let port = (unat (portBuf ! 0) * 2 ^ 8) OR unat (portBuf ! 1);
               target = target_str host port in
           h_bind (sendSocks5Reply reply_ok Socks5ReplySuccess) (\<lambda>_. h_return target))) in
     if ver \<noteq> Socks5Version then h_fail (UnsupportedVersion ver)
     else if cmd \<noteq> Socks5CmdConnect then
       h_bind (sendSocks5Reply True Socks5ReplyCommandNotSupported) (\<lambda>_. h_fail (UnsupportedCommand cmd))
     else if atyp = Socks5AddrTypeIPv4 then h_bind (h_read 4) (\<lambda>ipv4. finish (ipv4_str ipv4))
     else if atyp = Socks5AddrTypeDomain then
       h_bind (h_read 1) (\<lambda>domainLen. h_bind (h_read (unat (domainLen ! 0))) (\<lambda>domain. finish domain))
     else if atyp = Socks5AddrTypeIPv6 then h_bind (h_read 16) (\<lambda>ipv6. finish (ipv6_str ipv6))
     else h_bind (sendSocks5Reply True Socks5ReplyAddressTypeNotSupported) (\<lambda>_. h_fail (UnsupportedAddressType atyp)))"

text \<open>\<open>handleSocks5Client\<close> up to the dial: the target it dials and relays to, or the error.\<close>

definition handleSocks5Client :: "bool \<Rightarrow> Socks5Auth option \<Rightarrow> byte list handler" where
  "handleSocks5Client reply_ok auth =
     h_bind (socks5Handshake auth) (\<lambda>_. h_bind (socks5ProcessRequest reply_ok) (\<lambda>target. h_return target))"

section \<open>Lemmas about handlers\<close>

lemma h_bind_Inr:
  "h_bind m f s = (Inr y, out, s') \<longleftrightarrow>
     (\<exists>x o1 o2 s1. m s = (Inr x, o1, s1) \<and> f x s1 = (Inr y, o2, s') \<and> out = o1 @ o2)"
  by (auto simp: h_bind_def split: prod.splits sum.splits)

lemma h_read_Inr:
  "h_read n s = (Inr b, out, s') \<longleftrightarrow>
     length b = n \<and> avail s = b @ avail s' \<and> final s' = final s \<and> out = []"
proof
  assume "h_read n s = (Inr b, out, s')"
  then show "length b = n \<and> avail s = b @ avail s' \<and> final s' = final s \<and> out = []"
    by (auto simp: h_read_def dest: ReadFull_InrD split: prod.splits sum.splits)
next
  assume b: "length b = n \<and> avail s = b @ avail s' \<and> final s' = final s \<and> out = []"
  then show "h_read n s = (Inr b, out, s')"
    by (cases s; cases s') (auto simp: h_read_def ReadFull_append)
qed

lemma h_read_append: "length b = n \<Longrightarrow> h_read n \<lparr>avail = b @ rest, final = e\<rparr> = (Inr b, [], \<lparr>avail = rest, final = e\<rparr>)"
  by (simp add: h_read_Inr)

lemma h_simps [simp]:
  "h_return x s = (Inr x, [], s)" "h_fail e s = (Inl e, [], s)" "h_write b s = (Inr (), b, s)"
  by (simp_all add: h_return_def h_fail_def h_write_def)

lemma h_bind_step: "m s = (Inr x, o1, s1) \<Longrightarrow> h_bind m f s = (case f x s1 of (r, o2, s2) \<Rightarrow> (r, o1 @ o2, s2))"
  by (simp add: h_bind_def)

section \<open>What a client sends\<close>

datatype socks_addr = IPv4 "byte list" | Domain "byte list" | IPv6 "byte list"

fun addr_ok :: "socks_addr \<Rightarrow> bool" where
  "addr_ok (IPv4 a) = (length a = 4)"
| "addr_ok (Domain d) = (length d < 256)"
| "addr_ok (IPv6 a) = (length a = 16)"

fun addr_bytes :: "socks_addr \<Rightarrow> byte list" where
  "addr_bytes (IPv4 a) = Socks5AddrTypeIPv4 # a"
| "addr_bytes (Domain d) = Socks5AddrTypeDomain # of_nat (length d) # d"
| "addr_bytes (IPv6 a) = Socks5AddrTypeIPv6 # a"

fun addr_host :: "socks_addr \<Rightarrow> byte list" where
  "addr_host (IPv4 a) = ipv4_str a"
| "addr_host (Domain d) = d"
| "addr_host (IPv6 a) = ipv6_str a"

definition port_bytes :: "nat \<Rightarrow> byte list" where
  "port_bytes p = [of_nat (p div 256), of_nat (p mod 256)]"

definition request_bytes :: "socks_addr \<Rightarrow> nat \<Rightarrow> byte list" where
  "request_bytes addr port = [Socks5Version, Socks5CmdConnect, 0] @ addr_bytes addr @ port_bytes port"

definition password_bytes :: "byte list \<Rightarrow> byte list \<Rightarrow> byte list" where
  "password_bytes u p =
     [Socks5AuthPasswordVer, of_nat (length u)] @ u @ [of_nat (length p)] @ p"

definition greeting_bytes :: "byte list \<Rightarrow> byte list" where
  "greeting_bytes methods = [Socks5Version, of_nat (length methods)] @ methods"

lemma unat_of_nat_byte [simp]: "n < 256 \<Longrightarrow> unat (of_nat n :: byte) = n"
  by (simp add: unat_of_nat)

lemma port_value:
  assumes "p < 65536"
  shows "(unat (port_bytes p ! 0) * 2 ^ 8) OR unat (port_bytes p ! 1) = p"
proof -
  have "p div 256 < 256"
    using assms by simp
  then have "unat (port_bytes p ! 0) = p div 256" "unat (port_bytes p ! 1) = p mod 256"
    by (simp_all add: port_bytes_def)
  moreover have "(p div 256 * 2 ^ 8) OR (p mod 256) = push_bit 8 (drop_bit 8 p) OR take_bit 8 p"
    by (simp add: push_bit_eq_mult drop_bit_eq_div take_bit_eq_mod)
  ultimately show ?thesis
    by (simp only:) (rule bit_eqI, auto simp: bit_simps)
qed

text \<open>The code's length bytes are wrapped lengths; reading one back gives a string of that length.\<close>

lemma length_byte: "length xs = unat (b :: byte) \<Longrightarrow> b = of_nat (length xs) \<and> length xs < 256"
  using unsigned_less [of b, where 'a = nat] by simp

lemma performPasswordAuth_success:
  assumes "performPasswordAuth (Some au) s = (Inr (), out, s')"
  shows "avail s = password_bytes (Username au) (Password au) @ avail s' \<and> out = [Socks5AuthPasswordVer, Socks5AuthStatusSuccess] \<and>
    final s' = final s"
  using assms
  by (auto simp: performPasswordAuth_def h_bind_Inr h_read_Inr password_bytes_def length_Suc_conv numeral_2_eq_2
      Let_def dest!: length_byte split: if_splits)

lemma socks5Handshake_success:
  assumes "socks5Handshake (Some au) s = (Inr (), out, s')"
  shows "\<exists>methods. Socks5AuthPassword \<in> set methods \<and> length methods < 256 \<and>
    avail s = greeting_bytes methods @ password_bytes (Username au) (Password au) @ avail s'"
  using assms
  by (fastforce simp: socks5Handshake_def h_bind_Inr h_read_Inr greeting_bytes_def length_Suc_conv numeral_2_eq_2
      Let_def dest!: length_byte performPasswordAuth_success split: if_splits)

text \<open>Executing a handler on a source whose bytes are known.\<close>

lemma h_bind_read:
  "length b = n \<Longrightarrow> h_bind (h_read n) f \<lparr>avail = b @ rest, final = e\<rparr> = f b \<lparr>avail = rest, final = e\<rparr>"
  by (simp add: h_bind_def h_read_append split: prod.split)

lemma h_bind_read_bytes:
  "h_bind (h_read (Suc 0)) f \<lparr>avail = a # rest, final = e\<rparr> = f [a] \<lparr>avail = rest, final = e\<rparr>"
  "h_bind (h_read 2) f \<lparr>avail = a # b # rest, final = e\<rparr> = f [a, b] \<lparr>avail = rest, final = e\<rparr>"
  "h_bind (h_read 4) f \<lparr>avail = a # b # c # d # rest, final = e\<rparr> = f [a, b, c, d] \<lparr>avail = rest, final = e\<rparr>"
  using h_bind_read [of "[a]" "Suc 0" f rest e] h_bind_read [of "[a, b]" 2 f rest e]
    h_bind_read [of "[a, b, c, d]" 4 f rest e]
  by simp_all

lemma h_bind_write: "h_bind (h_write b) f s = (case f () s of (r, out, s') \<Rightarrow> (r, b @ out, s'))"
  by (simp add: h_bind_def)

lemmas h_exec = h_bind_read h_bind_read_bytes h_bind_write

lemma performPasswordAuth_exec:
  assumes "length u < 256" and "length p < 256"
  shows "performPasswordAuth (Some au) \<lparr>avail = password_bytes u p @ rest, final = e\<rparr> =
    (if u = Username au \<and> p = Password au then (Inr (), [1, 0], \<lparr>avail = rest, final = e\<rparr>)
     else (Inl InvalidCredentials, [1, 1], \<lparr>avail = rest, final = e\<rparr>))"
  using assms by (simp add: performPasswordAuth_def password_bytes_def h_exec)

definition reply_bytes :: "byte \<Rightarrow> byte list" where
  "reply_bytes r = [5, r, 0, 1, 0, 0, 0, 0, 0, 0]"

lemma h_bind_reply:
  "h_bind (sendSocks5Reply True r) f s = (case f () s of (x, out, s') \<Rightarrow> (x, reply_bytes r @ out, s'))"
  by (simp add: h_bind_def sendSocks5Reply_def reply_bytes_def)

text \<open>The end of a request: port and success reply.\<close>

lemma finish_exec:
  assumes "port < 65536"
  shows "h_bind (h_read 2) (\<lambda>portBuf.
      let port = (unat (portBuf ! 0) * 2 ^ 8) OR unat (portBuf ! 1); target = target_str host port in
      h_bind (sendSocks5Reply True Socks5ReplySuccess) (\<lambda>_. h_return target)) \<lparr>avail = port_bytes port @ rest, final = e\<rparr> =
    (Inr (target_str host port), reply_bytes 0, \<lparr>avail = rest, final = e\<rparr>)"
proof -
  have "length (port_bytes port) = 2"
    by (simp add: port_bytes_def)
  then show ?thesis
    using port_value [OF assms] by (simp add: h_bind_read h_bind_reply del: h_simps(1)) simp
qed

lemma socks5ProcessRequest_exec:
  assumes "addr_ok addr" and "port < 65536"
  shows "socks5ProcessRequest True \<lparr>avail = request_bytes addr port @ rest, final = e\<rparr> =
    (Inr (target_str (addr_host addr) port), reply_bytes 0, \<lparr>avail = rest, final = e\<rparr>)"
proof (cases addr)
  case (IPv4 a)
  then show ?thesis
    using assms finish_exec [OF assms(2), of "ipv4_str a" rest e]
    by (simp add: socks5ProcessRequest_def request_bytes_def h_bind_read_bytes h_bind_read [of a] Let_def)
next
  case (Domain d)
  then show ?thesis
    using assms finish_exec [OF assms(2), of d rest e]
    by (simp add: socks5ProcessRequest_def request_bytes_def h_bind_read_bytes h_bind_read [of d] Let_def)
next
  case (IPv6 a)
  then show ?thesis
    using assms finish_exec [OF assms(2), of "ipv6_str a" rest e]
    by (simp add: socks5ProcessRequest_def request_bytes_def h_bind_read_bytes h_bind_read [of a] Let_def)
qed

definition auth_bytes :: "Socks5Auth option \<Rightarrow> byte list" where
  "auth_bytes auth = (case auth of None \<Rightarrow> [] | Some au \<Rightarrow> password_bytes (Username au) (Password au))"

definition auth_method :: "Socks5Auth option \<Rightarrow> byte" where
  "auth_method auth = (case auth of None \<Rightarrow> Socks5AuthNone | Some _ \<Rightarrow> Socks5AuthPassword)"

definition auth_ok :: "Socks5Auth option \<Rightarrow> bool" where
  "auth_ok auth = (case auth of None \<Rightarrow> True | Some au \<Rightarrow> length (Username au) < 256 \<and> length (Password au) < 256)"

lemma socks5Handshake_exec:
  assumes "auth_ok auth" and "auth_method auth \<in> set methods" and "length methods < 256"
  shows "socks5Handshake auth \<lparr>avail = greeting_bytes methods @ auth_bytes auth @ rest, final = e\<rparr> =
    (Inr (), [5, auth_method auth] @ (if auth = None then [] else [1, 0]), \<lparr>avail = rest, final = e\<rparr>)"
  using assms
  by (cases auth) (auto simp: socks5Handshake_def greeting_bytes_def auth_bytes_def auth_method_def auth_ok_def h_exec
      performPasswordAuth_exec)

section \<open>Properties of the SOCKS5 front end\<close>

text \<open>
  C24: a valid client is served. A client that offers the required method, sends the configured
  credentials if there are any and asks for a connection to an IPv4 address, a domain or an
  IPv6 address is answered with the method, the authentication status and the success reply;
  the target dialled is the host and the port it asked for, and the bytes behind the request
  are left for the relay.
\<close>

theorem socks_request_served:
  assumes "auth_ok auth" and "auth_method auth \<in> set methods" and "length methods < 256"
    and "addr_ok addr" and "port < 65536"
  shows "handleSocks5Client True auth
      \<lparr>avail = greeting_bytes methods @ auth_bytes auth @ request_bytes addr port @ rest, final = e\<rparr> =
    (Inr (target_str (addr_host addr) port),
     [5, auth_method auth] @ (if auth = None then [] else [1, 0]) @ reply_bytes 0, \<lparr>avail = rest, final = e\<rparr>)"
  using socks5Handshake_exec [OF assms(1-3)] socks5ProcessRequest_exec [OF assms(4,5)]
  by (simp add: handleSocks5Client_def h_bind_def)

theorem socks_request_served_witness:
  "fst (handleSocks5Client True (Some \<lparr>Username = [117], Password = [112]\<rparr>)
     \<lparr>avail = [5, 2, 0, 2] @ [1, 1, 117, 1, 112] @ [5, 1, 0, 3, 1, 97, 1, 187] @ [22, 3], final = EOF\<rparr>) =
   Inr [97, 58, 52, 52, 51]"
proof -
  have "handleSocks5Client True (Some \<lparr>Username = [117], Password = [112]\<rparr>)
      \<lparr>avail = greeting_bytes [0, 2] @ auth_bytes (Some \<lparr>Username = [117], Password = [112]\<rparr>) @
         request_bytes (Domain [97]) 443 @ [22, 3], final = EOF\<rparr> =
    (Inr (target_str (addr_host (Domain [97])) 443),
     [5, auth_method (Some \<lparr>Username = [117], Password = [112]\<rparr>)] @
       (if Some \<lparr>Username = [117], Password = [112]\<rparr> = None then [] else [1, 0]) @ reply_bytes 0,
     \<lparr>avail = [22, 3], final = EOF\<rparr>)"
    by (rule socks_request_served) (simp_all add: auth_ok_def auth_method_def)
  then show ?thesis
    by (simp add: greeting_bytes_def auth_bytes_def password_bytes_def request_bytes_def port_bytes_def
        target_str_def colon_def num_str.simps digit_char_def)
qed

text \<open>
  No target without the credentials. When a user name and a password are configured, a
  client gets a target dialled only if the bytes it sent begin with a greeting that offers
  password authentication, followed by exactly these credentials.
\<close>

theorem socks_needs_credentials:
  assumes "handleSocks5Client ok (Some au) s = (Inr target, out, s')"
  shows "\<exists>methods rest. Socks5AuthPassword \<in> set methods \<and>
    avail s = greeting_bytes methods @ password_bytes (Username au) (Password au) @ rest"
proof -
  obtain o1 s1 where "socks5Handshake (Some au) s = (Inr (), o1, s1)"
    using assms by (auto simp: handleSocks5Client_def h_bind_Inr)
  from socks5Handshake_success [OF this] show ?thesis
    by blast
qed

theorem socks_needs_credentials_witness:
  "\<exists>methods rest. Socks5AuthPassword \<in> set methods \<and>
     greeting_bytes [2] @ password_bytes [117] [112] @ request_bytes (Domain [97]) 80 =
     greeting_bytes methods @ password_bytes [117] [112] @ rest"
proof -
  let ?au = "\<lparr>Username = [117], Password = [112]\<rparr>"
  have ok: "auth_ok (Some ?au)" "auth_method (Some ?au) \<in> set [2]" "length [2 :: byte] < 256"
      "addr_ok (Domain [97])" "(80 :: nat) < 65536"
    by (simp_all add: auth_ok_def auth_method_def)
  have "auth_bytes (Some ?au) = password_bytes [117] [112]"
    by (simp add: auth_bytes_def)
  then obtain out s' target where "handleSocks5Client True (Some ?au)
      \<lparr>avail = greeting_bytes [2] @ password_bytes [117] [112] @ request_bytes (Domain [97]) 80, final = EOF\<rparr> =
      (Inr target, out, s')"
    using socks5Handshake_exec [OF ok(1-3), of "request_bytes (Domain [97]) 80" EOF]
      socks5ProcessRequest_exec [OF ok(4,5), of "[]" EOF]
    by (simp add: handleSocks5Client_def h_bind_def)
  from socks_needs_credentials [OF this] show ?thesis
    by simp
qed

text \<open>
  Wrong credentials are refused. A client that offers password authentication and sends
  other credentials than the configured ones is answered with the failure status and nothing
  else; its request is not read.
\<close>

theorem socks_wrong_credentials:
  assumes "Socks5AuthPassword \<in> set methods" and "length methods < 256" and "length u < 256" and "length p < 256"
    and "u \<noteq> Username au \<or> p \<noteq> Password au"
  shows "handleSocks5Client ok (Some au)
      \<lparr>avail = greeting_bytes methods @ password_bytes u p @ rest, final = e\<rparr> =
    (Inl InvalidCredentials, [5, 2, 1, 1], \<lparr>avail = rest, final = e\<rparr>)"
proof -
  have "socks5Handshake (Some au) \<lparr>avail = greeting_bytes methods @ password_bytes u p @ rest, final = e\<rparr> =
      (Inl InvalidCredentials, [5, 2, 1, 1], \<lparr>avail = rest, final = e\<rparr>)"
    using assms by (auto simp: socks5Handshake_def greeting_bytes_def h_exec performPasswordAuth_exec)
  then show ?thesis
    by (simp add: handleSocks5Client_def h_bind_def)
qed

theorem socks_wrong_credentials_witness:
  "fst (handleSocks5Client True (Some \<lparr>Username = [117], Password = [112]\<rparr>)
     \<lparr>avail = greeting_bytes [2] @ password_bytes [117] [113] @ [], final = EOF\<rparr>) = Inl InvalidCredentials"
  using socks_wrong_credentials [of "[2]" "[117]" "[113]" "\<lparr>Username = [117], Password = [112]\<rparr>" True "[]" EOF]
  by simp

text \<open>
  What the server cannot do it says. A request with a command other than connect, or with
  an unknown address type, is answered with the reply code of that error, and no target is
  dialled.
\<close>

theorem socks_unsupported_request:
  assumes "cmd \<noteq> Socks5CmdConnect \<or> atyp \<notin> {Socks5AddrTypeIPv4, Socks5AddrTypeDomain, Socks5AddrTypeIPv6}"
  shows "socks5ProcessRequest ok \<lparr>avail = [Socks5Version, cmd, rsv, atyp] @ rest, final = e\<rparr> =
    (if cmd \<noteq> Socks5CmdConnect
     then (Inl (UnsupportedCommand cmd), reply_bytes 7, \<lparr>avail = rest, final = e\<rparr>)
     else (Inl (UnsupportedAddressType atyp), reply_bytes 8, \<lparr>avail = rest, final = e\<rparr>))"
  using assms by (simp add: socks5ProcessRequest_def h_bind_read_bytes h_bind_reply Let_def)

theorem socks_unsupported_request_witness:
  "socks5ProcessRequest True \<lparr>avail = [Socks5Version, 3, 0, 1] @ [], final = EOF\<rparr> =
     (Inl (UnsupportedCommand 3), reply_bytes 7, \<lparr>avail = [], final = EOF\<rparr>)"
  using socks_unsupported_request [of 3 1 True 0 "[]" EOF] by simp

section \<open>IPv6 targets\<close>

lemma num_str_no_colon: "2 \<le> base \<Longrightarrow> base \<le> 16 \<Longrightarrow> colon \<notin> set (num_str base n) \<and> 91 \<notin> set (num_str base n)"
proof (induction base n rule: num_str.induct)
  case (1 base n)
  have dig: "digit_char d \<noteq> colon \<and> digit_char d \<noteq> 91" if "d < 16" for d
  proof -
    have "unat (digit_char d) = (if d < 10 then 48 + d else 87 + d)"
      using that by (simp add: digit_char_def)
    then have "unat (digit_char d) \<noteq> 58" "unat (digit_char d) \<noteq> 91"
      by (auto split: if_splits)
    then show ?thesis
      by (auto simp: colon_def)
  qed
  have "n mod base < 16"
    using 1(2,3) mod_less_divisor [of base n] by linarith
  then show ?case
    using 1 dig [of n] dig [of "n mod base"] by (cases "n < base") (auto simp: num_str.simps [of base n])
qed

lemma join_with_count:
  "\<forall>x \<in> set xs. c \<notin> set x \<Longrightarrow> count_list (join_with [c] xs) c = length xs - 1"
proof (induction "[c]" xs rule: join_with.induct)
  case (3 x y xs)
  then show ?case by simp
qed (auto simp: count_notin)

lemma join_with_notin: "c \<notin> set sep \<Longrightarrow> \<forall>x \<in> set xs. c \<notin> set x \<Longrightarrow> c \<notin> set (join_with sep xs)"
  by (induction sep xs rule: join_with.induct) auto

lemma length_groups: "even (length bs) \<Longrightarrow> length (groups bs) = length bs div 2"
  by (induction bs rule: groups.induct) auto

lemma ipv6_str_shape:
  assumes "length ip = 16" and "take 12 ip \<noteq> replicate 10 0 @ [255, 255]"
  shows "2 \<le> count_list (ipv6_str ip) colon \<and> 91 \<notin> set (ipv6_str ip)"
proof -
  obtain z l where zl: "best_run 0 (groups ip) (0, 0) = (z, l)"
    by fastforce
  have hex: "\<forall>x \<in> set (map (num_str 16) gs). colon \<notin> set x" "\<forall>x \<in> set (map (num_str 16) gs). 91 \<notin> set x" for gs
    using num_str_no_colon [of 16] by auto
  have "91 \<notin> set [colon]"
    by (simp add: colon_def)
  note nb = join_with_notin [OF this hex(2)]
  show ?thesis
  proof (cases "l = 0")
    case True
    then have "ipv6_str ip = join_with [colon] (map (num_str 16) (groups ip))"
      using assms(2) zl by (simp add: ipv6_str_def Let_def)
    then show ?thesis
      using join_with_count [OF hex(1), of "groups ip"] nb [of "groups ip"] length_groups [of ip] assms(1) by simp
  next
    case False
    then have "ipv6_str ip = join_with [colon] (map (num_str 16) (take z (groups ip))) @ [colon, colon] @
        join_with [colon] (map (num_str 16) (drop (z + l) (groups ip)))"
      using assms(2) zl by (simp add: ipv6_str_def Let_def)
    then show ?thesis
      using nb [of "take z (groups ip)"] nb [of "drop (z + l) (groups ip)"] by (simp add: colon_def)
  qed
qed

text \<open>
  IPv6 targets are not bracketed. For every IPv6 address that is not an embedded IPv4
  address the target handed to the dialler holds at least three colons and no bracket, so the
  port is not separated from the address: host and port of such an address have to be joined
  as \<^verbatim>\<open>[host]:port\<close>.
\<close>

theorem socks_ipv6_target_unbracketed:
  assumes "length ip = 16" and "take 12 ip \<noteq> replicate 10 0 @ [255, 255]" and "port < 65536"
  shows "\<exists>target out s'. socks5ProcessRequest True \<lparr>avail = request_bytes (IPv6 ip) port @ rest, final = e\<rparr> =
      (Inr target, out, s') \<and> 3 \<le> count_list target colon \<and> 91 \<notin> set target"
proof -
  have "count_list (num_str 10 port) colon = 0" "91 \<notin> set (num_str 10 port)"
    using num_str_no_colon [of 10 port] by (auto simp: count_list_0_iff)
  then have "3 \<le> count_list (target_str (ipv6_str ip) port) colon" "91 \<notin> set (target_str (ipv6_str ip) port)"
    using ipv6_str_shape [OF assms(1,2)] by (auto simp: target_str_def colon_def)
  then show ?thesis
    using socks5ProcessRequest_exec [of "IPv6 ip" port rest e] assms by simp
qed

theorem socks_ipv6_target_unbracketed_witness:
  "\<exists>target out s'. socks5ProcessRequest True
     \<lparr>avail = request_bytes (IPv6 (replicate 15 0 @ [1])) 443 @ [], final = EOF\<rparr> = (Inr target, out, s') \<and>
     3 \<le> count_list target colon"
proof -
  have "take 12 (replicate 15 0 @ [1]) \<noteq> replicate 10 0 @ [255, 255 :: byte]"
  proof
    assume "take 12 (replicate 15 0 @ [1]) = replicate 10 0 @ [255, 255 :: byte]"
    then have "(take 12 (replicate 15 0 @ [1])) ! 10 = (replicate 10 0 @ [255, 255 :: byte]) ! 10"
      by simp
    then show False
      by (simp add: nth_append)
  qed
  from socks_ipv6_target_unbracketed [OF _ this, of 443 "[]" EOF] show ?thesis
    by fastforce
qed

end
