(* ===== verification/Server_Front.thy ===== *)
theory Server_Front
  imports Peer_Group Cmd_Config Socks5
begin

text \<open>
  The front ends where tunnels and clients arrive: \<^verbatim>\<open>server/server.go\<close> (the address to listen on, TLS,
  the key check and the upgrade of a request to a tunnel) and the listen address of
  \<^verbatim>\<open>client/client.go\<close> (the SOCKS5 address with its credentials). \<^verbatim>\<open>url.Parse\<close> is the argument
  \<open>urlParse\<close>; the upgrade of an HTTP request to a websocket is its outcome.
\<close>

section \<open>Addresses\<close>

record url =
  Scheme :: string
  Host :: string
  Path :: string
  User :: "(string \<times> string option) option"

datatype url_error = InvalidSchema | ParseURLError

definition ParseWebSocketURL :: "(string \<Rightarrow> url option) \<Rightarrow> string \<Rightarrow> url_error + string \<times> string \<times> string" where
  "ParseWebSocketURL urlParse wsURL =
     (if \<not> has_prefix ''ws://'' wsURL \<and> \<not> has_prefix ''wss://'' wsURL \<and> str_contains ''://'' wsURL
      then Inl InvalidSchema
      else
        let wsurl = (if \<not> has_prefix ''ws://'' wsURL \<and> \<not> has_prefix ''wss://'' wsURL then ''ws://'' @ wsURL else wsURL) in
        (case urlParse wsurl of
           None \<Rightarrow> Inl ParseURLError
         | Some u \<Rightarrow>
             let schema = Scheme u;
                 hostPort = (if CHR '':'' \<notin> set (Host u) then
                               (if schema = ''ws'' then Host u @ '':80''
                                else if schema = ''wss'' then Host u @ '':443'' else Host u)
                             else Host u);
                 path = (if Path u = '''' then ''/'' else Path u)
             in Inr (schema, hostPort, path)))"

text \<open>The listen address of the SOCKS5 proxy: address, user, password and whether they are required.\<close>

definition parseSocks5URL :: "(string \<Rightarrow> url option) \<Rightarrow> string \<Rightarrow> url_error + string \<times> string \<times> string \<times> bool" where
  "parseSocks5URL urlParse addr =
     (if \<not> has_prefix ''socks5://'' addr then Inr (addr, '''', '''', False)
      else
        (case urlParse addr of
           None \<Rightarrow> Inl ParseURLError
         | Some u \<Rightarrow>
             (case User u of
                None \<Rightarrow> Inr (Host u, '''', '''', False)
              | Some (username, pw) \<Rightarrow>
                  Inr (Host u, username, case pw of None \<Rightarrow> '''' | Some p \<Rightarrow> p, True))))"

text \<open>Texts are their bytes.\<close>

definition text_bytes :: "string \<Rightarrow> byte list" where
  "text_bytes s = map of_char s"

section \<open>The server\<close>

record Server =
  peerGroup :: PeerGroup
  keyfile :: string
  certfile :: string
  srv_authkey :: string

text \<open>\<open>None\<close>: the panic of \<open>NewPeerGroup\<close>.\<close>

definition NewServer :: "source \<Rightarrow> string \<Rightarrow> string \<Rightarrow> string \<Rightarrow> Server option" where
  "NewServer crand key kf cf =
     (case NewPeerGroup crand of
        None \<Rightarrow> None
      | Some pg \<Rightarrow> Some \<lparr>peerGroup = pg, keyfile = kf, certfile = cf, srv_authkey = key\<rparr>)"

definition srv_Cancel :: "Server \<Rightarrow> Server" where
  "srv_Cancel s = s\<lparr>peerGroup := pg_Stop (peerGroup s)\<rparr>"

text \<open>The server's own copy of the function that reads TLS files is the client's, line by line.\<close>

definition srv_TLSConfigFromFiles ::
    "(string \<Rightarrow> string \<Rightarrow> bool) \<Rightarrow> (string \<Rightarrow> string option) \<Rightarrow> (string \<Rightarrow> bool) \<Rightarrow>
     string \<Rightarrow> string \<Rightarrow> string \<Rightarrow> bool \<Rightarrow> tls_error + tls_config" where
  "srv_TLSConfigFromFiles = TLSConfigFromFiles"

text \<open>What \<open>ServeThread\<close> ends up doing for an address: fail, or listen with or without TLS on a path.\<close>

datatype listen_plan =
  UrlFailed url_error
| TlsFailed tls_error
| ListenAndServeTLS string string tls_config
| ListenAndServe string string

definition ServeThread ::
    "(string \<Rightarrow> url option) \<Rightarrow> (string \<Rightarrow> string \<Rightarrow> bool) \<Rightarrow> (string \<Rightarrow> string option) \<Rightarrow> (string \<Rightarrow> bool) \<Rightarrow>
     string \<Rightarrow> Server \<Rightarrow> listen_plan" where
  "ServeThread urlParse loadPair readFile appendCerts wsurl s =
     (case ParseWebSocketURL urlParse wsurl of
        Inl e \<Rightarrow> UrlFailed e
      | Inr (_, address, wspath) \<Rightarrow>
          if certfile s \<noteq> '''' \<and> keyfile s \<noteq> '''' then
            (case srv_TLSConfigFromFiles loadPair readFile appendCerts (certfile s) (keyfile s) '''' True of
               Inl e \<Rightarrow> TlsFailed e
             | Inr c \<Rightarrow> ListenAndServeTLS address wspath c)
          else ListenAndServe address wspath)"

text \<open>
  \<open>Serve\<close>: one goroutine per address, counted in a wait group, and then the wait for the group's
  counter to fall to zero. \<open>ServeThread\<close> takes the group and calls \<^verbatim>\<open>Done\<close> on no path, so the counter stays
  at the number of addresses; its error is dropped. The result is the goroutines' plans and
  whether \<open>Serve\<close> returns once they have all ended.
\<close>

definition Serve ::
    "(string \<Rightarrow> url option) \<Rightarrow> (string \<Rightarrow> string \<Rightarrow> bool) \<Rightarrow> (string \<Rightarrow> string option) \<Rightarrow> (string \<Rightarrow> bool) \<Rightarrow>
     string list \<Rightarrow> Server \<Rightarrow> listen_plan list \<times> bool" where
  "Serve urlParse loadPair readFile appendCerts addresses s =
     (map (\<lambda>address. ServeThread urlParse loadPair readFile appendCerts address s) addresses,
      length addresses = 0)"

text \<open>
  The handler of the tunnel path. \<open>authHeader\<close> is the value of the Authorization header, empty when
  there is none; \<open>upgraded\<close> is the websocket connection when the upgrade succeeds.
\<close>

datatype ws_reply = WsUnauthorized | UpgradeFailed | TunnelRefused exchange_error | TunnelAdded

definition serve_tunnel ::
    "pool_sizes \<Rightarrow> int \<Rightarrow> nat \<Rightarrow> net_write \<Rightarrow> u32 \<Rightarrow> string \<Rightarrow> source option \<Rightarrow> Server \<Rightarrow> Stats \<times> Stats \<Rightarrow>
     ws_reply \<times> Server \<times> (Stats \<times> Stats)" where
  "serve_tunnel z PingInterval now w rand authHeader upgraded s g =
     (if srv_authkey s \<noteq> '''' \<and> authHeader \<noteq> ''Bearer '' @ srv_authkey s then (WsUnauthorized, s, g)
      else
        (case upgraded of
           None \<Rightarrow> (UpgradeFailed, s, g)
         | Some conn \<Rightarrow>
             (case AddTunnelFromConn z PingInterval now w rand conn (peerGroup s) g of
                (Some e, pg, g') \<Rightarrow> (TunnelRefused e, s\<lparr>peerGroup := pg\<rparr>, g')
              | (None, pg, g') \<Rightarrow> (TunnelAdded, s\<lparr>peerGroup := pg\<rparr>, g'))))"

section \<open>Properties of the front ends\<close>

text \<open>
  C32: the key decides who may open a tunnel. The server answers the request a client makes for an
  endpoint as unauthorized, leaving its peers and counters as they are, exactly when it has a key
  and the client's key is another one. A client without a key sends no header.
\<close>

theorem tunnel_needs_key:
  assumes "dial_request_for cm endpoint = Inr req"
    and "serve_tunnel z ival now w rand (case dial_auth req of None \<Rightarrow> '''' | Some h \<Rightarrow> h) upgraded s g = (rep, s', g')"
  shows "(rep = WsUnauthorized \<longleftrightarrow> srv_authkey s \<noteq> '''' \<and> authkey cm \<noteq> srv_authkey s) \<and>
    (rep \<noteq> TunnelAdded \<longrightarrow> tunnels_of (peerGroup s') = tunnels_of (peerGroup s) \<and> g' = g)"
proof -
  have auth: "dial_auth req = (if authkey cm \<noteq> '''' then Some (''Bearer '' @ authkey cm) else None)"
    using assms(1) by (auto simp: dial_request_for_def Let_def split: if_splits sum.splits)
  have "rep = WsUnauthorized \<longleftrightarrow> srv_authkey s \<noteq> '''' \<and> authkey cm \<noteq> srv_authkey s"
    using assms(2) by (auto simp: serve_tunnel_def auth split: if_splits option.splits prod.splits)
  moreover have "tunnels_of (peerGroup s') = tunnels_of (peerGroup s) \<and> g' = g" if "rep \<noteq> TunnelAdded"
    using assms(2) that
    by (auto simp: serve_tunnel_def AddTunnelFromConn_def split: if_splits option.splits prod.splits)
  ultimately show ?thesis
    by blast
qed

definition sample_server :: "string \<Rightarrow> Server" where
  "sample_server key = \<lparr>peerGroup = [], keyfile = '''', certfile = '''', srv_authkey = key\<rparr>"

theorem tunnel_needs_key_witness:
  "fst (serve_tunnel \<lparr>TunnelSendQueueSize = 4, TunnelRecvQueueSize = 4, ConnSendQueueSize = 4, ConnRecvQueueSize = 4,
      ConnOrderedRecvQueueSize = 4\<rparr> 30 0 WriteOk 9 ''Bearer k2'' None (sample_server ''k1'') (NewStats 2, NewStats 2)) =
   WsUnauthorized"
proof -
  let ?cm = "NewClientManager 4 [''ws://a''] 7 ''k2'' True True"
  have "dial_request_for ?cm ''ws://a'' = Inr \<lparr>dial_endpoint = ''ws://a'', dial_tls = None, dial_auth = Some ''Bearer k2''\<rparr>"
    by (simp add: dial_request_for_def NewClientManager_def)
  from tunnel_needs_key [OF this, of _ 30 0 WriteOk 9 None "sample_server ''k1''" "(NewStats 2, NewStats 2)"]
  show ?thesis
    by (auto simp: sample_server_def NewClientManager_def serve_tunnel_def)
qed

text \<open>
  The scheme of a listen address does not decide about TLS. When the certificate or the key is
  not configured, a \<^verbatim>\<open>wss\<close> address is served in the clear, on port 443 if it names no port.
\<close>

theorem wss_without_certificate_is_plain:
  assumes "urlParse (''wss://'' @ rest) = Some u" and "Scheme u = ''wss''" and "CHR '':'' \<notin> set (Host u)"
    and "certfile s = '''' \<or> keyfile s = ''''"
  shows "ServeThread urlParse loadPair readFile appendCerts (''wss://'' @ rest) s =
    ListenAndServe (Host u @ '':443'') (if Path u = '''' then ''/'' else Path u)"
  using assms by (auto simp: ServeThread_def ParseWebSocketURL_def has_prefix_def)

theorem wss_without_certificate_is_plain_witness:
  "ServeThread (\<lambda>_. Some \<lparr>Scheme = ''wss'', Host = ''example.org'', Path = ''/tunnel'', User = None\<rparr>)
     (\<lambda>_ _. True) (\<lambda>_. None) (\<lambda>_. False) ''wss://example.org/tunnel'' (sample_server ''k'') =
   ListenAndServe ''example.org:443'' ''/tunnel''"
  using wss_without_certificate_is_plain
    [of "\<lambda>_. Some \<lparr>Scheme = ''wss'', Host = ''example.org'', Path = ''/tunnel'', User = None\<rparr>" "''example.org/tunnel''"
      _ "sample_server ''k''"]
  by (simp add: sample_server_def)

text \<open>
  An IPv6 host gets no default port. A host that is a bracketed IPv6 address without a port
  already holds a colon, so the address to listen on is the bare host.
\<close>

theorem ipv6_host_without_port:
  assumes "urlParse wsURL = Some u" and "has_prefix ''ws://'' wsURL \<or> has_prefix ''wss://'' wsURL"
    and "Host u = ''['' @ ip @ '']''" and "CHR '':'' \<in> set ip"
  shows "\<exists>path. ParseWebSocketURL urlParse wsURL = Inr (Scheme u, Host u, path)"
  using assms by (auto simp: ParseWebSocketURL_def Let_def)

theorem ipv6_host_without_port_witness:
  "\<exists>path. ParseWebSocketURL (\<lambda>_. Some \<lparr>Scheme = ''ws'', Host = ''[::1]'', Path = '''', User = None\<rparr>) ''ws://[::1]'' =
     Inr (''ws'', ''[::1]'', path)"
  using ipv6_host_without_port [of "\<lambda>_. Some \<lparr>Scheme = ''ws'', Host = ''[::1]'', Path = '''', User = None\<rparr>" "''ws://[::1]''"
      _ "''::1''"]
  by (simp add: has_prefix_def)

end
