(* ===== verification/Client_Front.thy ===== *)
theory Client_Front
  imports Server_Front Client_Relay
begin

text \<open>
  \<^verbatim>\<open>client/client.go\<close>: the client around its peer, and the two loops that accept local connections, for
  TCP forwarding and for SOCKS5. What the listener returns is a list of outcomes; for every accepted
  connection a goroutine dials through the peer and starts the two copy loops of \<open>Client_Relay\<close>.
\<close>

section \<open>The client\<close>

record Client =
  cl_Peer :: Peer
  cl_authkey :: string

text \<open>\<open>None\<close>: the panic of \<open>NewClientPeer\<close>.\<close>

definition NewClient ::
    "(i64 \<Rightarrow> u32) \<Rightarrow> source \<Rightarrow> pool_sizes \<Rightarrow> int \<Rightarrow> string list \<Rightarrow> string \<Rightarrow> bool \<Rightarrow> bool \<Rightarrow> Client option" where
  "NewClient uint32 crand z tunnelN es key ins retry =
     (case NewClientPeer uint32 crand z tunnelN es key ins retry of
        None \<Rightarrow> None
      | Some p \<Rightarrow> Some \<lparr>cl_Peer = p, cl_authkey = key\<rparr>)"

definition cl_Dial ::
    "pool_sizes \<Rightarrow> i64 \<Rightarrow> i64 \<Rightarrow> u32 \<Rightarrow> byte list \<Rightarrow> Client \<Rightarrow> Stats \<times> Stats \<Rightarrow>
     InboundConnection \<times> Block list \<times> Client \<times> (Stats \<times> Stats)" where
  "cl_Dial z now now' rand address c g =
     (case Dial z now now' rand address (cl_Peer c) g of
        (conn, blks, p, g') \<Rightarrow> (conn, blks, c\<lparr>cl_Peer := p\<rparr>, g'))"

definition cl_Cancel :: "Client \<Rightarrow> Client" where
  "cl_Cancel c = c\<lparr>cl_Peer := p_Stop (cl_Peer c)\<rparr>"

section \<open>Accepting connections\<close>

text \<open>
  An accepted connection: its socket, what the local application sends first, whether the replies of
  the SOCKS5 dialogue can be written, the clock at the two calls of \<^verbatim>\<open>time.Now\<close>, and the random
  number the new connection takes.
\<close>

record accepted_conn =
  ac_tcp :: tcp_conn
  ac_in :: source
  ac_reply_ok :: bool
  ac_now :: i64
  ac_now' :: i64
  ac_rand :: u32

datatype accept_result = AcceptErr | Accepts accepted_conn

text \<open>A session is the running pair of copy loops with the blocks sent before they start.\<close>

type_synonym session = "bi_state \<times> Block list"

definition dial_and_relay ::
    "pool_sizes \<Rightarrow> byte list \<Rightarrow> tcp_conn \<Rightarrow> accepted_conn \<Rightarrow> Client \<Rightarrow> Stats \<times> Stats \<Rightarrow>
     session \<times> Client \<times> (Stats \<times> Stats)" where
  "dial_and_relay z target t a c g =
     (case cl_Dial z (ac_now a) (ac_now' a) (ac_rand a) target c g of
        (conn, blks, c', g') \<Rightarrow> ((bi_start t conn, blks), c', g'))"

text \<open>The goroutine of \<open>ServeForward\<close> for one connection.\<close>

definition forward_conn ::
    "pool_sizes \<Rightarrow> byte list \<Rightarrow> accepted_conn \<Rightarrow> Client \<Rightarrow> Stats \<times> Stats \<Rightarrow>
     session option \<times> Client \<times> (Stats \<times> Stats)" where
  "forward_conn z dest a c g =
     (case dial_and_relay z dest (ac_tcp a) a c g of (s, c', g') \<Rightarrow> (Some s, c', g'))"

text \<open>
  That of \<open>ServeForwardSocks5\<close>: the dialogue, whose replies the socket takes, and then the dial of its target; after
  a failed dialogue the socket is closed.
\<close>

definition socks_conn ::
    "pool_sizes \<Rightarrow> Socks5Auth option \<Rightarrow> accepted_conn \<Rightarrow> Client \<Rightarrow> Stats \<times> Stats \<Rightarrow>
     session option \<times> Client \<times> (Stats \<times> Stats)" where
  "socks_conn z auth a c g =
     (case handleSocks5Client (ac_reply_ok a) auth (ac_in a) of
        (Inl _, _, _) \<Rightarrow> (None, c, g)
      | (Inr target, out, _) \<Rightarrow>
          (case dial_and_relay z target ((ac_tcp a)\<lparr>tcp_out := tcp_out (ac_tcp a) @ out\<rparr>) a c g of
             (s, c', g') \<Rightarrow> (Some s, c', g')))"

text \<open>The loop over what the listener returns: an error is skipped, a connection gets its goroutine.\<close>

fun accept_loop ::
    "(accepted_conn \<Rightarrow> Client \<Rightarrow> Stats \<times> Stats \<Rightarrow> session option \<times> Client \<times> (Stats \<times> Stats)) \<Rightarrow>
     accept_result list \<Rightarrow> Client \<Rightarrow> Stats \<times> Stats \<Rightarrow> session list \<times> Client \<times> (Stats \<times> Stats)" where
  "accept_loop h [] c g = ([], c, g)"
| "accept_loop h (AcceptErr # rs) c g = accept_loop h rs c g"
| "accept_loop h (Accepts a # rs) c g =
     (case h a c g of
        (s, c1, g1) \<Rightarrow>
          (case accept_loop h rs c1 g1 of
             (ss, c2, g2) \<Rightarrow> ((case s of None \<Rightarrow> ss | Some x \<Rightarrow> x # ss), c2, g2)))"

datatype serve_error = BadListenURL url_error | ListenFailed

definition ServeForward ::
    "bool \<Rightarrow> pool_sizes \<Rightarrow> byte list \<Rightarrow> accept_result list \<Rightarrow> Client \<Rightarrow> Stats \<times> Stats \<Rightarrow>
     serve_error + session list \<times> Client \<times> (Stats \<times> Stats)" where
  "ServeForward listenOk z dest rs c g =
     (if listenOk then Inr (accept_loop (forward_conn z dest) rs c g) else Inl ListenFailed)"

definition socks5_auth :: "string \<times> string \<times> string \<times> bool \<Rightarrow> Socks5Auth option" where
  "socks5_auth l =
     (case l of (_, username, password, requireAuth) \<Rightarrow>
        if requireAuth then Some \<lparr>Username = text_bytes username, Password = text_bytes password\<rparr> else None)"

definition ServeForwardSocks5 ::
    "(string \<Rightarrow> url option) \<Rightarrow> (string \<Rightarrow> bool) \<Rightarrow> pool_sizes \<Rightarrow> string \<Rightarrow> accept_result list \<Rightarrow> Client \<Rightarrow> Stats \<times> Stats \<Rightarrow>
     serve_error + session list \<times> Client \<times> (Stats \<times> Stats)" where
  "ServeForwardSocks5 urlParse listenOk z listen rs c g =
     (case parseSocks5URL urlParse listen of
        Inl e \<Rightarrow> Inl (BadListenURL e)
      | Inr l \<Rightarrow>
          if listenOk (fst l) then Inr (accept_loop (socks_conn z (socks5_auth l)) rs c g)
          else Inl ListenFailed)"

section \<open>What the loops have in common\<close>

text \<open>
  The contract of a handler of accepted connections: for each connection it has a target or none.
  Without a target it does nothing; with one it registers a connection under the random number,
  sends the connect block for the target, and starts a session on the socket.
\<close>

abbreviation registered :: "Client \<Rightarrow> u32 \<Rightarrow> Connection option" where
  "registered c \<equiv> map_get (connectionMapping (connectionPool (cl_Peer c)))"

definition session_of :: "tcp_conn \<Rightarrow> byte list \<Rightarrow> accepted_conn \<Rightarrow> session \<Rightarrow> bool" where
  "session_of t target a x \<longleftrightarrow>
     local_tcp (fst x) = t \<and> up (fst x) = Copying \<and> down (fst x) = Copying \<and> connectionID (proxy (fst x)) = ac_rand a \<and>
     snd x = [NewConnectBlock (ac_now' a) (ac_rand a) 0 target]"

locale accept_handler =
  fixes h :: "accepted_conn \<Rightarrow> Client \<Rightarrow> Stats \<times> Stats \<Rightarrow> session option \<times> Client \<times> (Stats \<times> Stats)"
    and target_of :: "accepted_conn \<Rightarrow> (tcp_conn \<times> byte list) option"
  assumes refuses: "target_of a = None \<Longrightarrow> h a c g = (None, c, g)"
    and dials: "target_of a = Some (t, d) \<Longrightarrow> \<exists>x c'. h a c g = (Some x, c', both_stats IncrementConnectionCount g) \<and>
      session_of t d a x \<and> registered c' = (registered c)(ac_rand a \<mapsto> InConn (proxy (fst x)))"
begin

fun dialled :: "accept_result list \<Rightarrow> (accepted_conn \<times> tcp_conn \<times> byte list) list" where
  "dialled [] = []"
| "dialled (AcceptErr # rs) = dialled rs"
| "dialled (Accepts a # rs) = (case target_of a of None \<Rightarrow> dialled rs | Some td \<Rightarrow> (a, td) # dialled rs)"

lemma dialled_in: "(a, td) \<in> set (dialled rs) \<Longrightarrow> Accepts a \<in> set rs \<and> target_of a = Some td"
  by (induction rs rule: dialled.induct) (auto split: option.splits)

lemma accepts_cases:
  assumes "accept_loop h (Accepts a # rs) c g = (ss, c', g')"
  obtains (refused) "target_of a = None" "accept_loop h rs c g = (ss, c', g')"
  | (dialled) t d x c1 ss' where "target_of a = Some (t, d)" "session_of t d a x" "ss = x # ss'"
      "registered c1 = (registered c)(ac_rand a \<mapsto> InConn (proxy (fst x)))"
      "accept_loop h rs c1 (both_stats IncrementConnectionCount g) = (ss', c', g')"
proof (cases "target_of a")
  case None
  then show ?thesis
    using that(1) assms refuses [OF None] by (auto split: prod.splits)
next
  case (Some td)
  obtain t d where td: "td = (t, d)"
    by (cases td)
  obtain x c1 where x: "h a c g = (Some x, c1, both_stats IncrementConnectionCount g)" "session_of t d a x"
      "registered c1 = (registered c)(ac_rand a \<mapsto> InConn (proxy (fst x)))"
    using dials Some td by blast
  obtain ss' where "accept_loop h rs c1 (both_stats IncrementConnectionCount g) = (ss', c', g')" "ss = x # ss'"
    using assms x(1) by (auto split: prod.splits)
  then show ?thesis
    using that(2) Some td x by blast
qed

text \<open>One session per dialled connection, in the order of the list, and the counters follow.\<close>

lemma loop_sessions:
  "accept_loop h rs c g = (ss, c', g') \<Longrightarrow>
     list_all2 (\<lambda>(a, t, d) x. session_of t d a x) (dialled rs) ss \<and>
     g' = ((both_stats IncrementConnectionCount) ^^ length ss) g"
proof (induction rs arbitrary: c g ss)
  case (Cons r rs)
  show ?case
  proof (cases r)
    case AcceptErr
    then show ?thesis
      using Cons by simp
  next
    case (Accepts a)
    show ?thesis
      using Cons.prems [unfolded Accepts]
    proof (cases rule: accepts_cases)
      case refused
      then show ?thesis
        using Cons.IH Accepts by simp
    next
      case (dialled t d x c1 ss')
      then show ?thesis
        using Cons.IH [OF dialled(5)] Accepts by (simp add: funpow_swap1)
    qed
  qed
qed simp

lemma loop_registers:
  "accept_loop h rs c g = (ss, c', g') \<Longrightarrow> distinct (map (ac_rand \<circ> fst) (dialled rs)) \<Longrightarrow>
     (\<forall>x \<in> set ss. registered c' (connectionID (proxy (fst x))) = Some (InConn (proxy (fst x)))) \<and>
     (\<forall>i. i \<notin> set (map (ac_rand \<circ> fst) (dialled rs)) \<longrightarrow> registered c' i = registered c i)"
proof (induction rs arbitrary: c g ss)
  case (Cons r rs)
  show ?case
  proof (cases r)
    case AcceptErr
    then show ?thesis
      using Cons by simp
  next
    case (Accepts a)
    show ?thesis
      using Cons.prems(1) [unfolded Accepts]
    proof (cases rule: accepts_cases)
      case refused
      then show ?thesis
        using Cons.IH Cons.prems(2) Accepts by simp
    next
      case (dialled t d x c1 ss')
      then show ?thesis
        using Cons.IH [OF dialled(5)] Cons.prems(2) Accepts by (simp add: session_of_def)
    qed
  qed
qed simp

end

section \<open>The two handlers\<close>

lemma dial_and_relay_session:
  "\<exists>x c'. dial_and_relay z target t a c g = (x, c', both_stats IncrementConnectionCount g) \<and>
     session_of t target a x \<and> registered c' = (registered c)(ac_rand a \<mapsto> InConn (proxy (fst x)))"
  by (auto simp: dial_and_relay_def cl_Dial_def Dial_def NewPooledInboundConnection_def addConnection_def SendConnect_def
      packConnect_def NewInboundConnection_def newBlockProcessor_def session_of_def bi_start_def fun_eq_iff Let_def)

definition forward_target :: "byte list \<Rightarrow> accepted_conn \<Rightarrow> (tcp_conn \<times> byte list) option" where
  "forward_target dest a = Some (ac_tcp a, dest)"

definition socks_target :: "Socks5Auth option \<Rightarrow> accepted_conn \<Rightarrow> (tcp_conn \<times> byte list) option" where
  "socks_target auth a =
     (case handleSocks5Client (ac_reply_ok a) auth (ac_in a) of
        (Inl _, _, _) \<Rightarrow> None
      | (Inr target, out, _) \<Rightarrow> Some ((ac_tcp a)\<lparr>tcp_out := tcp_out (ac_tcp a) @ out\<rparr>, target))"

interpretation forward: accept_handler "forward_conn z dest" "forward_target dest" for z dest
proof unfold_locales
  show "forward_conn z dest a c g = (None, c, g)" if "forward_target dest a = None" for a c g
    using that by (simp add: forward_target_def)
  show "\<exists>x c'. forward_conn z dest a c g = (Some x, c', both_stats IncrementConnectionCount g) \<and>
      session_of t d a x \<and> registered c' = (registered c)(ac_rand a \<mapsto> InConn (proxy (fst x)))"
    if "forward_target dest a = Some (t, d)" for a t d c g
    using that dial_and_relay_session [of z dest t a c g] by (auto simp: forward_target_def forward_conn_def)
qed

interpretation socks: accept_handler "socks_conn z auth" "socks_target auth" for z auth
proof unfold_locales
  show "socks_conn z auth a c g = (None, c, g)" if "socks_target auth a = None" for a c g
    using that by (auto simp: socks_target_def socks_conn_def split: prod.splits sum.splits)
  show "\<exists>x c'. socks_conn z auth a c g = (Some x, c', both_stats IncrementConnectionCount g) \<and>
      session_of t d a x \<and> registered c' = (registered c)(ac_rand a \<mapsto> InConn (proxy (fst x)))"
    if "socks_target auth a = Some (t, d)" for a t d c g
    using that dial_and_relay_session [of z d t a c g]
    by (auto simp: socks_target_def socks_conn_def split: prod.splits sum.splits)
qed

section \<open>Properties of the accepting loops\<close>

fun accepted_of :: "accept_result list \<Rightarrow> accepted_conn list" where
  "accepted_of [] = []"
| "accepted_of (AcceptErr # rs) = accepted_of rs"
| "accepted_of (Accepts a # rs) = a # accepted_of rs"

lemma forward_dialled: "forward.dialled dest rs = map (\<lambda>a. (a, ac_tcp a, dest)) (accepted_of rs)"
proof (induction rs rule: accepted_of.induct)
  case (3 a rs)
  then show ?case
    using forward_target_def [of dest a] by simp
qed simp_all

lemma count_connections:
  "connectionCount (fst ((both_stats IncrementConnectionCount ^^ n) g)) = connectionCount (fst g) + of_nat n"
  by (induction n) (simp_all add: both_stats_def IncrementConnectionCount_def)

text \<open>
  C23: every accepted connection is forwarded, each through a connection of its own. However the errors of
  the listener and the accepted connections alternate, the loop of \<open>ServeForward\<close> has one session per
  accepted connection, in their order: its socket is that connection, both copy loops run, and the only
  block sent for it so far is the connect block for the configured destination, with block number 0. When
  the random numbers differ, the peer has exactly these connections under their numbers besides those
  it had before, so none of them is lost and none is replaced. The counter counts them all.
\<close>

theorem forward_sessions:
  assumes "ServeForward listenOk z dest rs c g = Inr (ss, c', g')" and "distinct (map ac_rand (accepted_of rs))"
  shows "list_all2 (\<lambda>a x. session_of (ac_tcp a) dest a x \<and> registered c' (ac_rand a) = Some (InConn (proxy (fst x))))
      (accepted_of rs) ss \<and>
    (\<forall>i. i \<notin> ac_rand ` set (accepted_of rs) \<longrightarrow> registered c' i = registered c i) \<and>
    connectionCount (fst g') = connectionCount (fst g) + of_nat (length ss)"
proof -
  have loop: "accept_loop (forward_conn z dest) rs c g = (ss, c', g')"
    using assms(1) by (auto simp: ServeForward_def split: if_splits)
  have dist: "distinct (map (ac_rand \<circ> fst) (forward.dialled dest rs))"
    using assms(2) by (simp add: forward_dialled comp_def)
  note ses = forward.loop_sessions [OF loop] and reg = forward.loop_registers [OF loop dist]
  have all: "list_all2 (\<lambda>a x. session_of (ac_tcp a) dest a x) (accepted_of rs) ss"
    using ses by (simp add: forward_dialled list.rel_map)
  have "list_all2 (\<lambda>a x. session_of (ac_tcp a) dest a x \<and> registered c' (ac_rand a) = Some (InConn (proxy (fst x))))
      (accepted_of rs) ss"
    unfolding list_all2_conv_all_nth
  proof (intro conjI allI impI)
    show "length (accepted_of rs) = length ss"
      using all by (rule list_all2_lengthD)
    fix n
    assume n: "n < length (accepted_of rs)"
    show s: "session_of (ac_tcp (accepted_of rs ! n)) dest (accepted_of rs ! n) (ss ! n)"
      using list_all2_nthD [OF all n] .
    have "ss ! n \<in> set ss"
      using n list_all2_lengthD [OF all] by simp
    then show "registered c' (ac_rand (accepted_of rs ! n)) = Some (InConn (proxy (fst (ss ! n))))"
      using reg s by (auto simp: session_of_def)
  qed
  then show ?thesis
    using reg ses by (auto simp: forward_dialled count_connections image_iff)
qed

definition sample_sizes :: pool_sizes where
  "sample_sizes = \<lparr>TunnelSendQueueSize = 4, TunnelRecvQueueSize = 4, ConnSendQueueSize = 4, ConnRecvQueueSize = 4,
     ConnOrderedRecvQueueSize = 4\<rparr>"

definition sample_client :: Client where
  "sample_client = \<lparr>cl_Peer = newClientPeerWithID sample_sizes 7 4 [''ws://a''] ''k'' True True, cl_authkey = ''k''\<rparr>"

definition sample_accept :: "u32 \<Rightarrow> byte list \<Rightarrow> accepted_conn" where
  "sample_accept i bs = \<lparr>ac_tcp = tcp_open, ac_in = \<lparr>avail = bs, final = EOF\<rparr>, ac_reply_ok = True, ac_now = 0, ac_now' = 1,
     ac_rand = i\<rparr>"

theorem forward_sessions_witness:
  "\<exists>ss c' g'. ServeForward True sample_sizes [100] [Accepts (sample_accept 5 []), AcceptErr, Accepts (sample_accept 6 [])]
      sample_client (NewStats 1, NewStats 1) = Inr (ss, c', g') \<and> length ss = 2 \<and> connectionCount (fst g') = 2"
proof -
  let ?rs = "[Accepts (sample_accept 5 []), AcceptErr, Accepts (sample_accept 6 [])]"
  obtain ss c' g' where r: "ServeForward True sample_sizes [100] ?rs sample_client (NewStats 1, NewStats 1) = Inr (ss, c', g')"
    unfolding ServeForward_def if_True by (metis prod_cases3)
  have "distinct (map ac_rand (accepted_of ?rs))"
    by (simp add: sample_accept_def)
  from forward_sessions [OF r this] have "length ss = 2" "connectionCount (fst g') = connectionCount (fst (NewStats 1, NewStats 1)) + of_nat (length ss)"
    by (auto dest: list_all2_lengthD)
  then show ?thesis
    using r by (simp add: NewStats_def)
qed

lemma socks_session_from:
  assumes "parseSocks5URL urlParse listen = Inr (addr, u, p, True)"
    and "ServeForwardSocks5 urlParse listenOk z listen rs c g = Inr (ss, c', g')" and "x \<in> set ss"
  shows "\<exists>a methods rest target out s'. Accepts a \<in> set rs \<and> Socks5AuthPassword \<in> set methods \<and>
    avail (ac_in a) = greeting_bytes methods @ password_bytes (text_bytes u) (text_bytes p) @ rest \<and>
    handleSocks5Client (ac_reply_ok a) (Some \<lparr>Username = text_bytes u, Password = text_bytes p\<rparr>) (ac_in a) =
      (Inr target, out, s') \<and>
    session_of ((ac_tcp a)\<lparr>tcp_out := tcp_out (ac_tcp a) @ out\<rparr>) target a x"
proof -
  let ?au = "\<lparr>Username = text_bytes u, Password = text_bytes p\<rparr>"
  have "accept_loop (socks_conn z (Some ?au)) rs c g = (ss, c', g')"
    using assms(1,2) by (auto simp: ServeForwardSocks5_def socks5_auth_def split: if_splits)
  then have all: "list_all2 (\<lambda>(a, t, d) x. session_of t d a x) (socks.dialled (Some ?au) rs) ss"
    using socks.loop_sessions by blast
  obtain n where n: "n < length ss" "x = ss ! n"
    using assms(3) by (auto simp: in_set_conv_nth)
  obtain a t d where atd: "socks.dialled (Some ?au) rs ! n = (a, t, d)"
    by (metis prod_cases3)
  have d: "session_of t d a x"
    using list_all2_nthD2 [OF all n(1)] by (simp add: atd n(2))
  have "(a, t, d) \<in> set (socks.dialled (Some ?au) rs)"
    using nth_mem [of n "socks.dialled (Some ?au) rs"] list_all2_lengthD [OF all] n(1) by (simp add: atd)
  then have a: "Accepts a \<in> set rs" "socks_target (Some ?au) a = Some (t, d)"
    using socks.dialled_in by blast+
  obtain out s' where h: "handleSocks5Client (ac_reply_ok a) (Some ?au) (ac_in a) = (Inr d, out, s')"
      "t = (ac_tcp a)\<lparr>tcp_out := tcp_out (ac_tcp a) @ out\<rparr>"
    using a(2) by (auto simp: socks_target_def split: prod.splits sum.splits)
  obtain o1 s1 where "socks5Handshake (Some ?au) (ac_in a) = (Inr (), o1, s1)"
    using h(1) by (auto simp: handleSocks5Client_def h_bind_Inr)
  from socks5Handshake_success [OF this] obtain methods rest where "Socks5AuthPassword \<in> set methods"
      "avail (ac_in a) = greeting_bytes methods @ password_bytes (text_bytes u) (text_bytes p) @ rest"
    by auto
  then show ?thesis
    using a(1) d h by blast
qed

text \<open>
  With credentials in the listen address nobody gets through without them. Every session of the SOCKS5
  loop belongs to an accepted connection whose application sent a greeting that offers password
  authentication and then exactly these credentials; and its connect block names the target of that
  application's request. A connection that fails the dialogue leaves the client as it was.
\<close>

theorem socks_sessions_need_credentials:
  assumes "parseSocks5URL urlParse listen = Inr (addr, u, p, True)"
    and "ServeForwardSocks5 urlParse listenOk z listen rs c g = Inr (ss, c', g')" and "x \<in> set ss"
  shows "\<exists>a methods rest target out s'. Accepts a \<in> set rs \<and> Socks5AuthPassword \<in> set methods \<and>
    avail (ac_in a) = greeting_bytes methods @ password_bytes (text_bytes u) (text_bytes p) @ rest \<and>
    handleSocks5Client (ac_reply_ok a) (Some \<lparr>Username = text_bytes u, Password = text_bytes p\<rparr>) (ac_in a) =
      (Inr target, out, s') \<and>
    session_of ((ac_tcp a)\<lparr>tcp_out := tcp_out (ac_tcp a) @ out\<rparr>) target a x"
  by (rule socks_session_from [OF assms])

text \<open>Two connections to a proxy with credentials: one sends rubbish, the other asks for port 80 of host \<^verbatim>\<open>a\<close>.\<close>

definition sample_url :: "string \<Rightarrow> url option" where
  "sample_url _ = Some \<lparr>Scheme = ''socks5'', Host = ''h'', Path = '''', User = Some (''u'', Some ''p'')\<rparr>"

definition sample_socks :: "accept_result list" where
  "sample_socks = [Accepts (sample_accept 5 [1]),
     Accepts (sample_accept 6 (greeting_bytes [2] @ password_bytes [117] [112] @ request_bytes (Domain [97]) 80))]"

lemma sample_url_parsed: "parseSocks5URL sample_url ''socks5://u:p@h'' = Inr (''h'', ''u'', ''p'', True)"
  by (simp add: parseSocks5URL_def has_prefix_def sample_url_def)

lemma sample_socks_run:
  "\<exists>x c' g' t. ServeForwardSocks5 sample_url (\<lambda>_. True) sample_sizes ''socks5://u:p@h'' sample_socks sample_client
       (NewStats 1, NewStats 1) = Inr ([x], c', g') \<and>
     session_of t [97, 58, 56, 48] (sample_accept 6 (greeting_bytes [2] @ password_bytes [117] [112] @ request_bytes (Domain [97]) 80)) x"
proof -
  let ?bs = "greeting_bytes [2] @ password_bytes [117] [112] @ request_bytes (Domain [97]) 80"
  let ?au = "\<lparr>Username = [117], Password = [112]\<rparr>"
  have tb: "text_bytes ''u'' = [117]" "text_bytes ''p'' = [112]"
    by (simp_all add: text_bytes_def of_char_def)
  have bad: "\<exists>e out s'. handleSocks5Client True (Some ?au) \<lparr>avail = [1], final = EOF\<rparr> = (Inl e, out, s')"
    by (simp add: handleSocks5Client_def socks5Handshake_def h_bind_def h_read_def ReadFull_def)
  have ok: "auth_ok (Some ?au)" "auth_method (Some ?au) \<in> set [2]" "length [2 :: byte] < 256"
      "addr_ok (Domain [97])" "(80 :: nat) < 65536"
    by (simp_all add: auth_ok_def auth_method_def)
  have "auth_bytes (Some ?au) = password_bytes [117] [112]" "target_str (addr_host (Domain [97])) 80 = [97, 58, 56, 48]"
    by (simp_all add: auth_bytes_def target_str_def colon_def num_str.simps digit_char_def)
  then obtain out s' where good: "handleSocks5Client True (Some ?au) \<lparr>avail = ?bs, final = EOF\<rparr> =
      (Inr [97, 58, 56, 48], out, s')"
    using socks5Handshake_exec [OF ok(1-3), of "request_bytes (Domain [97]) 80" EOF]
      socks5ProcessRequest_exec [OF ok(4,5), of "[]" EOF]
    by (simp add: handleSocks5Client_def h_bind_def)
  have t5: "socks_target (Some ?au) (sample_accept 5 [1]) = None"
    using bad by (auto simp: socks_target_def sample_accept_def)
  obtain t where t6: "socks_target (Some ?au) (sample_accept 6 ?bs) = Some (t, [97, 58, 56, 48])"
    using good by (simp add: socks_target_def sample_accept_def)
  note h5 = socks.refuses [OF t5, of sample_sizes sample_client "(NewStats 1, NewStats 1)"]
  obtain x c' g' where h6: "socks_conn sample_sizes (Some ?au) (sample_accept 6 ?bs) sample_client (NewStats 1, NewStats 1) =
      (Some x, c', g')" "session_of t [97, 58, 56, 48] (sample_accept 6 ?bs) x"
    using socks.dials [OF t6] by blast
  have "ServeForwardSocks5 sample_url (\<lambda>_. True) sample_sizes ''socks5://u:p@h'' sample_socks sample_client (NewStats 1, NewStats 1) =
      Inr ([x], c', g')"
    unfolding ServeForwardSocks5_def sample_url_parsed using h5 h6(1) by (simp add: socks5_auth_def tb sample_socks_def)
  then show ?thesis
    using h6(2) by blast
qed

theorem socks_sessions_need_credentials_witness:
  "\<exists>x c' g' a target. ServeForwardSocks5 sample_url (\<lambda>_. True) sample_sizes ''socks5://u:p@h'' sample_socks sample_client
       (NewStats 1, NewStats 1) = Inr ([x], c', g') \<and>
     Accepts a \<in> set sample_socks \<and> avail (ac_in a) \<noteq> [1] \<and> snd x = [NewConnectBlock 1 6 0 target]"
proof -
  obtain x c' g' where run: "ServeForwardSocks5 sample_url (\<lambda>_. True) sample_sizes ''socks5://u:p@h'' sample_socks sample_client
       (NewStats 1, NewStats 1) = Inr ([x], c', g')"
    using sample_socks_run by blast
  from socks_sessions_need_credentials [OF sample_url_parsed run, of x] obtain a methods rest t' target' where
      a: "Accepts a \<in> set sample_socks" "avail (ac_in a) = greeting_bytes methods @ rest" "session_of t' target' a x"
    by (metis list.set_intros(1))
  have ne: "avail (ac_in a) \<noteq> [1]"
    using a(2) by (auto simp: greeting_bytes_def)
  then have "a = sample_accept 6 (greeting_bytes [2] @ password_bytes [117] [112] @ request_bytes (Domain [97]) 80)"
    using a(1) by (auto simp: sample_socks_def sample_accept_def)
  then have "snd x = [NewConnectBlock 1 6 0 target']"
    using a(3) by (simp add: session_of_def sample_accept_def)
  then show ?thesis
    using run a(1) ne by blast
qed

end
