(* ===== verification/Whole_System.thy ===== *)
theory Whole_System
  imports End_To_End Client_Front
begin

text \<open>
  The composition of the accepting loops of the client, its relays, the transport and the server's
  connections: which addresses a server dials for whom.
\<close>

section \<open>Only the first block of a session is a connect block\<close>

definition no_connect :: "Block list \<Rightarrow> bool" where
  "no_connect blks \<longleftrightarrow> list_all (\<lambda>b. Type b \<noteq> TypeConnect) blks"

lemma no_connect_simps [simp]: "no_connect []" "no_connect (xs @ ys) \<longleftrightarrow> no_connect xs \<and> no_connect ys"
  by (simp_all add: no_connect_def)

lemma Write_no_connect: "Write now d c = (n, er, blks, c') \<Longrightarrow> no_connect blks"
  using sendData_data [of now d c]
  by (auto simp: Write_def no_connect_def list_all_iff split: if_splits prod.splits)

lemma SendDisconnect_no_connect: "SendDisconnect now k c = (blks, c') \<Longrightarrow> no_connect blks"
  using SendDisconnect_block by (fastforce simp: no_connect_def)

lemma Close_no_connect: "Close now c = Some (blks, c') \<Longrightarrow> no_connect blks"
  using SendDisconnect_no_connect
  by (fastforce simp: Close_def Let_def split: if_splits prod.splits option.splits)

lemma close_both_no_connect: "close_both now s = Some (blks, s') \<Longrightarrow> no_connect blks"
  by (auto simp: close_both_def dest: Close_no_connect split: option.splits)

lemma ends_no_connect:
  "up_failed now s = (blks, s') \<Longrightarrow> no_connect blks" "down_failed now s = (blks, s') \<Longrightarrow> no_connect blks"
  "up_finished now s = (blks, s') \<Longrightarrow> no_connect blks" "down_finished now s = (blks, s') \<Longrightarrow> no_connect blks"
  by (auto simp: up_failed_def down_failed_def relay_failed_def up_finished_def down_finished_def CloseWrite_def
      CloseRead_def dest: close_both_no_connect SendDisconnect_no_connect split: option.splits prod.splits)

lemma up_round_no_connect: "up_round now r s = (blks, s') \<Longrightarrow> no_connect blks"
  by (auto simp: up_round_def Let_def dest: Write_no_connect ends_no_connect
      split: if_splits net_read.splits prod.splits option.splits)

lemma down_round_no_connect: "down_round fuel now pick w s = (blks, s') \<Longrightarrow> no_connect blks"
  by (auto simp: down_round_def Let_def dest: ends_no_connect
      split: if_splits read_result.splits prod.splits option.splits)

lemma bi_run_no_connect: "bi_run s evs = Some (blks, s') \<Longrightarrow> no_connect blks"
proof (induction evs arbitrary: s blks)
  case (Cons ev evs)
  obtain b1 s1 b2 where st: "bi_step s ev = Some (b1, s1)" and run: "bi_run s1 evs = Some (b2, s')" and b: "blks = b1 @ b2"
    using Cons.prems by (auto split: option.splits)
  have "no_connect b1"
    using st by (auto simp: bi_step_def dest: up_round_no_connect down_round_no_connect close_both_no_connect
        split: bi_event.splits send_result.splits if_splits)
  then show ?case
    using Cons.IH [OF run] b by simp
qed simp

section \<open>What the server dials\<close>

lemma arrived_sent:
  assumes "transport_reachable T" and "b \<in> set (arrived T i)"
  shows "\<exists>a \<in> set (sent T i). b = canon a \<and> ConnectionID b = i"
proof -
  have "received T b" "ConnectionID b = i"
    using reachable_inv [OF assms(1)] assms(2) by (auto simp: t_inv_def rx_ok_def)
  then show ?thesis
    unfolding received_def by blast
qed

lemma recvRelay_dial:
  assumes "recvRelay_block n m b cp g = (Delivered (Some addr), cp', g')"
  shows "Type b = TypeConnect \<and> addr = BlockData b"
proof -
  obtain conn cp1 g1 where "deliver_to conn b cp1 g1 = (Delivered (Some addr), cp', g')"
    using assms by (auto simp: recvRelay_block_def split: option.splits if_splits prod.splits)
  from deliver_to_spec [OF this] have "fst (conn_RecvBlock conn b) = Some addr"
    by simp
  then show ?thesis
    by (cases conn) (auto simp: conn_RecvBlock_def oc_RecvBlock_def split: if_splits)
qed

lemma server_dials_target:
  assumes "session_of t target a x" and "bi_run (fst x) evs = Some (blks, s')"
    and "transport_reachable T" and "sent T (ac_rand a) = snd x @ blks" and "b \<in> set (arrived T (ac_rand a))"
    and "recvRelay_block n m b cp g = (Delivered (Some addr), cp', g')"
  shows "addr = target \<and> ConnectionID b = ac_rand a"
proof -
  obtain d where d: "d \<in> set (snd x @ blks)" "b = canon d" "ConnectionID b = ac_rand a"
    using arrived_sent [OF assms(3,5)] unfolding assms(4) by blast
  have b: "Type b = TypeConnect" "addr = BlockData b"
    using recvRelay_dial [OF assms(6)] by auto
  have "d \<notin> set blks"
    using bi_run_no_connect [OF assms(2)] b(1) d(2) by (auto simp: no_connect_def list_all_iff)
  then have "d = NewConnectBlock (ac_now' a) (ac_rand a) 0 target"
    using d(1) assms(1) by (auto simp: session_of_def)
  then show ?thesis
    using b(2) d(2,3) by (simp add: NewConnectBlock_def)
qed

text \<open>
  C22: from the SOCKS5 credentials to the server's dial. Take a client that listens with credentials, a session its
  loop has started, any course of that session's copy loops, any history of the tunnels that carry its
  blocks, and any block that has arrived on the other side for its connection. If delivering that
  block makes the server dial an address, then this address is the one that the application at the
  session's socket requested, after it presented the configured credentials.
\<close>

theorem socks_dials_authenticated:
  assumes "parseSocks5URL urlParse listen = Inr (la, u, p, True)"
    and "ServeForwardSocks5 urlParse listenOk z listen rs c g = Inr (ss, c', g')" and "x \<in> set ss"
    and "bi_run (fst x) evs = Some (blks, s')" and "transport_reachable T"
    and "sent T (connectionID (proxy (fst x))) = snd x @ blks" and "b \<in> set (arrived T (connectionID (proxy (fst x))))"
    and "recvRelay_block n m b cp g1 = (Delivered (Some addr), cp', g2)"
  shows "\<exists>a methods rest out s''. Accepts a \<in> set rs \<and> Socks5AuthPassword \<in> set methods \<and>
    avail (ac_in a) = greeting_bytes methods @ password_bytes (text_bytes u) (text_bytes p) @ rest \<and>
    handleSocks5Client (ac_reply_ok a) (Some \<lparr>Username = text_bytes u, Password = text_bytes p\<rparr>) (ac_in a) =
      (Inr addr, out, s'') \<and>
    local_tcp (fst x) = (ac_tcp a)\<lparr>tcp_out := tcp_out (ac_tcp a) @ out\<rparr>"
proof -
  obtain a methods rest target out s'' where a: "Accepts a \<in> set rs" "Socks5AuthPassword \<in> set methods"
      "avail (ac_in a) = greeting_bytes methods @ password_bytes (text_bytes u) (text_bytes p) @ rest"
      "handleSocks5Client (ac_reply_ok a) (Some \<lparr>Username = text_bytes u, Password = text_bytes p\<rparr>) (ac_in a) =
        (Inr target, out, s'')"
      "session_of ((ac_tcp a)\<lparr>tcp_out := tcp_out (ac_tcp a) @ out\<rparr>) target a x"
    using socks_session_from [OF assms(1-3)] by blast
  have "connectionID (proxy (fst x)) = ac_rand a"
    using a(5) by (simp add: session_of_def)
  then have "addr = target"
    using server_dials_target [OF a(5) assms(4,5) _ _ assms(8)] assms(6,7) by simp
  moreover have "local_tcp (fst x) = (ac_tcp a)\<lparr>tcp_out := tcp_out (ac_tcp a) @ out\<rparr>"
    using a(5) by (simp add: session_of_def)
  ultimately show ?thesis
    using a(1-4) by blast
qed

text \<open>
  In forwarding mode the server dials the configured destination and nothing else, for every session.
\<close>

theorem forward_dials_destination:
  assumes "ServeForward listenOk z dest rs c g = Inr (ss, c', g')" and "x \<in> set ss"
    and "bi_run (fst x) evs = Some (blks, s')" and "transport_reachable T"
    and "sent T (connectionID (proxy (fst x))) = snd x @ blks" and "b \<in> set (arrived T (connectionID (proxy (fst x))))"
    and "recvRelay_block n m b cp g1 = (Delivered (Some addr), cp', g2)"
  shows "addr = dest"
proof -
  have loop: "accept_loop (forward_conn z dest) rs c g = (ss, c', g')"
    using assms(1) by (auto simp: ServeForward_def split: if_splits)
  have all: "list_all2 (\<lambda>a x. session_of (ac_tcp a) dest a x) (accepted_of rs) ss"
    using forward.loop_sessions [OF loop] by (simp add: forward_dialled list.rel_map)
  obtain k where k: "k < length ss" "x = ss ! k"
    using assms(2) by (auto simp: in_set_conv_nth)
  obtain a where a: "session_of (ac_tcp a) dest a x"
    using list_all2_nthD2 [OF all k(1)] k(2) by blast
  then have "connectionID (proxy (fst x)) = ac_rand a"
    by (simp add: session_of_def)
  then show ?thesis
    using server_dials_target [OF a assms(3,4) _ _ assms(7)] assms(5,6) by simp
qed

section \<open>Witnesses\<close>

text \<open>A connect block alone, carried to the other side.\<close>

lemma connect_carried:
  assumes "length addr < 4294967296"
  shows "\<exists>T. transport_reachable T \<and> sent T i = [NewConnectBlock now i 0 addr] \<and>
    canon (NewConnectBlock now i 0 addr) \<in> set (arrived T i)"
proof -
  let ?cb = "NewConnectBlock now i 0 addr"
  have wf: "block_wf ?cb" "\<not> is_control ?cb" "ConnectionID ?cb = i"
    using assms by (simp_all add: NewConnectBlock_def block_wf_def is_control_def)
  obtain s0 where s0: "transport_reachable s0" "idle s0" "sent s0 = (\<lambda>_. [])" "tx_proc s0 = (\<lambda>_. newBlockProcessor)"
    using linked by blast
  have p: "pack_op (\<lambda>_. now) (OpConnect addr) i (tx_proc s0 i) = ([?cb], newBlockProcessor\<lparr>sendBlockID := 1\<rparr>)"
    by (simp add: s0 pack_op_def packConnect_def newBlockProcessor_def)
  have "op_ok (OpConnect addr)"
    using assms by (simp add: op_ok_def)
  from send_hop [OF s0(1,2) this p wf] obtain T where T: "transport_reachable T" "idle T" "sent T i = [?cb]"
    using s0(3) by auto
  have r: "relay_blocks newBlockProcessor (arrived T i) = (delivered T i, rx_proc T i)"
    using reachable_inv [OF T(1)] by (simp add: t_inv_def rx_ok_def)
  have "delivered T i = [canon ?cb]"
    using delivered_complete [OF T(1), of i] idle_quiet [OF T(2)] T(3) by simp
  then have "canon ?cb \<in> set (arrived T i)"
    using relay_blocks_from [OF r] by (auto simp: newBlockProcessor_def)
  then show ?thesis
    using T by (auto)
qed

text \<open>The server's pool when the connect block of the sample session arrives: a new connection, and a dial.\<close>

lemma connect_block_dials:
  assumes "Type b = TypeConnect"
  shows "\<exists>cp' g'. recvRelay_block 4 4 b (sample_cp True) (NewStats 1, NewStats 1) = (Delivered (Some (BlockData b)), cp', g')"
  using assms
  by (simp add: recvRelay_block_new sample_cp_def NewConnectionPool_def deliver_to_def conn_RecvBlock_def oc_RecvBlock_def
      NewOutboundConnection_def chan_send_def)

theorem socks_dials_authenticated_witness:
  "\<exists>a methods rest. Accepts a \<in> set sample_socks \<and> Socks5AuthPassword \<in> set methods \<and>
     avail (ac_in a) = greeting_bytes methods @ password_bytes (text_bytes ''u'') (text_bytes ''p'') @ rest"
proof -
  let ?a = "sample_accept 6 (greeting_bytes [2] @ password_bytes [117] [112] @ request_bytes (Domain [97]) 80)"
  obtain x c' g' t where run: "ServeForwardSocks5 sample_url (\<lambda>_. True) sample_sizes ''socks5://u:p@h'' sample_socks
       sample_client (NewStats 1, NewStats 1) = Inr ([x], c', g')" and x: "session_of t [97, 58, 56, 48] ?a x"
    using sample_socks_run by blast
  have sx: "snd x = [NewConnectBlock 1 6 0 [97, 58, 56, 48]]" "connectionID (proxy (fst x)) = 6"
    using x by (simp_all add: session_of_def sample_accept_def)
  let ?b = "canon (NewConnectBlock 1 6 0 [97, 58, 56, 48])"
  obtain T where T: "transport_reachable T" "sent T 6 = snd x @ []" "?b \<in> set (arrived T 6)"
    using connect_carried [of "[97, 58, 56, 48]" 6 1] sx by auto
  obtain cp' g2 where d: "recvRelay_block 4 4 ?b (sample_cp True) (NewStats 1, NewStats 1) = (Delivered (Some (BlockData ?b)), cp', g2)"
    using connect_block_dials [of ?b] by (auto simp: NewConnectBlock_def)
  have in_x: "x \<in> set [x]" and none: "bi_run (fst x) [] = Some ([], fst x)"
    by simp_all
  have "sent T (connectionID (proxy (fst x))) = snd x @ []" "?b \<in> set (arrived T (connectionID (proxy (fst x))))"
    using T(2,3) sx(2) by simp_all
  from socks_dials_authenticated [OF sample_url_parsed run in_x none T(1) this d] show ?thesis
    by blast
qed

theorem forward_dials_destination_witness:
  "\<exists>T b cp' g2. transport_reachable T \<and> b \<in> set (arrived T 6) \<and>
     recvRelay_block 4 4 b (sample_cp True) (NewStats 1, NewStats 1) = (Delivered (Some [100]), cp', g2)"
proof -
  obtain x c' g' where run: "ServeForward True sample_sizes [100] [Accepts (sample_accept 6 [])] sample_client
      (NewStats 1, NewStats 1) = Inr ([x], c', g')" and x: "session_of tcp_open [100] (sample_accept 6 []) x"
    using forward.dials [of "[100]" "sample_accept 6 []" tcp_open "[100]" sample_sizes sample_client "(NewStats 1, NewStats 1)"]
    by (fastforce simp: ServeForward_def forward_target_def sample_accept_def)
  have sx: "snd x = [NewConnectBlock 1 6 0 [100]]" "connectionID (proxy (fst x)) = 6"
    using x by (simp_all add: session_of_def sample_accept_def)
  let ?b = "canon (NewConnectBlock 1 6 0 [100])"
  obtain T where T: "transport_reachable T" "sent T 6 = snd x @ []" "?b \<in> set (arrived T 6)"
    using connect_carried [of "[100]" 6 1] sx by auto
  obtain addr cp' g2 where d: "recvRelay_block 4 4 ?b (sample_cp True) (NewStats 1, NewStats 1) = (Delivered (Some addr), cp', g2)"
    using connect_block_dials [of ?b] by (auto simp: NewConnectBlock_def)
  have in_x: "x \<in> set [x]" and none: "bi_run (fst x) [] = Some ([], fst x)"
    by simp_all
  have "sent T (connectionID (proxy (fst x))) = snd x @ []" "?b \<in> set (arrived T (connectionID (proxy (fst x))))"
    using T(2,3) sx(2) by simp_all
  from forward_dials_destination [OF run in_x none T(1) this d] show ?thesis
    using T d by blast
qed

end
