(* ===== verification/Ordered_Relay.thy ===== *)
theory Ordered_Relay
  imports Inbound_Connection
begin

text \<open>
  The goroutine of \<open>OrderedRelay\<close> (\<^verbatim>\<open>connection/block_processor.go\<close>) statement by statement, between
  its two channels. \<open>relay_block\<close> treats a received block in one go; the goroutine pushes its blocks
  one at a time, waits whenever the ordered queue is full, and runs concurrently with the pool that
  delivers blocks, the reader that takes them and whoever cancels or closes the connection. This
  theory shows that every interleaving refines \<open>relay_block\<close>, that the two channels never block
  the relay for good, and where closing the channels makes the relay panic.
\<close>

section \<open>The goroutine\<close>

text \<open>
  Where the goroutine is: at the \<^verbatim>\<open>select\<close>, at the send of a block that is next in order, at the
  head of the loop over the cache, at the send of a cached block, returned, or panicking.
\<close>

datatype ordered_pc =
    AtSelect
  | AtSend Block
  | AtCache
  | AtSendCached Block
  | AtReturn
  | AtPanic

text \<open>From the receive of a block to the next statement that may wait.\<close>

definition take_block :: "Block \<Rightarrow> blockProcessor \<Rightarrow> ordered_pc \<times> blockProcessor" where
  "take_block blk x =
     (let x1 = (if BlockID blk + 1 > lastRecvBlockID x
                then x\<lparr>lastRecvBlockID := BlockID blk + 1\<rparr> else x)
      in if recvBlockID x1 = BlockID blk then (AtSend blk, x1)
         else if BlockID blk < recvBlockID x1 then (AtSelect, x1)
         else (AtSelect, x1\<lparr>cache := (cache x1)(BlockID blk \<mapsto> blk)\<rparr>))"

definition send_direct :: "Block \<Rightarrow> 'a baseConnection_scheme \<Rightarrow> (ordered_pc \<times> 'a baseConnection_scheme) option" where
  "send_direct blk c =
     (case chan_send (orderedRecvQueue c) blk of
        Sent q \<Rightarrow>
          Some (AtCache, c\<lparr>orderedRecvQueue := q,
            processor := (processor c)\<lparr>recvBlockID := recvBlockID (processor c) + 1\<rparr>\<rparr>)
      | SendBlocks \<Rightarrow> None
      | SendPanics \<Rightarrow> Some (AtPanic, c))"

definition send_cached :: "Block \<Rightarrow> 'a baseConnection_scheme \<Rightarrow> (ordered_pc \<times> 'a baseConnection_scheme) option" where
  "send_cached blk1 c =
     (let x = processor c in
      case chan_send (orderedRecvQueue c) blk1 of
        Sent q \<Rightarrow>
          Some (AtCache, c\<lparr>orderedRecvQueue := q,
            processor := x\<lparr>cache := (cache x)(recvBlockID x := None), recvBlockID := recvBlockID x + 1\<rparr>\<rparr>)
      | SendBlocks \<Rightarrow> None
      | SendPanics \<Rightarrow> Some (AtPanic, c))"

text \<open>
  The case a \<^verbatim>\<open>select\<close> takes: the receive, which also succeeds with the zero block when the
  channel is closed and empty, the timer, or the cancelled context. \<open>None\<close>: the goroutine waits.
\<close>

datatype select_case = CaseRecv | CaseTimeout | CaseDone

definition relay_select ::
    "select_case \<Rightarrow> 'a baseConnection_scheme \<Rightarrow> (ordered_pc \<times> 'a baseConnection_scheme) option" where
  "relay_select ch c =
     (case ch of
        CaseRecv \<Rightarrow>
          (case chan_recv (recvQueue c) of
             Received blk q \<Rightarrow>
               (let (pc, x) = take_block blk (processor c) in Some (pc, c\<lparr>recvQueue := q, processor := x\<rparr>))
           | ZeroValue \<Rightarrow>
               (let (pc, x) = take_block zero_block (processor c) in Some (pc, c\<lparr>processor := x\<rparr>))
           | RecvBlocks \<Rightarrow> None)
      | CaseTimeout \<Rightarrow>
          Some (AtSelect,
            if recvBlockID (processor c) = lastRecvBlockID (processor c) then c else Stop c)
      | CaseDone \<Rightarrow> if ctxDone c then Some (AtReturn, c) else None)"

fun relay_goroutine ::
    "select_case \<Rightarrow> ordered_pc \<Rightarrow> 'a baseConnection_scheme \<Rightarrow> (ordered_pc \<times> 'a baseConnection_scheme) option" where
  "relay_goroutine ch AtSelect c = relay_select ch c"
| "relay_goroutine ch (AtSend blk) c = send_direct blk c"
| "relay_goroutine ch AtCache c =
     (case cache (processor c) (recvBlockID (processor c)) of
        None \<Rightarrow> Some (AtSelect, c)
      | Some blk1 \<Rightarrow> Some (AtSendCached blk1, c))"
| "relay_goroutine ch (AtSendCached blk1) c = send_cached blk1 c"
| "relay_goroutine ch AtReturn c = None"
| "relay_goroutine ch AtPanic c = None"

section \<open>Runs between open channels\<close>

text \<open>
  The goroutine with its surroundings. \<open>or_arrived\<close> and \<open>or_consumed\<close> are history variables: what
  the pool has delivered to the connection and what its reader has taken from the ordered queue.
\<close>

record 'a ordered_run =
  or_conn :: "'a baseConnection_scheme"
  or_pc :: ordered_pc
  or_arrived :: "Block list"
  or_consumed :: "Block list"

text \<open>
  Runs start at a connection whose channels are open and empty and that has received nothing; it
  may have sent blocks already.
\<close>

definition fresh_conn :: "'a baseConnection_scheme \<Rightarrow> bool" where
  "fresh_conn c \<longleftrightarrow> (processor c)\<lparr>sendBlockID := 0\<rparr> = newBlockProcessor \<and> chan_buf (recvQueue c) = [] \<and> chan_buf (orderedRecvQueue c) = [] \<and>
     \<not> chan_closed (recvQueue c) \<and> \<not> chan_closed (orderedRecvQueue c)"

definition ordered_start :: "'a baseConnection_scheme \<Rightarrow> 'a ordered_run" where
  "ordered_start c = \<lparr>or_conn = c, or_pc = AtSelect, or_arrived = [], or_consumed = []\<rparr>"

text \<open>
  The steps that bring blocks forward are those of the goroutine except the timer and the
  context, and those of the reader; the others are a delivery, the timer, the context, a
  cancellation, and the connection's own sends, which move the send counter of the processor.
\<close>

inductive relay_progress :: "'a ordered_run \<Rightarrow> 'a ordered_run \<Rightarrow> bool" where
  goroutine: "relay_goroutine CaseRecv (or_pc s) (or_conn s) = Some (pc', c') \<Longrightarrow>
    relay_progress s (s\<lparr>or_pc := pc', or_conn := c'\<rparr>)"
| consume: "chan_recv (orderedRecvQueue (or_conn s)) = Received blk q \<Longrightarrow>
    relay_progress s (s\<lparr>or_conn := (or_conn s)\<lparr>orderedRecvQueue := q\<rparr>, or_consumed := or_consumed s @ [blk]\<rparr>)"

inductive ordered_step :: "'a ordered_run \<Rightarrow> 'a ordered_run \<Rightarrow> bool" where
  progress: "relay_progress s s' \<Longrightarrow> ordered_step s s'"
| arrive: "RecvBlock (or_conn s) blk = Sent q \<Longrightarrow>
    ordered_step s (s\<lparr>or_conn := (or_conn s)\<lparr>recvQueue := q\<rparr>, or_arrived := or_arrived s @ [blk]\<rparr>)"
| timer_or_done: "relay_goroutine ch (or_pc s) (or_conn s) = Some (pc', c') \<Longrightarrow>
    ordered_step s (s\<lparr>or_pc := pc', or_conn := c'\<rparr>)"
| cancel: "ordered_step s (s\<lparr>or_conn := Stop (or_conn s)\<rparr>)"
| transmit: "ordered_step s (s\<lparr>or_conn := (or_conn s)\<lparr>processor := (processor (or_conn s))\<lparr>sendBlockID := n\<rparr>\<rparr>\<rparr>)"

inductive_cases relay_progressE: "relay_progress s s'"
inductive_cases ordered_stepE: "ordered_step s s'"

section \<open>The refinement\<close>

text \<open>
  What the goroutine still has to push before it is back at the \<^verbatim>\<open>select\<close>, and the processor it
  will have then.
\<close>

definition advance :: "blockProcessor \<Rightarrow> Block list \<times> blockProcessor" where
  "advance x = (let (out, c', r') = drain_cache (cache x) (recvBlockID x) in (out, x\<lparr>cache := c', recvBlockID := r'\<rparr>))"

fun settle :: "ordered_pc \<Rightarrow> blockProcessor \<Rightarrow> Block list \<times> blockProcessor" where
  "settle (AtSend blk) x =
     (let (out, x') = advance (x\<lparr>recvBlockID := recvBlockID x + 1\<rparr>) in (blk # out, x'))"
| "settle AtCache x = advance x"
| "settle (AtSendCached blk1) x = advance x"
| "settle _ x = ([], x)"

lemma advance_step:
  "advance x =
     (case cache x (recvBlockID x) of
        None \<Rightarrow> ([], x)
      | Some blk1 \<Rightarrow>
          let (out, x') = advance (x\<lparr>cache := (cache x)(recvBlockID x := None), recvBlockID := recvBlockID x + 1\<rparr>)
          in (blk1 # out, x'))"
proof (cases "cache x (recvBlockID x)")
  case None
  then show ?thesis
    by (simp add: advance_def drain_cache.simps [of "cache x"])
next
  case (Some b)
  then show ?thesis
    unfolding advance_def
    by (subst drain_cache.simps) (simp split: prod.split)
qed

text \<open>The send counter plays no part in receiving.\<close>

lemma relay_block_counter:
  "relay_block (x\<lparr>sendBlockID := n\<rparr>) blk = (let (out, x') = relay_block x blk in (out, x'\<lparr>sendBlockID := n\<rparr>))"
  by (auto simp: relay_block_def Let_def split: prod.split)

lemma settle_counter:
  "settle pc (x\<lparr>sendBlockID := n\<rparr>) = (let (out, x') = settle pc x in (out, x'\<lparr>sendBlockID := n\<rparr>))"
  by (cases pc) (auto simp: advance_def split: prod.split)

lemma settle_take_block: "(case take_block blk x of (pc, x1) \<Rightarrow> settle pc x1) = relay_block x blk"
  by (auto simp: take_block_def relay_block_def advance_def Let_def split: prod.split)

text \<open>
  At the send of a cached block that block is in the cache under the awaited number. With both
  channels open, the goroutine has not panicked.
\<close>

fun pc_ok :: "ordered_pc \<Rightarrow> blockProcessor \<Rightarrow> bool" where
  "pc_ok (AtSendCached blk1) x \<longleftrightarrow> cache x (recvBlockID x) = Some blk1"
| "pc_ok AtPanic x \<longleftrightarrow> False"
| "pc_ok _ x \<longleftrightarrow> True"

lemma pc_ok_counter [simp]: "pc_ok pc (x\<lparr>sendBlockID := n\<rparr>) = pc_ok pc x"
  by (cases pc) simp_all

text \<open>
  \<open>refines s pulled\<close>: the blocks \<open>pulled\<close> have been taken off the receive queue, and what has been
  consumed, what is in the ordered queue and what is still in the goroutine's hands is together
  what \<open>relay_blocks\<close> makes of them.
\<close>

definition refines :: "'a ordered_run \<Rightarrow> Block list \<Rightarrow> bool" where
  "refines s pulled \<longleftrightarrow>
     or_arrived s = pulled @ chan_buf (recvQueue (or_conn s)) \<and>
     relay_blocks newBlockProcessor pulled =
       (or_consumed s @ chan_buf (orderedRecvQueue (or_conn s)) @ fst (settle (or_pc s) (processor (or_conn s))),
        (snd (settle (or_pc s) (processor (or_conn s))))\<lparr>sendBlockID := 0\<rparr>) \<and>
     pc_ok (or_pc s) (processor (or_conn s)) \<and>
     \<not> chan_closed (recvQueue (or_conn s)) \<and> \<not> chan_closed (orderedRecvQueue (or_conn s))"

lemma refines_start: "fresh_conn c \<Longrightarrow> refines (ordered_start c) []"
  by (simp add: refines_def ordered_start_def fresh_conn_def)

text \<open>One step of the goroutine pulls a block, which \<open>relay_blocks\<close> then treats, or pulls none.\<close>

lemma settle_of_take:
  assumes "take_block blk x = (pc, x1)"
  shows "settle pc x1 = relay_block x blk" and "pc_ok pc x1"
  using settle_take_block [of blk x] assms
  by (auto simp: take_block_def Let_def split: if_splits)

lemma refines_select:
  assumes "refines s pulled" and "or_pc s = AtSelect" and "relay_select ch (or_conn s) = Some (pc', c')"
  shows "\<exists>new. refines (s\<lparr>or_pc := pc', or_conn := c'\<rparr>) (pulled @ new)"
proof (cases "\<exists>blk q. ch = CaseRecv \<and> chan_recv (recvQueue (or_conn s)) = Received blk q")
  case True
  then obtain blk q where ch: "ch = CaseRecv" and r: "chan_recv (recvQueue (or_conn s)) = Received blk q"
    by blast
  obtain pc x where t: "take_block blk (processor (or_conn s)) = (pc, x)"
    by (meson surj_pair)
  have "pc' = pc" "c' = (or_conn s)\<lparr>recvQueue := q, processor := x\<rparr>"
    using assms(3) ch r t by (simp_all add: relay_select_def)
  then have "refines (s\<lparr>or_pc := pc', or_conn := c'\<rparr>) (pulled @ [blk])"
    using assms(1,2) r settle_of_take [OF t]
    by (auto simp: refines_def relay_blocks_snoc relay_block_counter chan_simps split: prod.split)
  then show ?thesis
    by blast
next
  case False
  have "\<not> chan_closed (recvQueue (or_conn s))"
    using assms(1) by (simp add: refines_def)
  then have "refines (s\<lparr>or_pc := pc', or_conn := c'\<rparr>) pulled"
    using assms False
    by (auto simp: refines_def relay_select_def Stop_def chan_recv_def split: select_case.splits recv_result.splits if_splits list.splits)
  then show ?thesis
    by (metis append_Nil2)
qed

lemma refines_send:
  assumes "refines s pulled" and "or_pc s = AtSend blk" and "send_direct blk (or_conn s) = Some (pc', c')"
  shows "refines (s\<lparr>or_pc := pc', or_conn := c'\<rparr>) pulled"
  using assms
  by (auto simp: refines_def send_direct_def chan_send_def split: send_result.splits if_splits prod.splits)

lemma refines_cached:
  assumes "refines s pulled" and "or_pc s = AtSendCached blk" and "send_cached blk (or_conn s) = Some (pc', c')"
  shows "refines (s\<lparr>or_pc := pc', or_conn := c'\<rparr>) pulled"
proof -
  let ?x = "processor (or_conn s)"
  have "cache ?x (recvBlockID ?x) = Some blk"
    using assms(1,2) by (simp add: refines_def)
  then have "advance ?x = (let (out, x') = advance (?x\<lparr>cache := (cache ?x)(recvBlockID ?x := None),
      recvBlockID := recvBlockID ?x + 1\<rparr>) in (blk # out, x'))"
    by (simp add: advance_step [of ?x])
  then show ?thesis
    using assms
    by (auto simp: refines_def send_cached_def chan_send_def Let_def split: send_result.splits if_splits prod.splits)
qed

lemma refines_goroutine:
  assumes "refines s pulled" and "relay_goroutine ch (or_pc s) (or_conn s) = Some (pc', c')"
  shows "\<exists>new. refines (s\<lparr>or_pc := pc', or_conn := c'\<rparr>) (pulled @ new)"
proof (cases "or_pc s")
  case AtSelect
  then show ?thesis
    using refines_select [OF assms(1)] assms(2) by simp
next
  case (AtSend blk)
  then show ?thesis
    using refines_send [OF assms(1)] assms(2) by (intro exI [of _ "[]"]) simp
next
  case AtCache
  let ?x = "processor (or_conn s)"
  have "refines (s\<lparr>or_pc := pc', or_conn := c'\<rparr>) pulled"
    using assms AtCache advance_step [of ?x]
    by (auto simp: refines_def split: option.splits)
  then show ?thesis
    by (metis append_Nil2)
next
  case (AtSendCached blk)
  then show ?thesis
    using refines_cached [OF assms(1)] assms(2) by (intro exI [of _ "[]"]) simp
qed (use assms(2) in simp_all)

lemma refines_progress:
  assumes "refines s pulled" and "relay_progress s s'"
  shows "\<exists>new. refines s' (pulled @ new)"
  using assms(2)
proof (cases rule: relay_progress.cases)
  case (goroutine pc' c')
  then show ?thesis
    using refines_goroutine [OF assms(1)] by blast
next
  case (consume blk q)
  then have "refines s' pulled"
    using assms(1) by (auto simp: refines_def chan_simps)
  then show ?thesis
    by (metis append_Nil2)
qed

lemma refines_step:
  assumes "refines s pulled" and "ordered_step s s'"
  shows "\<exists>new. refines s' (pulled @ new)"
  using assms(2)
proof (cases rule: ordered_step.cases)
  case progress
  then show ?thesis
    using refines_progress [OF assms(1)] by blast
next
  case (arrive blk q)
  then have "refines s' pulled"
    using assms(1) by (auto simp: refines_def RecvBlock_def chan_simps)
  then show ?thesis
    by (metis append_Nil2)
next
  case (timer_or_done ch pc' c')
  then show ?thesis
    using refines_goroutine [OF assms(1)] by blast
next
  case cancel
  then have "refines s' pulled"
    using assms(1) by (simp add: refines_def Stop_def)
  then show ?thesis
    by (metis append_Nil2)
next
  case (transmit n)
  then have "refines s' pulled"
    using assms(1) by (auto simp: refines_def settle_counter split: prod.split)
  then show ?thesis
    by (metis append_Nil2)
qed

lemma refines_reachable:
  assumes "ordered_step\<^sup>*\<^sup>* (ordered_start c) s" and "fresh_conn c"
  shows "\<exists>pulled. refines s pulled"
  using assms(1)
proof (induction rule: rtranclp_induct)
  case base
  then show ?case
    using refines_start [OF assms(2)] by blast
next
  case (step y z)
  then show ?case
    using refines_step by blast
qed

section \<open>Progress\<close>

text \<open>
  A weight that every step of \<open>relay_progress\<close> lowers: a block costs more the further it is from
  the reader.
\<close>

fun pc_weight :: "ordered_pc \<Rightarrow> nat" where
  "pc_weight (AtSend _) = 3"
| "pc_weight AtCache = 1"
| "pc_weight _ = 0"

definition run_weight :: "'a ordered_run \<Rightarrow> nat" where
  "run_weight s =
     4 * length (chan_buf (recvQueue (or_conn s))) + 3 * card (dom (cache (processor (or_conn s)))) +
     length (chan_buf (orderedRecvQueue (or_conn s))) + pc_weight (or_pc s)"

lemma take_block_weight:
  assumes "take_block blk x = (pc, x')"
  shows "3 * card (dom (cache x')) + pc_weight pc \<le> 3 * card (dom (cache x)) + 3"
proof -
  have "card (insert (BlockID blk) (dom (cache x))) \<le> Suc (card (dom (cache x)))"
    by (rule card_insert_le_m1) simp_all
  then show ?thesis
    using assms by (auto simp: take_block_def Let_def split: if_splits)
qed

lemma run_weight_goroutine:
  assumes "refines s pulled" and "relay_goroutine CaseRecv (or_pc s) (or_conn s) = Some (pc', c')"
  shows "run_weight (s\<lparr>or_pc := pc', or_conn := c'\<rparr>) < run_weight s"
proof (cases "or_pc s")
  case AtSelect
  obtain blk q where r: "chan_recv (recvQueue (or_conn s)) = Received blk q"
    using assms AtSelect by (auto simp: refines_def relay_select_def chan_recv_def split: list.splits if_splits)
  obtain pc x where t: "take_block blk (processor (or_conn s)) = (pc, x)"
    by (meson surj_pair)
  show ?thesis
    using assms(2) AtSelect r t take_block_weight [OF t]
    by (auto simp: relay_select_def run_weight_def chan_simps)
next
  case (AtSendCached blk)
  let ?d = "dom (cache (processor (or_conn s)))" and ?r = "recvBlockID (processor (or_conn s))"
  have in_d: "?r \<in> ?d"
    using assms(1) AtSendCached by (auto simp: refines_def)
  then have "Suc (card (?d - {?r})) = card ?d"
    by (intro card_Suc_Diff1) simp_all
  then show ?thesis
    using assms AtSendCached
    by (auto simp: refines_def run_weight_def send_cached_def chan_send_def Let_def split: if_splits)
qed (use assms in \<open>auto simp: refines_def run_weight_def send_direct_def chan_send_def split: if_splits option.splits\<close>)

lemma run_weight_progress:
  assumes "refines s pulled" and "relay_progress s s'"
  shows "run_weight s' < run_weight s"
  using assms(2)
proof (cases rule: relay_progress.cases)
  case (goroutine pc' c')
  then show ?thesis
    using run_weight_goroutine [OF assms(1)] by simp
next
  case (consume blk q)
  then show ?thesis
    by (auto simp: run_weight_def chan_simps)
qed

text \<open>
  Nothing is left to do only when the goroutine is at the \<^verbatim>\<open>select\<close> and both queues are empty:
  the ordered queue being full is never a deadlock, because then the reader can move.
\<close>

lemma stuck_is_empty:
  assumes "refines s pulled" and "or_pc s \<noteq> AtReturn" and "0 < chan_cap (orderedRecvQueue (or_conn s))"
    and "\<not> (\<exists>s'. relay_progress s s')"
  shows "or_pc s = AtSelect \<and> chan_buf (recvQueue (or_conn s)) = [] \<and> chan_buf (orderedRecvQueue (or_conn s)) = []"
proof -
  let ?q = "orderedRecvQueue (or_conn s)"
  have stop: "relay_goroutine CaseRecv (or_pc s) (or_conn s) = None"
    using assms(4) relay_progress.goroutine by (metis not_None_eq surj_pair)
  have q: "chan_buf ?q = []"
  proof (rule ccontr)
    assume "chan_buf ?q \<noteq> []"
    then obtain b bs where "chan_recv ?q = Received b (?q\<lparr>chan_buf := bs\<rparr>)"
      by (cases "chan_buf ?q") (simp_all add: chan_recv_def)
    then show False
      using assms(4) relay_progress.consume by blast
  qed
  then have send: "chan_send ?q b = Sent (?q\<lparr>chan_buf := [b]\<rparr>)" for b
    using assms(1,3) by (simp add: refines_def chan_send_def)
  show ?thesis
    using assms(1,2) stop q send
    by (cases "or_pc s")
      (auto simp: refines_def send_direct_def send_cached_def relay_select_def chan_recv_def Let_def
        split: option.splits list.splits prod.splits)
qed

text \<open>Steps keep the size of the ordered queue, and progress keeps the goroutine from returning.\<close>

lemma relay_goroutine_cap:
  "relay_goroutine ch pc c = Some (pc', c') \<Longrightarrow> chan_cap (orderedRecvQueue c') = chan_cap (orderedRecvQueue c)"
  by (cases pc)
    (auto simp: relay_select_def send_direct_def send_cached_def chan_send_def Stop_def Let_def
      split: select_case.splits recv_result.splits prod.splits if_splits option.splits)

lemma progress_cap:
  assumes "relay_progress s s'"
  shows "chan_cap (orderedRecvQueue (or_conn s')) = chan_cap (orderedRecvQueue (or_conn s))"
  using assms by (cases rule: relay_progress.cases) (auto dest: relay_goroutine_cap simp: chan_simps)

lemma step_cap:
  assumes "ordered_step s s'"
  shows "chan_cap (orderedRecvQueue (or_conn s')) = chan_cap (orderedRecvQueue (or_conn s))"
  using assms by (cases rule: ordered_step.cases) (auto dest: relay_goroutine_cap progress_cap simp: Stop_def)

lemma reachable_cap:
  "ordered_step\<^sup>*\<^sup>* s s' \<Longrightarrow> chan_cap (orderedRecvQueue (or_conn s')) = chan_cap (orderedRecvQueue (or_conn s))"
  by (induction rule: rtranclp_induct) (auto dest: step_cap)

lemma relay_goroutine_stays:
  "relay_goroutine CaseRecv pc c = Some (pc', c') \<Longrightarrow> pc' \<noteq> AtReturn"
  by (cases pc)
    (auto simp: relay_select_def take_block_def send_direct_def send_cached_def Let_def
      split: send_result.splits recv_result.splits if_splits option.splits)

lemma progress_frame:
  assumes "relay_progress s s'"
  shows "or_arrived s' = or_arrived s \<and> (or_pc s \<noteq> AtReturn \<longrightarrow> or_pc s' \<noteq> AtReturn)"
  using assms by (cases rule: relay_progress.cases) (auto dest: relay_goroutine_stays)

lemma progress_reach_frame:
  assumes "relay_progress\<^sup>*\<^sup>* s s'"
  shows "ordered_step\<^sup>*\<^sup>* s s' \<and> or_arrived s' = or_arrived s \<and> (or_pc s \<noteq> AtReturn \<longrightarrow> or_pc s' \<noteq> AtReturn)"
  using assms
proof (induction rule: rtranclp_induct)
  case base
  then show ?case by simp
next
  case (step y z)
  then show ?case
    using progress_frame [OF step(2)] ordered_step.progress [OF step(2)] by (auto intro: rtranclp.rtrancl_into_rtrancl)
qed

lemma no_infinite_progress:
  assumes "refines s pulled"
  shows "\<not> (\<exists>f. f 0 = s \<and> (\<forall>n. relay_progress (f n) (f (Suc n))))"
proof
  assume "\<exists>f. f 0 = s \<and> (\<forall>n. relay_progress (f n) (f (Suc n)))"
  then obtain f where f: "f 0 = s" "\<And>n. relay_progress (f n) (f (Suc n))"
    by blast
  have ref: "\<exists>p. refines (f n) p" for n
    by (induction n) (use assms f refines_progress in \<open>blast+\<close>)
  have "run_weight (f n) + n \<le> run_weight s" for n
  proof (induction n)
    case (Suc n)
    then show ?case
      using run_weight_progress [OF _ f(2) [of n]] ref [of n] by fastforce
  qed (simp add: f)
  from this [of "Suc (run_weight s)"] show False
    by simp
qed

section \<open>Properties of the goroutine\<close>

text \<open>
  C9: the goroutine refines the block-at-a-time relay. After any interleaving of the relay with
  deliveries, the reader, timeouts and cancellations, what the reader has taken, followed by what
  waits in the ordered queue and by what the goroutine still has in hand, is the output of
  \<open>relay_blocks\<close> on the blocks pulled so far, in their order; the blocks delivered and not yet
  pulled are those in the receive queue; and the goroutine has not panicked.
\<close>

theorem ordered_relay_refines:
  assumes "fresh_conn c" and "ordered_step\<^sup>*\<^sup>* (ordered_start c) s"
  shows "\<exists>pulled. or_arrived s = pulled @ chan_buf (recvQueue (or_conn s)) \<and>
    fst (relay_blocks newBlockProcessor pulled) =
      or_consumed s @ chan_buf (orderedRecvQueue (or_conn s)) @ fst (settle (or_pc s) (processor (or_conn s))) \<and>
    snd (relay_blocks newBlockProcessor pulled) =
      (snd (settle (or_pc s) (processor (or_conn s))))\<lparr>sendBlockID := 0\<rparr> \<and>
    or_pc s \<noteq> AtPanic"
  using refines_reachable [OF assms(2,1)] by (auto simp: refines_def)

text \<open>A sample run: the second block of a history arrives before the first.\<close>

lemma sample_conn_fresh: "fresh_conn (sample_conn [])"
  by (simp add: fresh_conn_def sample_conn_def NewInboundConnection_def newBlockProcessor_def)

lemma sample_arrive:
  "\<not> chan_closed (recvQueue (or_conn s)) \<Longrightarrow> length (chan_buf (recvQueue (or_conn s))) < chan_cap (recvQueue (or_conn s)) \<Longrightarrow>
   ordered_step s (s\<lparr>or_conn := (or_conn s)\<lparr>recvQueue :=
     (recvQueue (or_conn s))\<lparr>chan_buf := chan_buf (recvQueue (or_conn s)) @ [b]\<rparr>\<rparr>, or_arrived := or_arrived s @ [b]\<rparr>)"
  by (rule ordered_step.arrive) (simp add: RecvBlock_def chan_send_def)

lemma sample_two_arrive:
  "\<exists>s. ordered_step\<^sup>*\<^sup>* (ordered_start (sample_conn [])) s \<and> or_pc s = AtSelect \<and> or_arrived s = [b1, b0] \<and>
     or_consumed s = [] \<and> chan_buf (orderedRecvQueue (or_conn s)) = []"
proof -
  let ?s0 = "ordered_start (sample_conn [])"
  let ?s1 = "?s0\<lparr>or_conn := (sample_conn [])\<lparr>recvQueue := (make_chan 4)\<lparr>chan_buf := [b1]\<rparr>\<rparr>, or_arrived := [b1]\<rparr>"
  let ?s2 = "?s1\<lparr>or_conn := (sample_conn [])\<lparr>recvQueue := (make_chan 4)\<lparr>chan_buf := [b1, b0]\<rparr>\<rparr>, or_arrived := [b1, b0]\<rparr>"
  have q: "recvQueue (sample_conn []) = make_chan 4"
    by (simp add: sample_conn_def NewInboundConnection_def)
  have "ordered_step ?s0 ?s1"
    using sample_arrive [of ?s0 b1] q by (simp add: ordered_start_def)
  moreover have "ordered_step ?s1 ?s2"
    using sample_arrive [of ?s1 b0] by (simp add: ordered_start_def)
  ultimately have "ordered_step\<^sup>*\<^sup>* ?s0 ?s2"
    by auto
  moreover have "or_pc ?s2 = AtSelect \<and> or_arrived ?s2 = [b1, b0] \<and> or_consumed ?s2 = [] \<and>
      chan_buf (orderedRecvQueue (or_conn ?s2)) = []"
    by (simp add: ordered_start_def sample_conn_def)
  ultimately show ?thesis
    by blast
qed

theorem ordered_relay_refines_witness:
  "\<exists>s pulled. ordered_step\<^sup>*\<^sup>* (ordered_start (sample_conn [])) s \<and> or_arrived s = [sample_hist 2 ! 1, sample_hist 2 ! 0] \<and>
     or_arrived s = pulled @ chan_buf (recvQueue (or_conn s)) \<and> fst (relay_blocks newBlockProcessor pulled) = []"
proof -
  obtain s where s: "ordered_step\<^sup>*\<^sup>* (ordered_start (sample_conn [])) s" "or_pc s = AtSelect"
      "or_arrived s = [sample_hist 2 ! 1, sample_hist 2 ! 0]" "or_consumed s = []"
      "chan_buf (orderedRecvQueue (or_conn s)) = []"
    using sample_two_arrive by blast
  show ?thesis
    using ordered_relay_refines [OF sample_conn_fresh s(1)] s by auto
qed

lemma list_as_indices: "set xs \<subseteq> set hist \<Longrightarrow> \<exists>is. xs = map ((!) hist) is \<and> set is \<subseteq> {..<length hist}"
proof (induction xs)
  case (Cons x xs)
  then obtain "is" i where "xs = map ((!) hist) is" "set is \<subseteq> {..<length hist}" "i < length hist" "x = hist ! i"
    by (auto simp: in_set_conv_nth)
  then show ?case
    by (intro exI [of _ "i # is"]) simp
qed simp

text \<open>
  The reader sees a prefix of what was sent. When only blocks of one numbered history arrive, in
  any order and any number of times, what the reader has taken is always a prefix of it.
\<close>

theorem ordered_relay_in_order:
  assumes "fresh_conn c" and "ordered_step\<^sup>*\<^sup>* (ordered_start c) s"
    and "numbered hist" and "set (or_arrived s) \<subseteq> set hist"
  shows "\<exists>k. or_consumed s = take k hist"
proof -
  obtain pulled where p: "or_arrived s = pulled @ chan_buf (recvQueue (or_conn s))"
      "fst (relay_blocks newBlockProcessor pulled) = or_consumed s @ chan_buf (orderedRecvQueue (or_conn s)) @
         fst (settle (or_pc s) (processor (or_conn s)))"
    using refines_reachable [OF assms(2,1)] by (auto simp: refines_def)
  obtain arr where arr: "pulled = map ((!) hist) arr" "set arr \<subseteq> {..<length hist}"
    using list_as_indices [of pulled hist] assms(4) p(1) by auto
  obtain out x where r: "relay_blocks newBlockProcessor pulled = (out, x)"
    by (meson surj_pair)
  obtain k where "out = take k hist"
    using relay_delivers_prefix [OF assms(3) arr(2)] r arr(1) by blast
  then have "or_consumed s = take (length (or_consumed s)) (take k hist)"
    using p(2) r by (metis append_eq_conv_conj fst_conv)
  then show ?thesis
    by (metis take_take)
qed

theorem ordered_relay_in_order_witness:
  "\<exists>s k. ordered_step\<^sup>*\<^sup>* (ordered_start (sample_conn [])) s \<and> or_arrived s = [sample_hist 2 ! 1, sample_hist 2 ! 0] \<and>
     or_consumed s = take k (sample_hist 2)"
proof -
  obtain s where s: "ordered_step\<^sup>*\<^sup>* (ordered_start (sample_conn [])) s"
      "or_arrived s = [sample_hist 2 ! 1, sample_hist 2 ! 0]"
    using sample_two_arrive by blast
  have "set (or_arrived s) \<subseteq> set (sample_hist 2)"
    using s(2) by (simp add: sample_hist_def upt_rec)
  then show ?thesis
    using ordered_relay_in_order [OF sample_conn_fresh s(1) numbered_sample_hist [of 2]] s by auto
qed

text \<open>
  C10: the relay finishes its work. From any reachable state in which every block of a numbered
  history has arrived and the goroutine has not returned, relay and reader together cannot go on
  for ever, and whenever neither of them can move any more, the reader has the whole history. In
  particular a full ordered queue never blocks the relay for good, whatever its size.
\<close>

theorem ordered_relay_finishes:
  assumes "fresh_conn c" and "0 < chan_cap (orderedRecvQueue c)" and "ordered_step\<^sup>*\<^sup>* (ordered_start c) s"
    and "or_pc s \<noteq> AtReturn" and "numbered hist" and "or_arrived s = map ((!) hist) arr" and "set arr = {..<length hist}"
  shows "\<not> (\<exists>f. f 0 = s \<and> (\<forall>n. relay_progress (f n) (f (Suc n)))) \<and>
    (\<forall>s'. relay_progress\<^sup>*\<^sup>* s s' \<and> \<not> (\<exists>s''. relay_progress s' s'') \<longrightarrow> or_consumed s' = hist)"
proof (intro conjI allI impI; (elim conjE)?)
  obtain p where "refines s p"
    using refines_reachable [OF assms(3,1)] by blast
  then show "\<not> (\<exists>f. f 0 = s \<and> (\<forall>n. relay_progress (f n) (f (Suc n))))"
    by (rule no_infinite_progress)
next
  fix s'
  assume s': "relay_progress\<^sup>*\<^sup>* s s'" and stuck: "\<not> (\<exists>s''. relay_progress s' s'')"
  note fr = progress_reach_frame [OF s']
  then have reach: "ordered_step\<^sup>*\<^sup>* (ordered_start c) s'"
    using assms(3) by (metis rtranclp_trans)
  obtain p where p: "refines s' p"
    using refines_reachable [OF reach assms(1)] by blast
  have "0 < chan_cap (orderedRecvQueue (or_conn s'))"
    using reachable_cap [OF reach] assms(2) by (simp add: ordered_start_def)
  from stuck_is_empty [OF p _ this stuck]
  have e: "or_pc s' = AtSelect" "chan_buf (recvQueue (or_conn s')) = []" "chan_buf (orderedRecvQueue (or_conn s')) = []"
    using fr assms(4) by auto
  then have "p = map ((!) hist) arr" "or_consumed s' = fst (relay_blocks newBlockProcessor p)"
    using p fr assms(6) by (auto simp: refines_def)
  then show "or_consumed s' = hist"
    using proc.run_complete [OF assms(5,7) surjective_pairing] by (simp add: relay_blocks_run)
qed

theorem ordered_relay_finishes_witness:
  "\<exists>s. ordered_step\<^sup>*\<^sup>* (ordered_start (sample_conn [])) s \<and> or_arrived s = [sample_hist 2 ! 1, sample_hist 2 ! 0] \<and>
     (\<forall>s'. relay_progress\<^sup>*\<^sup>* s s' \<and> \<not> (\<exists>s''. relay_progress s' s'') \<longrightarrow> or_consumed s' = sample_hist 2)"
proof -
  obtain s where s: "ordered_step\<^sup>*\<^sup>* (ordered_start (sample_conn [])) s" "or_pc s = AtSelect"
      "or_arrived s = [sample_hist 2 ! 1, sample_hist 2 ! 0]"
    using sample_two_arrive by blast
  have cap: "0 < chan_cap (orderedRecvQueue (sample_conn []))"
    by (simp add: sample_conn_def)
  have arr: "or_arrived s = map ((!) (sample_hist 2)) [1, 0]" "set [1, 0] = {..<length (sample_hist 2)}"
    using s(3) by (auto simp: sample_hist_def)
  have pc: "or_pc s \<noteq> AtReturn"
    using s(2) by simp
  show ?thesis
    using ordered_relay_finishes [OF sample_conn_fresh cap s(1) pc numbered_sample_hist [of 2] arr] s by auto
qed

text \<open>
  C36: closing the channels under a running relay panics. \<open>Close\<close> of an inbound connection closes the
  ordered queue. A relay that is at a send at that moment, for instance because the queue is full,
  panics for certain; a relay that waits at the \<^verbatim>\<open>select\<close> with nothing received yet may take the zero
  block of the closed receive queue for the awaited block number 0 and panics as well. The panic
  ends the whole program.
\<close>

theorem close_panics_relay:
  fixes c :: InboundConnection
  assumes "fresh_conn c" and "ordered_step\<^sup>*\<^sup>* (ordered_start c) s" and "\<not> closed (or_conn s)"
  shows "\<exists>blks c'. Close now (or_conn s) = Some (blks, c') \<and>
    (case or_pc s of
       AtSend blk \<Rightarrow> (\<forall>ch. relay_goroutine ch (or_pc s) c' = Some (AtPanic, c'))
     | AtSendCached blk \<Rightarrow> (\<forall>ch. relay_goroutine ch (or_pc s) c' = Some (AtPanic, c'))
     | AtSelect \<Rightarrow> or_arrived s = [] \<longrightarrow>
         (\<exists>c''. relay_goroutine CaseRecv AtSelect c' = Some (AtSend zero_block, c'') \<and>
            (\<forall>ch. relay_goroutine ch (AtSend zero_block) c'' = Some (AtPanic, c'')))
     | _ \<Rightarrow> True)"
proof -
  obtain p where p: "refines s p"
    using refines_reachable [OF assms(2,1)] by blast
  then have open_chans: "\<not> chan_closed (recvQueue (or_conn s))" "\<not> chan_closed (orderedRecvQueue (or_conn s))"
    by (simp_all add: refines_def)
  obtain blks c' where c': "Close now (or_conn s) = Some (blks, c')" "chan_closed (orderedRecvQueue c')"
      "recvQueue c' = (recvQueue (or_conn s))\<lparr>chan_closed := True\<rparr>"
      "recvBlockID (processor c') = recvBlockID (processor (or_conn s))"
    using assms(3) open_chans
    by (simp add: Close_def SendDisconnect_def packDisconnect_def Stop_def chan_close_def Let_def)
  have panic: "chan_send (orderedRecvQueue d) b = SendPanics" if "orderedRecvQueue d = orderedRecvQueue c'"
    for b and d :: InboundConnection
    using c'(2) that by (simp add: chan_send_def)
  have "recvBlockID (processor c') = 0 \<and> chan_recv (recvQueue c') = ZeroValue" if "or_arrived s = []" "or_pc s = AtSelect"
  proof -
    have x: "(processor (or_conn s))\<lparr>sendBlockID := 0\<rparr> = newBlockProcessor" and e: "chan_buf (recvQueue (or_conn s)) = []"
      using p that by (auto simp: refines_def)
    have "recvBlockID (processor (or_conn s)) = 0"
      using arg_cong [OF x, of recvBlockID] by (simp add: newBlockProcessor_def)
    then show ?thesis
      using c' e by (simp add: chan_recv_def)
  qed
  then show ?thesis
    using c'(1) panic
    by (cases "or_pc s")
      (auto simp: send_direct_def send_cached_def relay_select_def take_block_def zero_block_def Let_def)
qed

theorem close_panics_relay_witness:
  "\<exists>blks c' c''. Close 5 (sample_conn []) = Some (blks, c') \<and>
     relay_goroutine CaseRecv AtSelect c' = Some (AtSend zero_block, c'') \<and>
     relay_goroutine CaseRecv (AtSend zero_block) c'' = Some (AtPanic, c'')"
proof -
  have "\<not> closed (or_conn (ordered_start (sample_conn [])))"
    by (simp add: ordered_start_def sample_conn_def NewInboundConnection_def)
  from close_panics_relay [OF sample_conn_fresh rtranclp.rtrancl_refl this, of 5]
  show ?thesis
    by (auto simp: ordered_start_def)
qed

end
