(* ===== verification/Transport_Spec.thy ===== *)
theory Transport_Spec
  imports Transport "HOL-Library.Sublist"
begin

text \<open>
  The contract of the whole transport, as a system of its own: for every connection a queue that
  accepts blocks at one end and hands them out at the other, in order. The tunnels, their failures,
  the retries and the reordering of \<open>Transport\<close> implement it.
\<close>

section \<open>The specification\<close>

text \<open>\<open>accepted\<close> is what the senders have put in, \<open>handed\<close> what the receivers have got, by connection number.\<close>

record 'b fifo =
  accepted :: "u32 \<Rightarrow> 'b list"
  handed :: "u32 \<Rightarrow> 'b list"

definition fifo_init :: "'b fifo" where
  "fifo_init = \<lparr>accepted = (\<lambda>_. []), handed = (\<lambda>_. [])\<rparr>"

inductive fifo_step :: "'b fifo \<Rightarrow> 'b fifo \<Rightarrow> bool" where
  accept: "fifo_step q (q\<lparr>accepted := (accepted q)(i := accepted q i @ bs)\<rparr>)"
| hand: "length (handed q i) < length (accepted q i) \<Longrightarrow>
    fifo_step q (q\<lparr>handed := (handed q)(i := handed q i @ [accepted q i ! length (handed q i)])\<rparr>)"

lemma fifo_step_prefix:
  assumes "fifo_step q q'" and "\<And>i. prefix (handed q i) (accepted q i)"
  shows "prefix (handed q' i) (accepted q' i)"
  using assms(1)
proof (cases rule: fifo_step.cases)
  case (accept j bs)
  then show ?thesis
    using assms(2) by (simp add: prefix_prefix)
next
  case (hand j)
  then show ?thesis
    using assms(2) append_one_prefix [of "handed q j" "accepted q j"] by simp
qed

lemma fifo_prefix:
  assumes "fifo_step\<^sup>*\<^sup>* fifo_init q"
  shows "prefix (handed q i) (accepted q i)"
  using assms
proof (induction arbitrary: i rule: rtranclp_induct)
  case base
  then show ?case by (simp add: fifo_init_def)
next
  case (step y z)
  then show ?case
    using fifo_step_prefix by blast
qed

text \<open>Handing out several blocks of one connection.\<close>

lemma fifo_hand_many:
  assumes "prefix (handed q i @ bs) (accepted q i)"
  shows "fifo_step\<^sup>*\<^sup>* q (q\<lparr>handed := (handed q)(i := handed q i @ bs)\<rparr>)"
  using assms
proof (induction bs arbitrary: q)
  case Nil
  then show ?case by simp
next
  case (Cons b bs)
  let ?q = "q\<lparr>handed := (handed q)(i := handed q i @ [b])\<rparr>"
  have "length (handed q i) < length (accepted q i)" "accepted q i ! length (handed q i) = b"
    using Cons.prems by (auto simp: prefix_def nth_append)
  then have "fifo_step q ?q"
    using fifo_step.hand [of q i] by simp
  moreover have "fifo_step\<^sup>*\<^sup>* ?q (q\<lparr>handed := (handed q)(i := handed q i @ b # bs)\<rparr>)"
    using Cons.IH [of ?q] Cons.prems by (simp add: fun_upd_def cong: if_cong)
  ultimately show ?case
    by (rule converse_rtranclp_into_rtranclp)
qed

section \<open>Implementations\<close>

text \<open>
  A system implements the queue when each of its steps is, through \<open>abs\<close>, a sequence of steps of the
  queue. \<open>bounded\<close> is the condition under which it promises that (here: the block numbers have not
  wrapped); it may only be lost.
\<close>

locale fifo_implementation =
  fixes initial :: "'s \<Rightarrow> bool"
    and step :: "'s \<Rightarrow> 's \<Rightarrow> bool"
    and abs :: "'s \<Rightarrow> 'b fifo"
    and invar :: "'s \<Rightarrow> bool"
    and bounded :: "'s \<Rightarrow> bool"
  assumes initial_abs: "initial s \<Longrightarrow> invar s \<and> abs s = fifo_init"
    and step_invar: "invar s \<Longrightarrow> step s s' \<Longrightarrow> invar s'"
    and step_bounded: "step s s' \<Longrightarrow> bounded s' \<Longrightarrow> bounded s"
    and step_sim: "invar s \<Longrightarrow> step s s' \<Longrightarrow> bounded s' \<Longrightarrow> fifo_step\<^sup>*\<^sup>* (abs s) (abs s')"
begin

lemma run_sim:
  assumes "step\<^sup>*\<^sup>* s0 s" and "initial s0"
  shows "invar s \<and> (bounded s \<longrightarrow> fifo_step\<^sup>*\<^sup>* fifo_init (abs s))"
  using assms(1)
proof (induction rule: rtranclp_induct)
  case base
  then show ?case
    using initial_abs [OF assms(2)] by simp
next
  case (step y z)
  then show ?case
    using step_invar step_bounded step_sim by (meson rtranclp_trans)
qed

lemma handed_prefix:
  assumes "step\<^sup>*\<^sup>* s0 s" and "initial s0" and "bounded s"
  shows "prefix (handed (abs s) i) (accepted (abs s) i)"
  using run_sim [OF assms(1,2)] assms(3) fifo_prefix by blast

end

section \<open>The transport implements the queue\<close>

definition transport_initial :: "transport \<Rightarrow> bool" where
  "transport_initial s \<longleftrightarrow> (\<exists>n. s = transport_init n)"

definition transport_next :: "transport \<Rightarrow> transport \<Rightarrow> bool" where
  "transport_next s s' \<longleftrightarrow> (\<exists>ev. transport_step s ev = Some s')"

text \<open>A receiver gets the blocks as they are parsed from their bytes, hence \<open>canon\<close>.\<close>

definition transport_abs :: "transport \<Rightarrow> Block fifo" where
  "transport_abs s = \<lparr>accepted = (\<lambda>i. map canon (sent s i)), handed = delivered s\<rparr>"

definition unwrapped :: "transport \<Rightarrow> bool" where
  "unwrapped s \<longleftrightarrow> (\<forall>i. length (sent s i) < 2 ^ 32)"

lemma transport_step_ends:
  assumes "transport_step s ev = Some s'"
  shows "(\<exists>i bs. sent s' = (sent s)(i := sent s i @ bs) \<and> delivered s' = delivered s) \<or>
    (\<exists>i out. sent s' = sent s \<and> delivered s' = (delivered s)(i := delivered s i @ out))"
proof -
  consider (send) i now op where "ev = ESend i now op" | (deliver) "ev = EDeliver"
    | (other) "sent s' = sent s" "delivered s' = delivered s"
    using assms
    by (cases ev) (auto simp: transport_step_def link_out_def link_in_def link_net_def link_control_def link_reset_def
        Let_def split: if_splits prod.splits option.splits send_result.splits)
  then show ?thesis
  proof cases
    case send
    then have "\<exists>bs. sent s' = (sent s)(i := sent s i @ bs) \<and> delivered s' = delivered s"
      using assms by (auto simp: transport_step_def split: if_splits prod.splits)
    then show ?thesis
      by blast
  next
    case deliver
    then have "\<exists>i out. sent s' = sent s \<and> delivered s' = (delivered s)(i := delivered s i @ out)"
      using assms
      by (auto simp: transport_step_def deliver_block_def Let_def simp del: fun_upd_apply split: list.splits prod.splits
          intro!: exI)
    then show ?thesis
      by blast
  next
    case other
    then show ?thesis
      by (intro disjI1 exI [of _ 0] exI [of _ "[]"]) simp
  qed
qed

lemma transport_step_sim:
  assumes "transport_reachable s" and "transport_next s s'" and "unwrapped s'"
  shows "fifo_step\<^sup>*\<^sup>* (transport_abs s) (transport_abs s')"
proof -
  obtain ev where ev: "transport_step s ev = Some s'"
    using assms(2) by (auto simp: transport_next_def)
  consider (send) i bs where "sent s' = (sent s)(i := sent s i @ bs)" "delivered s' = delivered s"
    | (deliver) i out where "sent s' = sent s" "delivered s' = (delivered s)(i := delivered s i @ out)"
    using transport_step_ends [OF ev] by blast
  then show ?thesis
  proof cases
    case send
    let ?q = "transport_abs s"
    have "transport_abs s' = ?q\<lparr>accepted := (accepted ?q)(i := accepted ?q i @ map canon bs)\<rparr>"
      using send by (auto simp: transport_abs_def)
    then show ?thesis
      using fifo_step.accept [of ?q i "map canon bs"] by (metis r_into_rtranclp)
  next
    case deliver
    let ?q = "transport_abs s"
    have "prefix (delivered s' i) (map canon (sent s' i))"
      using delivered_prefix [OF transport_reachable.step [OF assms(1) ev], of i] assms(3)
      by (auto simp: unwrapped_def take_is_prefix simp flip: take_map)
    then have "prefix (handed ?q i @ out) (accepted ?q i)"
      using deliver by (simp add: transport_abs_def)
    moreover have "transport_abs s' = ?q\<lparr>handed := (handed ?q)(i := handed ?q i @ out)\<rparr>"
      using deliver by (simp add: transport_abs_def)
    ultimately show ?thesis
      using fifo_hand_many by metis
  qed
qed

lemma unwrapped_back:
  assumes "transport_next s s'" and "unwrapped s'"
  shows "unwrapped s"
proof -
  obtain ev where ev: "transport_step s ev = Some s'"
    using assms(1) by (auto simp: transport_next_def)
  have "length (sent s i) \<le> length (sent s' i)" for i
    using transport_step_ends [OF ev] by auto
  then show ?thesis
    using assms(2) by (metis order_le_less_trans unwrapped_def)
qed

interpretation tfifo: fifo_implementation transport_initial transport_next transport_abs transport_reachable unwrapped
proof unfold_locales
  show "transport_reachable s \<and> transport_abs s = fifo_init" if "transport_initial s" for s
    using that by (auto simp: transport_initial_def transport_abs_def fifo_init_def transport_init_def
        intro: transport_reachable.start [unfolded transport_init_def])
  show "transport_reachable s'" if "transport_reachable s" "transport_next s s'" for s s'
    using that by (auto simp: transport_next_def intro: transport_reachable.step)
qed (use unwrapped_back transport_step_sim in blast)+

lemma run_next: "transport_run s evs = Some s' \<Longrightarrow> transport_next\<^sup>*\<^sup>* s s'"
proof (induction evs arbitrary: s)
  case (Cons ev evs)
  then obtain s1 where "transport_step s ev = Some s1" "transport_run s1 evs = Some s'"
    by (auto split: option.splits)
  then show ?case
    using Cons.IH converse_rtranclp_into_rtranclp [of transport_next s s1 s'] transport_next_def [of s s1] by blast
qed simp

section \<open>Properties of the transport\<close>



text \<open>
  C19: every block in the system is well formed. In every reachable state, each block that waits, is being
  retried, is carried by a tunnel, has been received or is cached or handed out on the other side
  has a length field equal to the length of its data, and if it holds its encoded bytes, these are its
  header followed by its data. In particular the bytes a tunnel writes for it are never those of
  another block.
\<close>

theorem transport_blocks_wf:
  assumes "transport_reachable s"
    and "b \<in> set (waiting s) \<union> carry_of (links s) \<union> set (inq s) \<union> set (delivered s i) \<union> ran (cache (rx_proc s i))"
  shows "block_wf b"
proof -
  have inv: "t_inv s"
    using reachable_inv [OF assms(1)] by simp
  have rec: "block_wf d" if r: "received s d" for d
  proof -
    obtain a where "a \<in> set (sent s (ConnectionID d))" "d = canon a"
      using r unfolding received_def by blast
    moreover from this have "block_wf a"
      using inv by (auto simp: t_inv_def tx_ok_def)
    ultimately show ?thesis
      by (simp add: canon_def Pack_wf block_wf_uncached)
  qed
  have "relay_blocks newBlockProcessor (arrived s i) = (delivered s i, rx_proc s i)"
    using inv by (simp add: t_inv_def rx_ok_def)
  from relay_blocks_from [OF this]
  have "set (delivered s i) \<union> ran (cache (rx_proc s i)) \<subseteq> set (arrived s i)"
    by (simp add: newBlockProcessor_def)
  then consider "known s b" | "carried s b" | "received s b"
    using assms(2) inv unfolding t_inv_def rx_ok_def carry_of_def link_ok_def by blast
  then show ?thesis
    using rec carried_wf by cases (auto simp: known_def)
qed

theorem transport_blocks_wf_witness:
  "\<exists>s. transport_run (transport_init 64) sample_run = Some s \<and> canon sample_blk \<in> set (delivered s 5) \<and> block_wf (canon sample_blk)"
proof -
  obtain s where s: "transport_run (transport_init 64) sample_run = Some s" "quiet s" "sent s = (\<lambda>_. [])(5 := [sample_blk])"
    using sample_run_result by blast
  have r: "transport_reachable s"
    using run_reachable [OF transport_reachable.start s(1)] .
  have "delivered s 5 = [canon sample_blk]"
    using delivered_complete [OF r, of 5] s(2,3) by simp
  then show ?thesis
    using transport_blocks_wf [OF r, of "canon sample_blk" 5] s(1) by auto
qed

end
