(* ===== verification/Byte_Reader.thy ===== *)
theory Byte_Reader
  imports Rabbit_Prelude
begin

text \<open>
  The \<^verbatim>\<open>io.Reader\<close> interface and \<^verbatim>\<open>io.ReadFull\<close> over it, and the WebSocket adapter of
  \<^verbatim>\<open>tunnel/tunnel.go\<close> as a reader. The locale \<open>byte_reader\<close> states what makes a reader a
  plain byte stream; in it, the loop of \<^verbatim>\<open>io.ReadFull\<close> is shown to return what
  \<open>ReadFull\<close> returns on the abstract source.
\<close>

type_synonym 's reader_op = "'s \<Rightarrow> nat \<Rightarrow> byte list \<times> io_error option \<times> 's"

text \<open>
  The loop of \<^verbatim>\<open>io.ReadAtLeast\<close>: read until \<open>need\<close> bytes are there or an error comes.
  \<open>fuel\<close> bounds the rounds; \<open>None\<close> means it was not enough.
\<close>

fun read_at_least ::
    "nat \<Rightarrow> 's reader_op \<Rightarrow> 's \<Rightarrow> nat \<Rightarrow> byte list \<Rightarrow> ((io_error + byte list) \<times> 's) option" where
  "read_at_least fuel rd s need acc =
     (if need = 0 then Some (Inr acc, s)
      else (case fuel of
          0 \<Rightarrow> None
        | Suc f \<Rightarrow>
            (case rd s need of
               (xs, None, s') \<Rightarrow> read_at_least f rd s' (need - length xs) (acc @ xs)
             | (xs, Some e, s') \<Rightarrow>
                 if length xs \<ge> need then Some (Inr (acc @ xs), s')
                 else Some (Inl (if acc @ xs \<noteq> [] \<and> e = EOF then ErrUnexpectedEOF else e), s'))))"

declare read_at_least.simps [simp del]

lemma read_at_least_0 [simp]: "read_at_least fuel rd s 0 acc = Some (Inr acc, s)"
  by (simp add: read_at_least.simps)

text \<open>
  \<^verbatim>\<open>io.ReadFull\<close> over a reader, with the rank of the reader's state as the bound of its loop.
  For the readers of the locale \<open>byte_reader\<close> the bound is never reached.
\<close>

definition full_of :: "('s \<Rightarrow> nat) \<Rightarrow> 's reader_op \<Rightarrow> 's full_read" where
  "full_of rank rd n s =
     (case read_at_least (Suc (rank s)) rd s n [] of Some x \<Rightarrow> x | None \<Rightarrow> (Inl EOF, s))"

text \<open>
  What the code that parses records and blocks needs of \<^verbatim>\<open>io.ReadFull\<close>: it gives the result a
  plain source gives, and after a success the source behind the new state is the rest.
\<close>

locale full_reader =
  fixes rf :: "'s full_read"
    and source_of :: "'s \<Rightarrow> source"
    and valid :: "'s \<Rightarrow> bool"
  assumes full_sim: "valid s \<Longrightarrow> rf n s = (r, s') \<Longrightarrow>
      \<exists>t. ReadFull n (source_of s) = (r, t) \<and> (\<forall>xs. r = Inr xs \<longrightarrow> valid s' \<and> source_of s' = t)"
begin

lemma full_Inr:
  "valid s \<Longrightarrow> rf n s = (Inr xs, s') \<Longrightarrow>
     valid s' \<and> ReadFull n (source_of s) = (Inr xs, source_of s')"
  using full_sim by fastforce

lemma full_Inl:
  "valid s \<Longrightarrow> rf n s = (Inl e, s') \<Longrightarrow> \<exists>t. ReadFull n (source_of s) = (Inl e, t)"
  using full_sim by fastforce

end

locale byte_reader =
  fixes rd :: "'s reader_op"
    and bytes :: "'s \<Rightarrow> byte list"
    and fin :: "'s \<Rightarrow> io_error"
    and invar :: "'s \<Rightarrow> bool"
    and rank :: "'s \<Rightarrow> nat"
  assumes rd_ok: "invar s \<Longrightarrow> 0 < m \<Longrightarrow> rd s m = (xs, None, s') \<Longrightarrow>
      invar s' \<and> bytes s = xs @ bytes s' \<and> length xs \<le> m \<and> fin s' = fin s \<and> rank s' < rank s"
    and rd_err: "invar s \<Longrightarrow> 0 < m \<Longrightarrow> rd s m = (xs, Some e, s') \<Longrightarrow>
      xs = [] \<and> bytes s = [] \<and> e = fin s"
begin

definition src :: "'s \<Rightarrow> source" where
  "src s = \<lparr>avail = bytes s, final = fin s\<rparr>"

lemma read_at_least_spec:
  "invar s \<Longrightarrow> rank s < fuel \<Longrightarrow>
    \<exists>r s'. read_at_least fuel rd s need acc = Some (r, s') \<and>
      (if need \<le> length (bytes s)
       then r = Inr (acc @ take need (bytes s)) \<and> invar s' \<and> fin s' = fin s \<and>
            bytes s' = drop need (bytes s)
       else r = Inl (if acc @ bytes s \<noteq> [] \<and> fin s = EOF then ErrUnexpectedEOF else fin s))"
proof (induction fuel arbitrary: s need acc)
  case 0
  then show ?case by simp
next
  case (Suc f)
  show ?case
  proof (cases "need = 0")
    case True
    then show ?thesis using Suc.prems by simp
  next
    case False
    obtain xs er s1 where rd1: "rd s need = (xs, er, s1)"
      by (cases "rd s need") auto
    show ?thesis
    proof (cases er)
      case None
      note ok = rd_ok [OF Suc.prems(1) _ rd1 [unfolded None]]
      have "invar s1" and "rank s1 < f"
        using ok False Suc.prems(2) by auto
      then obtain r s2 where r: "read_at_least f rd s1 (need - length xs) (acc @ xs) = Some (r, s2)"
        and post: "if need - length xs \<le> length (bytes s1)
           then r = Inr ((acc @ xs) @ take (need - length xs) (bytes s1)) \<and> invar s2 \<and>
                fin s2 = fin s1 \<and> bytes s2 = drop (need - length xs) (bytes s1)
           else r = Inl (if (acc @ xs) @ bytes s1 \<noteq> [] \<and> fin s1 = EOF then ErrUnexpectedEOF
                         else fin s1)"
        using Suc.IH [of s1 "need - length xs" "acc @ xs"] by blast
      have step: "read_at_least (Suc f) rd s need acc = Some (r, s2)"
        using False rd1 None r by (simp add: read_at_least.simps [of "Suc f"])
      show ?thesis
        using step post ok False
        by (intro exI [of _ r] exI [of _ s2]) (auto split: if_splits)
    next
      case (Some e)
      note er = rd_err [OF Suc.prems(1) _ rd1 [unfolded Some]]
      then show ?thesis
        using False rd1 Some by (auto simp: read_at_least.simps [of "Suc f"])
    qed
  qed
qed

text \<open>With more fuel than the rank, the loop returns, and returns what the source gives.\<close>

lemma read_full_refines:
  assumes "invar s" and "rank s < fuel"
  shows "\<exists>r s'. read_at_least fuel rd s n [] = Some (r, s') \<and> fst (ReadFull n (src s)) = r \<and>
           (\<forall>xs. r = Inr xs \<longrightarrow> invar s' \<and> snd (ReadFull n (src s)) = src s')"
proof -
  obtain r s' where *: "read_at_least fuel rd s n [] = Some (r, s')"
    "if n \<le> length (bytes s)
     then r = Inr ([] @ take n (bytes s)) \<and> invar s' \<and> fin s' = fin s \<and> bytes s' = drop n (bytes s)
     else r = Inl (if [] @ bytes s \<noteq> [] \<and> fin s = EOF then ErrUnexpectedEOF else fin s)"
    using read_at_least_spec [OF assms] by blast
  then show ?thesis
    by (intro exI [of _ r] exI [of _ s']) (auto simp: ReadFull_def src_def split: if_splits)
qed

end

sublocale byte_reader \<subseteq> full: full_reader "full_of rank rd" src invar
proof
  fix s n r s'
  assume s: "invar s" "full_of rank rd n s = (r, s')"
  obtain r1 s1 where *: "read_at_least (Suc (rank s)) rd s n [] = Some (r1, s1)"
      "fst (ReadFull n (src s)) = r1"
      "\<forall>xs. r1 = Inr xs \<longrightarrow> invar s1 \<and> snd (ReadFull n (src s)) = src s1"
    using read_full_refines [OF s(1), of "Suc (rank s)" n] by auto
  then have "r1 = r" "s1 = s'"
    using s(2) by (simp_all add: full_of_def)
  then show "\<exists>t. ReadFull n (src s) = (r, t) \<and> (\<forall>xs. r = Inr xs \<longrightarrow> invar s' \<and> src s' = t)"
    using * by (intro exI [of _ "snd (ReadFull n (src s))"]) (auto simp: prod_eq_iff)
qed

section \<open>The WebSocket adapter\<close>

text \<open>
  The incoming side of the connection: the messages still to come, the rest of the message
  being read (\<^verbatim>\<open>c.reader\<close>), and the error of \<^verbatim>\<open>NextReader\<close> once no message is left. The
  message reader of the WebSocket library delivers the bytes of its message and then
  \<^verbatim>\<open>io.EOF\<close>.
\<close>

record ws_conn =
  ws_messages :: "byte list list"
  ws_reader :: "byte list option"
  ws_error :: io_error

definition ws_Read :: "ws_conn reader_op" where
  "ws_Read c m =
     (let next = (case ws_reader c of
                    Some r \<Rightarrow> Inr (r, c)
                  | None \<Rightarrow>
                      (case ws_messages c of
                         [] \<Rightarrow> Inl (ws_error c)
                       | msg # rest \<Rightarrow> Inr (msg, c\<lparr>ws_messages := rest, ws_reader := Some msg\<rparr>)))
      in case next of
           Inl e \<Rightarrow> ([], Some e, c)
         | Inr (r, c1) \<Rightarrow>
             if r = [] then ([], None, c1\<lparr>ws_reader := None\<rparr>)
             else (take m r, None, c1\<lparr>ws_reader := Some (drop m r)\<rparr>))"

definition ws_bytes :: "ws_conn \<Rightarrow> byte list" where
  "ws_bytes c = (case ws_reader c of None \<Rightarrow> [] | Some r \<Rightarrow> r) @ concat (ws_messages c)"

definition ws_rank :: "ws_conn \<Rightarrow> nat" where
  "ws_rank c = length (ws_bytes c) + 2 * length (ws_messages c) +
     (case ws_reader c of None \<Rightarrow> 0 | Some _ \<Rightarrow> 1)"

text \<open>\<^verbatim>\<open>Write\<close>: one binary message per call, or an error and nothing written.\<close>

record sink =
  sent :: "byte list list"
  write_fails :: "nat option"  \<comment> \<open>how many further writes succeed; \<open>None\<close>: all\<close>

definition ws_Write :: "sink \<Rightarrow> byte list \<Rightarrow> nat \<times> io_error option \<times> sink" where
  "ws_Write s b =
     (case write_fails s of
        Some 0 \<Rightarrow> (0, Some NetErr, s)
      | Some (Suc k) \<Rightarrow> (length b, None, s\<lparr>sent := sent s @ [b], write_fails := Some k\<rparr>)
      | None \<Rightarrow> (length b, None, s\<lparr>sent := sent s @ [b]\<rparr>))"

lemma ws_Write_sent:
  "ws_Write s b = (n, None, s') \<Longrightarrow> sent s' = sent s @ [b] \<and> n = length b"
  by (auto simp: ws_Write_def split: option.splits nat.splits)

lemma ws_Write_err: "ws_Write s b = (n, Some e, s') \<Longrightarrow> s' = s \<and> n = 0"
  by (auto simp: ws_Write_def split: option.splits nat.splits)

interpretation ws: byte_reader ws_Read ws_bytes ws_error "\<lambda>_. True" ws_rank
  by unfold_locales
    (auto simp: ws_Read_def ws_bytes_def ws_rank_def Let_def
      split: option.splits list.splits if_splits)

text \<open>\<^verbatim>\<open>io.ReadFull\<close> over the adapter, and the byte source behind it.\<close>

definition ws_ReadFull :: "ws_conn full_read" where
  "ws_ReadFull = full_of ws_rank ws_Read"

definition ws_source :: "ws_conn \<Rightarrow> source" where
  "ws_source c = \<lparr>avail = ws_bytes c, final = ws_error c\<rparr>"

interpretation ws_full: full_reader ws_ReadFull ws_source "\<lambda>_. True"
proof -
  have "ws.src = ws_source"
    by (simp add: fun_eq_iff ws.src_def ws_source_def)
  then show "full_reader ws_ReadFull ws_source (\<lambda>_. True)"
    using ws.full.full_reader_axioms by (simp add: ws_ReadFull_def)
qed

section \<open>Properties of the adapter\<close>

text \<open>
  Message boundaries do not matter. Over the adapter, the loop of \<^verbatim>\<open>io.ReadFull\<close> returns
  (more rounds than \<open>ws_rank\<close> are never needed), and its result is the one the concatenation
  of all message payloads gives: the next \<open>n\<close> bytes, whatever messages, empty ones included,
  they came in, or the error of a stream that ended too early.
\<close>

theorem ws_framing_transparent:
  assumes "ws_rank c < fuel"
  shows "\<exists>r c'. read_at_least fuel ws_Read c n [] = Some (r, c') \<and>
    fst (ReadFull n \<lparr>avail = ws_bytes c, final = ws_error c\<rparr>) = r \<and>
    (n \<le> length (ws_bytes c) \<longrightarrow> r = Inr (take n (ws_bytes c)) \<and> ws_bytes c' = drop n (ws_bytes c))"
proof -
  obtain r c' where rc: "read_at_least fuel ws_Read c n [] = Some (r, c')"
      "fst (ReadFull n (ws.src c)) = r"
      "\<forall>xs. r = Inr xs \<longrightarrow> snd (ReadFull n (ws.src c)) = ws.src c'"
    using ws.read_full_refines [OF _ assms, of n] by auto
  have "r = Inr (take n (ws_bytes c)) \<and> ws_bytes c' = drop n (ws_bytes c)" if "n \<le> length (ws_bytes c)"
    using that rc(2,3) by (auto simp: ReadFull_def ws.src_def)
  then show ?thesis
    using rc(1,2) by (auto simp: ws.src_def)
qed

theorem ws_framing_transparent_witness:
  "\<exists>c'. read_at_least 20 ws_Read \<lparr>ws_messages = [[1], [], [2, 3, 4]], ws_reader = None, ws_error = EOF\<rparr> 3 [] =
     Some (Inr [1, 2, 3], c') \<and> ws_bytes c' = [4]"
  using ws_framing_transparent [of "\<lparr>ws_messages = [[1], [], [2, 3, 4]], ws_reader = None, ws_error = EOF\<rparr>" 20 3]
  by (auto simp: ws_rank_def ws_bytes_def)

end
