(* ===== verification/Aead_Stream.thy ===== *)
theory Aead_Stream
  imports Byte_Reader
begin

text \<open>
  \<^verbatim>\<open>tunnel/tunnel.go\<close>: the encrypting writer and the decrypting reader of a tunnel. The
  AEAD algorithm is a parameter (\<open>aead\<close>), with what the code relies on of it as the
  hypothesis \<open>aead_ok\<close>. A chunk of at most \<open>payloadSizeMask\<close> bytes becomes one record: its
  sealed two-byte length and its sealed payload, each under a fresh nonce.
\<close>

definition payloadSizeMask :: nat where "payloadSizeMask = 0x7FFF"

lemma payloadSizeMask_eq: "payloadSizeMask = 32767"
  by (simp add: payloadSizeMask_def)

record aead =
  Overhead :: nat
  NonceSize :: nat
  Seal :: "byte list \<Rightarrow> byte list \<Rightarrow> byte list"  \<comment> \<open>nonce, plaintext\<close>
  Open :: "byte list \<Rightarrow> byte list \<Rightarrow> byte list option"  \<comment> \<open>nonce, ciphertext\<close>

text \<open>
  The documented contract of \<^verbatim>\<open>cipher.AEAD\<close>: opening what was sealed under the same nonce
  gives the plaintext back, and a ciphertext is \<^verbatim>\<open>Overhead()\<close> bytes longer.
\<close>

definition aead_ok :: "aead \<Rightarrow> bool" where
  "aead_ok a \<longleftrightarrow>
     (\<forall>n p. Open a n (Seal a n p) = Some p) \<and>
     (\<forall>n p. length (Seal a n p) = length p + Overhead a)"

section \<open>The nonce counter\<close>

fun increment :: "byte list \<Rightarrow> byte list" where
  "increment [] = []"
| "increment (b # bs) = (if b + 1 \<noteq> 0 then (b + 1) # bs else (b + 1) # increment bs)"

fun le_val :: "byte list \<Rightarrow> nat" where
  "le_val [] = 0"
| "le_val (b # bs) = unat b + 256 * le_val bs"

lemma length_increment [simp]: "length (increment b) = length b"
  by (induction b) auto

lemma le_val_less: "le_val b < 256 ^ length b"
proof (induction b)
  case Nil
  show ?case by simp
next
  case (Cons x b)
  have "unat x < 256"
    using unsigned_less [of x, where 'a = nat] by simp
  then show ?case using Cons by simp
qed

lemma base256_digit:
  fixes a b m n :: nat
  assumes "a < 256" and "b < 256" and "a + 256 * m = b + 256 * n"
  shows "a = b" and "m = n"
proof -
  have "(a + 256 * m) mod 256 = a"
    using assms(1) by simp
  moreover have "(b + 256 * n) mod 256 = b"
    using assms(2) by simp
  ultimately show "a = b"
    using assms(3) by simp
  then show "m = n"
    using assms(3) by simp
qed

lemma le_val_inj: "length a = length b \<Longrightarrow> le_val a = le_val b \<Longrightarrow> a = b"
proof (induction a b rule: list_induct2)
  case Nil
  show ?case by simp
next
  case (Cons x xs y ys)
  have "unat x < 256" "unat y < 256"
    using unsigned_less [of x, where 'a = nat] unsigned_less [of y, where 'a = nat] by simp_all
  note digit = base256_digit [OF this, of "le_val xs" "le_val ys"]
  have "unat x = unat y" and "le_val xs = le_val ys"
    using Cons.prems digit by simp_all
  then show ?case
    using Cons.IH by (simp add: word_unat_eq_iff)
qed

lemma le_val_increment: "le_val (increment b) = (le_val b + 1) mod 256 ^ length b"
proof (induction b)
  case Nil
  show ?case by simp
next
  case (Cons x b)
  have x: "unat x < 256"
    using unsigned_less [of x, where 'a = nat] by simp
  show ?case
  proof (cases "x + 1 = 0")
    case True
    have "unat (x + 1) = (unat x + 1) mod 256"
      by (simp add: unat_word_ariths)
    then have "\<not> unat x + 1 < 256"
      using True dvd_imp_le [of 256 "Suc (unat x)"] by auto
    then have "unat x = 255"
      using x by simp
    then show ?thesis
      using True Cons by (simp add: mult_mod_right)
  next
    case False
    then have "unat (x + 1) = unat x + 1"
      by (simp add: unatSuc add.commute)
    moreover have "unat x + 1 + 256 * le_val b < 256 * 256 ^ length b"
      using le_val_less [of "(x + 1) # b"] calculation by simp
    ultimately show ?thesis
      using False by simp
  qed
qed

lemma le_val_increment_pow:
  "le_val ((increment ^^ k) b) = (le_val b + k) mod 256 ^ length b"
proof (induction k)
  case 0
  show ?case by (simp add: le_val_less)
next
  case (Suc k)
  have "length ((increment ^^ k) b) = length b"
    by (induction k) auto
  then show ?case
    using Suc by (simp add: le_val_increment mod_Suc_eq)
qed

section \<open>Writing\<close>

record writer =
  w_aead :: aead
  w_nonce :: "byte list"

definition newWriter :: "aead \<Rightarrow> writer" where
  "newWriter a = \<lparr>w_aead = a, w_nonce = replicate (NonceSize a) 0\<rparr>"

text \<open>\<^verbatim>\<open>Read\<close> of the in-memory readers that \<^verbatim>\<open>ReadFrom\<close> is given.\<close>

definition src_Read :: "source reader_op" where
  "src_Read s m =
     (if avail s = [] then ([], Some (final s), s)
      else (take m (avail s), None, s\<lparr>avail := drop m (avail s)\<rparr>))"

definition size_bytes :: "nat \<Rightarrow> byte list" where
  "size_bytes nr = [of_nat (nr div 2 ^ 8), of_nat nr]"

text \<open>
  The loop of \<open>ReadFrom\<close>. Both \<^verbatim>\<open>Seal\<close> calls work in place on disjoint parts of
  \<^verbatim>\<open>w.buf\<close>; one record is one \<^verbatim>\<open>Write\<close> of the underlying connection. \<open>n\<close> counts the bytes
  read so far, a chunk whose write fails included.
\<close>

function w_ReadFrom ::
    "writer \<Rightarrow> sink \<Rightarrow> source \<Rightarrow> nat \<Rightarrow> nat \<times> io_error option \<times> writer \<times> sink \<times> source" where
  "w_ReadFrom w k r n =
     (case src_Read r payloadSizeMask of
        (chunk, er, r1) \<Rightarrow>
          if chunk \<noteq> [] then
            (let n1 = n + length chunk;
                 hd_ct = Seal (w_aead w) (w_nonce w) (size_bytes (length chunk));
                 w1 = w\<lparr>w_nonce := increment (w_nonce w)\<rparr>;
                 pl_ct = Seal (w_aead w) (w_nonce w1) chunk;
                 w2 = w1\<lparr>w_nonce := increment (w_nonce w1)\<rparr>
             in case ws_Write k (hd_ct @ pl_ct) of
                  (_, Some ew, k1) \<Rightarrow> (n1, Some ew, w2, k1, r1)
                | (_, None, k1) \<Rightarrow>
                    (case er of
                       Some e \<Rightarrow> (n1, if e \<noteq> EOF then Some e else None, w2, k1, r1)
                     | None \<Rightarrow> w_ReadFrom w2 k1 r1 n1))
          else
            (case er of
               Some e \<Rightarrow> (n, if e \<noteq> EOF then Some e else None, w, k, r1)
             | None \<Rightarrow> w_ReadFrom w k r1 n))"
  by pat_completeness auto
termination
  by (relation "measure (\<lambda>(w, k, r, n). length (avail r))")
    (auto simp: src_Read_def payloadSizeMask_eq split: if_splits)

declare w_ReadFrom.simps [simp del]

definition w_Write :: "writer \<Rightarrow> sink \<Rightarrow> byte list \<Rightarrow> nat \<times> io_error option \<times> writer \<times> sink" where
  "w_Write w k b =
     (let (n, err, w', k', _) = w_ReadFrom w k \<lparr>avail = b, final = EOF\<rparr> 0 in (n, err, w', k'))"

section \<open>Reading\<close>

record reader =
  r_aead :: aead
  r_nonce :: "byte list"
  r_leftover :: "byte list"

definition newReader :: "aead \<Rightarrow> reader" where
  "newReader a = \<lparr>r_aead = a, r_nonce = replicate (NonceSize a) 0, r_leftover = []\<rparr>"

text \<open>\<^verbatim>\<open>r.Open(buf[:0], nonce, buf, nil)\<close> puts the plaintext at the start of \<^verbatim>\<open>buf\<close>.\<close>

definition open_in_place :: "aead \<Rightarrow> byte list \<Rightarrow> byte list \<Rightarrow> byte list option" where
  "open_in_place a nonce buf = map_option (\<lambda>p. p @ drop (length p) buf) (Open a nonce buf)"

definition r_read_from :: "'s full_read \<Rightarrow> reader \<Rightarrow> 's \<Rightarrow> (io_error + byte list) \<times> reader \<times> 's" where
  "r_read_from rf r s =
     (case rf (2 + Overhead (r_aead r)) s of
        (Inl e, s1) \<Rightarrow> (Inl e, r, s1)
      | (Inr buf, s1) \<Rightarrow>
          let r1 = r\<lparr>r_nonce := increment (r_nonce r)\<rparr> in
          (case open_in_place (r_aead r) (r_nonce r) buf of
             None \<Rightarrow> (Inl AuthErr, r1, s1)
           | Some buf1 \<Rightarrow>
               let size = (unat (buf1 ! 0) * 2 ^ 8 + unat (buf1 ! 1)) AND payloadSizeMask in
               (case rf (size + Overhead (r_aead r)) s1 of
                  (Inl e, s2) \<Rightarrow> (Inl e, r1, s2)
                | (Inr buf2, s2) \<Rightarrow>
                    let r2 = r1\<lparr>r_nonce := increment (r_nonce r1)\<rparr> in
                    (case open_in_place (r_aead r) (r_nonce r1) buf2 of
                       None \<Rightarrow> (Inl AuthErr, r2, s2)
                     | Some buf3 \<Rightarrow> (Inr (take size buf3), r2, s2)))))"

definition r_Read_from :: "'s full_read \<Rightarrow> (reader \<times> 's) reader_op" where
  "r_Read_from rf rs m =
     (case rs of (r, s) \<Rightarrow>
        if length (r_leftover r) > 0 then
          (take m (r_leftover r), None, r\<lparr>r_leftover := drop m (r_leftover r)\<rparr>, s)
        else
          (case r_read_from rf r s of
             (Inl e, r1, s1) \<Rightarrow> ([], Some e, r1, s1)
           | (Inr buf, r1, s1) \<Rightarrow>
               (take m buf, None,
                (if m < length buf then r1\<lparr>r_leftover := drop m buf\<rparr> else r1), s1)))"

text \<open>The two on a plain byte source:\<close>

definition r_read :: "reader \<Rightarrow> source \<Rightarrow> (io_error + byte list) \<times> reader \<times> source" where
  "r_read = r_read_from ReadFull"

definition r_Read :: "(reader \<times> source) reader_op" where
  "r_Read = r_Read_from ReadFull"

lemma r_Read_unfold:
  "r_Read (r, s) m =
     (if length (r_leftover r) > 0 then
        (take m (r_leftover r), None, r\<lparr>r_leftover := drop m (r_leftover r)\<rparr>, s)
      else
        (case r_read r s of
           (Inl e, r1, s1) \<Rightarrow> ([], Some e, r1, s1)
         | (Inr buf, r1, s1) \<Rightarrow>
             (take m buf, None,
              (if m < length buf then r1\<lparr>r_leftover := drop m buf\<rparr> else r1), s1)))"
  by (simp add: r_Read_def r_Read_from_def r_read_def)

lemma ReadFull_length: "ReadFull n s = (Inr xs, s') \<Longrightarrow> length (avail s) = n + length (avail s')"
  using ReadFull_InrD [of n s xs s'] by simp

lemma r_read_consumes:
  assumes "r_read r s = (Inr p, r', s')"
  shows "length (avail s') + length p + 2 \<le> length (avail s)"
    and "r_aead r' = r_aead r" and "r_leftover r' = r_leftover r"
  using assms
  by (auto simp: r_read_def r_read_from_def Let_def split: prod.splits sum.splits option.splits
      dest!: ReadFull_length)

text \<open>
  \<open>r_WriteTo\<close>: the leftover first, then record after record until an error; an end of file
  is not reported. The destination is a sink.
\<close>

function r_WriteTo_loop ::
    "reader \<Rightarrow> source \<Rightarrow> sink \<Rightarrow> nat \<Rightarrow> nat \<times> io_error option \<times> reader \<times> source \<times> sink" where
  "r_WriteTo_loop r s k n =
     (case r_read r s of
        (Inl e, r1, s1) \<Rightarrow> (n, if e \<noteq> EOF then Some e else None, r1, s1, k)
      | (Inr p, r1, s1) \<Rightarrow>
          if length p > 0 then
            (case ws_Write k p of
               (nw, Some ew, k1) \<Rightarrow> (n + nw, Some ew, r1, s1, k1)
             | (nw, None, k1) \<Rightarrow> r_WriteTo_loop r1 s1 k1 (n + nw))
          else r_WriteTo_loop r1 s1 k n)"
  by pat_completeness auto
termination
  by (relation "measure (\<lambda>(r, s, k, n). length (avail s))")
    (auto dest!: r_read_consumes(1) [OF sym])

declare r_WriteTo_loop.simps [simp del]

definition r_WriteTo ::
    "reader \<Rightarrow> source \<Rightarrow> sink \<Rightarrow> nat \<times> io_error option \<times> reader \<times> source \<times> sink" where
  "r_WriteTo r s k =
     (if length (r_leftover r) > 0 then
        (case ws_Write k (r_leftover r) of
           (nw, Some ew, k1) \<Rightarrow> (nw, Some ew, r\<lparr>r_leftover := drop nw (r_leftover r)\<rparr>, s, k1)
         | (nw, None, k1) \<Rightarrow> r_WriteTo_loop (r\<lparr>r_leftover := drop nw (r_leftover r)\<rparr>) s k1 nw)
      else r_WriteTo_loop r s k 0)"

section \<open>What a ciphertext decrypts to\<close>

text \<open>
  The plaintext a reader obtains from a source, up to the first error, and that error. This is
  defined for every source, honest or not; it makes the reader a byte stream.
\<close>

function decode_stream :: "reader \<Rightarrow> source \<Rightarrow> byte list \<times> io_error" where
  "decode_stream r s =
     (case r_read r s of
        (Inl e, _, _) \<Rightarrow> ([], e)
      | (Inr p, r', s') \<Rightarrow> (let (q, e) = decode_stream r' s' in (p @ q, e)))"
  by pat_completeness auto
termination
  by (relation "measure (\<lambda>(r, s). length (avail s))")
    (auto dest!: r_read_consumes(1) [OF sym])

declare decode_stream.simps [simp del]

lemma r_read_leftover_upd:
  "r_read (r\<lparr>r_leftover := l\<rparr>) s =
     (case r_read r s of (x, r1, s1) \<Rightarrow> (x, r1\<lparr>r_leftover := l\<rparr>, s1))"
  by (auto simp: r_read_def r_read_from_def Let_def split: prod.splits sum.splits option.splits)

lemma decode_stream_leftover_upd [simp]:
  "decode_stream (r\<lparr>r_leftover := l\<rparr>) s = decode_stream r s"
proof (induction r s rule: decode_stream.induct)
  case (1 r s)
  show ?case
  proof (cases "r_read r s")
    case (fields x r1 s1)
    then show ?thesis
      using "1" [OF fields [symmetric]]
      by (cases x) (simp_all add: decode_stream.simps [of _ s] r_read_leftover_upd fields)
  qed
qed

definition stream_bytes :: "reader \<times> source \<Rightarrow> byte list" where
  "stream_bytes rs = r_leftover (fst rs) @ fst (decode_stream (fst rs) (snd rs))"

definition stream_final :: "reader \<times> source \<Rightarrow> io_error" where
  "stream_final rs = snd (decode_stream (fst rs) (snd rs))"

definition stream_rank :: "reader \<times> source \<Rightarrow> nat" where
  "stream_rank rs = length (r_leftover (fst rs)) + length (avail (snd rs))"

lemma r_Read_ok:
  assumes "0 < m" and "r_Read rs m = (xs, None, rs')"
  shows "stream_bytes rs = xs @ stream_bytes rs' \<and> length xs \<le> m \<and>
    stream_final rs' = stream_final rs \<and> stream_rank rs' < stream_rank rs"
proof (cases rs)
  case (Pair r s)
  show ?thesis
  proof (cases "length (r_leftover r) > 0")
    case True
    then have "xs = take m (r_leftover r)" "rs' = (r\<lparr>r_leftover := drop m (r_leftover r)\<rparr>, s)"
      using assms(2) Pair by (simp_all add: r_Read_unfold)
    then show ?thesis
      using True assms(1) Pair by (simp add: stream_bytes_def stream_final_def stream_rank_def)
  next
    case False
    obtain p r1 s1 where rr: "r_read r s = (Inr p, r1, s1)"
      using assms(2) Pair False by (auto simp: r_Read_unfold split: prod.splits sum.splits)
    note cons = r_read_consumes [OF rr]
    have xs: "xs = take m p"
      and rs': "rs' = ((if m < length p then r1\<lparr>r_leftover := drop m p\<rparr> else r1), s1)"
      using assms(2) Pair False rr by (simp_all add: r_Read_unfold)
    have dec: "decode_stream r s = (p @ fst (decode_stream r1 s1), snd (decode_stream r1 s1))"
      by (simp add: decode_stream.simps [of r s] rr split: prod.split)
    show ?thesis
      using False Pair xs rs' cons dec
      by (auto simp: stream_bytes_def stream_final_def stream_rank_def)
  qed
qed

lemma r_Read_err:
  assumes "r_Read rs m = (xs, Some e, rs')"
  shows "xs = [] \<and> stream_bytes rs = [] \<and> e = stream_final rs"
proof (cases rs)
  case (Pair r s)
  then show ?thesis
    using assms
    by (auto simp: r_Read_unfold stream_bytes_def stream_final_def decode_stream.simps [of r s]
        split: prod.splits sum.splits if_splits)
qed

interpretation aead_rd: byte_reader r_Read stream_bytes stream_final "\<lambda>_. True" stream_rank
  using r_Read_ok r_Read_err by unfold_locales simp_all

text \<open>
  Over any reader that behaves like a byte source, the record reader gives what it gives over
  that source.
\<close>

context full_reader
begin

lemma r_read_from_sim:
  assumes "valid s" and "r_read_from rf r s = (x, r1, s1)"
  shows "\<exists>t. r_read r (source_of s) = (x, r1, t) \<and> (\<forall>p. x = Inr p \<longrightarrow> valid s1 \<and> source_of s1 = t)"
proof -
  let ?n = "2 + Overhead (r_aead r)"
  obtain h u where h: "rf ?n s = (h, u)"
    by fastforce
  show ?thesis
  proof (cases h)
    case (Inl e)
    then show ?thesis
      using assms h full_Inl [OF assms(1), of ?n e u] by (auto simp: r_read_def r_read_from_def)
  next
    case (Inr buf)
    note u = full_Inr [OF assms(1) h [unfolded Inr]]
    show ?thesis
    proof (cases "open_in_place (r_aead r) (r_nonce r) buf")
      case None
      then show ?thesis
        using assms(2) h Inr u by (auto simp: r_read_def r_read_from_def Let_def)
    next
      case (Some buf1)
      let ?size = "(unat (buf1 ! 0) * 2 ^ 8 + unat (buf1 ! 1)) AND payloadSizeMask"
      let ?m = "?size + Overhead (r_aead r)"
      obtain d v where d: "rf ?m u = (d, v)"
        by fastforce
      have "\<exists>t. ReadFull ?m (source_of u) = (d, t) \<and> (\<forall>xs. d = Inr xs \<longrightarrow> valid v \<and> source_of v = t)"
        by (rule full_sim [OF conjunct1 [OF u] d])
      then show ?thesis
        using assms(2) h Inr u Some d
        by (cases d) (auto simp: r_read_def r_read_from_def Let_def split: option.splits)
    qed
  qed
qed

lemma r_Read_from_sim:
  assumes "valid s" and "r_Read_from rf (r, s) m = (xs, er, r1, s1)"
  shows "\<exists>t. r_Read (r, source_of s) m = (xs, er, r1, t) \<and> (er = None \<longrightarrow> valid s1 \<and> source_of s1 = t)"
proof (cases "length (r_leftover r) > 0")
  case True
  then show ?thesis
    using assms by (auto simp: r_Read_unfold r_Read_from_def)
next
  case False
  obtain x r2 s2 where x: "r_read_from rf r s = (x, r2, s2)"
    by (metis prod_cases3)
  then show ?thesis
    using r_read_from_sim [OF assms(1) x] assms(2) False
    by (cases x) (auto simp: r_Read_unfold r_Read_from_def)
qed

end

section \<open>Honest ciphertexts\<close>

definition seal_record :: "aead \<Rightarrow> byte list \<Rightarrow> byte list \<Rightarrow> byte list" where
  "seal_record a nonce chunk =
     Seal a nonce (size_bytes (length chunk)) @ Seal a (increment nonce) chunk"

function seal_records :: "aead \<Rightarrow> byte list \<Rightarrow> byte list \<Rightarrow> byte list list \<times> byte list" where
  "seal_records a nonce data =
     (if data = [] then ([], nonce)
      else (let (rs, n') = seal_records a (increment (increment nonce)) (drop payloadSizeMask data)
            in (seal_record a nonce (take payloadSizeMask data) # rs, n')))"
  by pat_completeness auto
termination
  by (relation "measure (\<lambda>(a, nonce, data). length data)") (auto simp: payloadSizeMask_eq)

declare seal_records.simps [simp del]

lemma seal_records_Nil [simp]: "seal_records a nonce [] = ([], nonce)"
  by (simp add: seal_records.simps)

lemma size_bytes_value:
  assumes "n \<le> payloadSizeMask"
  shows "(unat (size_bytes n ! 0) * 2 ^ 8 + unat (size_bytes n ! 1)) AND payloadSizeMask = n"
proof -
  have hi: "unat (of_nat (n div 2 ^ 8) :: byte) = n div 256"
    using assms by (simp add: unat_of_nat take_bit_eq_mod payloadSizeMask_eq)
  have lo: "unat (of_nat n :: byte) = n mod 256"
    by (simp add: unat_of_nat take_bit_eq_mod)
  have "unat (size_bytes n ! 0) * 2 ^ 8 + unat (size_bytes n ! 1) = n"
    using hi lo by (simp add: size_bytes_def)
  moreover have "n AND payloadSizeMask = n"
  proof -
    have "n AND mask 15 = take_bit 15 n"
      by (simp add: take_bit_eq_mask)
    also have "\<dots> = n"
      using assms by (simp add: payloadSizeMask_eq take_bit_nat_eq_self)
    finally show ?thesis
      by (simp add: payloadSizeMask_eq mask_eq_exp_minus_1)
  qed
  ultimately show ?thesis by simp
qed

lemma open_in_place_Seal:
  "aead_ok a \<Longrightarrow> \<exists>junk. open_in_place a nonce (Seal a nonce p) = Some (p @ junk)"
  by (simp add: aead_ok_def open_in_place_def)

lemma r_read_record:
  assumes "aead_ok (r_aead r)" and "length chunk \<le> payloadSizeMask"
  shows "r_read r \<lparr>avail = seal_record (r_aead r) (r_nonce r) chunk @ rest, final = e\<rparr> =
    (Inr chunk, r\<lparr>r_nonce := increment (increment (r_nonce r))\<rparr>, \<lparr>avail = rest, final = e\<rparr>)"
proof -
  let ?a = "r_aead r" and ?n = "r_nonce r"
  let ?h = "Seal ?a ?n (size_bytes (length chunk))" and ?p = "Seal ?a (increment ?n) chunk"
  have len: "length ?h = 2 + Overhead ?a" "length ?p = length chunk + Overhead ?a"
    using assms(1) by (simp_all add: aead_ok_def size_bytes_def)
  have h: "ReadFull (2 + Overhead ?a)
      \<lparr>avail = seal_record ?a ?n chunk @ rest, final = e\<rparr> = (Inr ?h, \<lparr>avail = ?p @ rest, final = e\<rparr>)"
    using ReadFull_append [OF len(1)] by (simp add: seal_record_def)
  have p: "ReadFull (length chunk + Overhead ?a) \<lparr>avail = ?p @ rest, final = e\<rparr> =
      (Inr ?p, \<lparr>avail = rest, final = e\<rparr>)"
    using len(2) by (rule ReadFull_append)
  obtain j1 where j1: "open_in_place ?a ?n ?h = Some (size_bytes (length chunk) @ j1)"
    using open_in_place_Seal [OF assms(1)] by blast
  obtain j2 where j2: "open_in_place ?a (increment ?n) ?p = Some (chunk @ j2)"
    using open_in_place_Seal [OF assms(1)] by blast
  have "(size_bytes (length chunk) @ j1) ! 0 = size_bytes (length chunk) ! 0"
    "(size_bytes (length chunk) @ j1) ! 1 = size_bytes (length chunk) ! 1"
    by (simp_all add: size_bytes_def)
  then show ?thesis
    using h p j1 j2 size_bytes_value [OF assms(2)] by (simp add: r_read_def r_read_from_def Let_def)
qed

lemma decode_records:
  assumes "aead_ok (r_aead r)"
  shows "decode_stream r
      \<lparr>avail = concat (fst (seal_records (r_aead r) (r_nonce r) data)) @ rest, final = e\<rparr> =
    (let (q, e') = decode_stream (r\<lparr>r_nonce := snd (seal_records (r_aead r) (r_nonce r) data)\<rparr>)
                     \<lparr>avail = rest, final = e\<rparr> in (data @ q, e'))"
  using assms
proof (induction "r_aead r" "r_nonce r" data arbitrary: r rule: seal_records.induct)
  case (1 data r)
  show ?case
  proof (cases "data = []")
    case True
    then show ?thesis by simp
  next
    case False
    let ?n2 = "increment (increment (r_nonce r))" and ?r2 = "r\<lparr>r_nonce := increment (increment (r_nonce r))\<rparr>"
    let ?rest = "concat (fst (seal_records (r_aead r) ?n2 (drop payloadSizeMask data))) @ rest"
    have rr: "r_read r \<lparr>avail = seal_record (r_aead r) (r_nonce r) (take payloadSizeMask data) @ ?rest,
        final = e\<rparr> = (Inr (take payloadSizeMask data), ?r2, \<lparr>avail = ?rest, final = e\<rparr>)"
      using "1.prems" by (intro r_read_record) simp_all
    have IH: "decode_stream ?r2 \<lparr>avail = ?rest, final = e\<rparr> =
      (let (q, e') = decode_stream (?r2\<lparr>r_nonce := snd (seal_records (r_aead r) ?n2 (drop payloadSizeMask data))\<rparr>)
          \<lparr>avail = rest, final = e\<rparr> in (drop payloadSizeMask data @ q, e'))"
      using "1.hyps" [OF False, of ?r2] "1.prems" by simp
    obtain rs n' where sr: "seal_records (r_aead r) ?n2 (drop payloadSizeMask data) = (rs, n')"
      by fastforce
    have all: "seal_records (r_aead r) (r_nonce r) data =
        (seal_record (r_aead r) (r_nonce r) (take payloadSizeMask data) # rs, n')"
      using False sr by (subst seal_records.simps) simp
    obtain q e' where q: "decode_stream (r\<lparr>r_nonce := n'\<rparr>) \<lparr>avail = rest, final = e\<rparr> = (q, e')"
      by fastforce
    have d2: "decode_stream ?r2 \<lparr>avail = concat rs @ rest, final = e\<rparr> =
        (drop payloadSizeMask data @ q, e')"
      using IH by (simp add: sr q)
    have "decode_stream r \<lparr>avail = concat (seal_record (r_aead r) (r_nonce r)
        (take payloadSizeMask data) # rs) @ rest, final = e\<rparr> = (data @ q, e')"
      using rr sr d2 by (subst decode_stream.simps) simp
    then show ?thesis
      by (simp only: all fst_conv snd_conv q Let_def prod.case)
  qed
qed

text \<open>One round of the loop: one record per chunk, and on with the rest unless the write failed.\<close>

lemma w_ReadFrom_step:
  fixes r :: source
  defines "c \<equiv> take payloadSizeMask (avail r)" and "r1 \<equiv> r\<lparr>avail := drop payloadSizeMask (avail r)\<rparr>"
  assumes "avail r \<noteq> []"
  shows "w_ReadFrom w k r n =
    (let w2 = w\<lparr>w_nonce := increment (increment (w_nonce w))\<rparr> in
     case ws_Write k (seal_record (w_aead w) (w_nonce w) c) of
       (_, Some e, k1) \<Rightarrow> (n + length c, Some e, w2, k1, r1)
     | (_, None, k1) \<Rightarrow> w_ReadFrom w2 k1 r1 (n + length c))"
proof -
  have sr: "src_Read r payloadSizeMask = (c, None, r1)"
    using assms(3) by (simp add: src_Read_def c_def r1_def)
  have "c \<noteq> []"
    using assms(3) by (simp add: c_def payloadSizeMask_eq)
  then show ?thesis
    unfolding w_ReadFrom.simps [of w k r n] sr
    by (cases "ws_Write k (seal_record (w_aead w) (w_nonce w) c)")
      (auto simp: seal_record_def Let_def split: option.split)
qed

lemma w_nonce_twice: "w\<lparr>w_nonce := a\<rparr>\<lparr>w_nonce := b\<rparr> = w\<lparr>w_nonce := b\<rparr>"
  by simp

lemma w_ReadFrom_end:
  "avail r = [] \<Longrightarrow> w_ReadFrom w k r n = (n, if final r \<noteq> EOF then Some (final r) else None, w, k, r)"
  by (simp add: w_ReadFrom.simps [of w k r n] src_Read_def)

lemma drop_chunk_less: "avail r \<noteq> [] \<Longrightarrow> length (drop payloadSizeMask (avail r)) < length (avail r)"
  by (simp add: payloadSizeMask_eq)

lemma w_ReadFrom_records:
  assumes "write_fails k = None"
  shows "w_ReadFrom w k r n =
    (let (rs, nonce') = seal_records (w_aead w) (w_nonce w) (avail r)
     in (n + length (avail r), if final r \<noteq> EOF then Some (final r) else None,
         w\<lparr>w_nonce := nonce'\<rparr>, k\<lparr>sent := sent k @ rs\<rparr>, r\<lparr>avail := []\<rparr>))"
  using assms
proof (induction "length (avail r)" arbitrary: w k r n rule: less_induct)
  case less
  show ?case
  proof (cases "avail r = []")
    case True
    then show ?thesis
      by (simp add: w_ReadFrom_end)
  next
    case False
    let ?r1 = "r\<lparr>avail := drop payloadSizeMask (avail r)\<rparr>"
    have "length (avail ?r1) < length (avail r)"
      using drop_chunk_less [OF False] by simp
    note IH = less.hyps [OF this]
    have "length (take payloadSizeMask (avail r)) + length (avail ?r1) = length (avail r)"
      by simp
    then show ?thesis
      using less.prems IH unfolding w_ReadFrom_step [OF False]
      by (simp add: ws_Write_def seal_records.simps [of _ _ "avail r"] False min_def split: prod.split)
  qed
qed

text \<open>
  When the connection below may fail, the records of a write are cut after the last one that went
  out, and what went out is what a shorter write would have sent.
\<close>

lemma w_ReadFrom_cut:
  assumes "final r = EOF" and "w_ReadFrom w k r n = (n', er, w', k', r')"
    and "seal_records (w_aead w) (w_nonce w) (avail r) = (rs, nonce')"
  shows "(er = None \<longrightarrow> w' = w\<lparr>w_nonce := nonce'\<rparr> \<and> sent k' = sent k @ rs) \<and>
    (\<exists>j. sent k' = sent k @ take j rs)"
  using assms
proof (induction "length (avail r)" arbitrary: w k r n rs rule: less_induct)
  case less
  show ?case
  proof (cases "avail r = []")
    case True
    then show ?thesis
      using less.prems by (auto simp: w_ReadFrom_end)
  next
    case False
    let ?rec = "seal_record (w_aead w) (w_nonce w) (take payloadSizeMask (avail r))"
    let ?r1 = "r\<lparr>avail := drop payloadSizeMask (avail r)\<rparr>"
    let ?w2 = "w\<lparr>w_nonce := increment (increment (w_nonce w))\<rparr>"
    obtain rs1 where rs1: "seal_records (w_aead w) (w_nonce ?w2) (avail ?r1) = (rs1, nonce')"
      and rs: "rs = ?rec # rs1"
      using False less.prems(3) by (auto simp: seal_records.simps [of _ _ "avail r"] split: prod.splits)
    obtain m ew k1 where wr: "ws_Write k ?rec = (m, ew, k1)"
      by (metis prod_cases3)
    note step = less.prems(2) [unfolded w_ReadFrom_step [OF False] wr, simplified]
    show ?thesis
    proof (cases ew)
      case (Some e)
      then show ?thesis
        using step ws_Write_err [of k ?rec m e k1] wr by (auto intro: exI [of _ 0])
    next
      case None
      have k1: "sent k1 = sent k @ [?rec]"
        using ws_Write_sent wr None by blast
      have "(er = None \<longrightarrow> w' = ?w2\<lparr>w_nonce := nonce'\<rparr> \<and> sent k' = sent k1 @ rs1) \<and>
          (\<exists>j. sent k' = sent k1 @ take j rs1)"
        using less.hyps [of ?r1 ?w2 k1 "n + min (length (avail r)) payloadSizeMask" rs1]
          drop_chunk_less [OF False] less.prems(1) step None rs1 by simp
      then show ?thesis
        using k1 rs by (metis append.assoc append_Cons append_Nil take_Suc_Cons w_nonce_twice)
    qed
  qed
qed

lemma fst_seal_records:
  "data \<noteq> [] \<Longrightarrow> fst (seal_records a nonce data) =
     seal_record a nonce (take payloadSizeMask data) #
       fst (seal_records a (increment (increment nonce)) (drop payloadSizeMask data))"
  by (simp add: seal_records.simps [of a nonce data] split: prod.split)

lemma take_seal_records:
  "take j (fst (seal_records a nonce data)) = fst (seal_records a nonce (take (j * payloadSizeMask) data))"
proof (induction j arbitrary: nonce data)
  case 0
  show ?case by simp
next
  case (Suc j)
  show ?case
  proof (cases "data = []")
    case False
    have m: "0 < payloadSizeMask"
      by (simp add: payloadSizeMask_eq)
    let ?d = "take (Suc j * payloadSizeMask) data"
    have d: "?d \<noteq> []" "take payloadSizeMask ?d = take payloadSizeMask data"
      "drop payloadSizeMask ?d = take (j * payloadSizeMask) (drop payloadSizeMask data)"
      using False m by (simp_all add: drop_take)
    show ?thesis
      unfolding fst_seal_records [OF False] fst_seal_records [OF d(1)] d(2,3) take_Suc_Cons Suc ..
  qed simp
qed

section \<open>Properties of the record layer\<close>

text \<open>
  C25: nonces do not repeat. Counting up from any nonce, two positions less than
  \<open>256 ^ length\<close> apart never hold the same nonce, so no two messages sealed in that span of
  one direction share a nonce.
\<close>

theorem nonce_never_repeats:
  assumes "i < j" and "j - i < 256 ^ length nonce"
  shows "(increment ^^ i) nonce \<noteq> (increment ^^ j) nonce"
proof
  assume eq: "(increment ^^ i) nonce = (increment ^^ j) nonce"
  let ?m = "256 ^ length nonce :: nat"
  have "(le_val nonce + i) mod ?m = (le_val nonce + j) mod ?m"
    using eq le_val_increment_pow [of i nonce] le_val_increment_pow [of j nonce] by simp
  then have "?m dvd (le_val nonce + j) - (le_val nonce + i)"
    by (metis add_le_cancel_left assms(1) less_imp_le mod_eq_dvd_iff_nat)
  then have "?m dvd j - i"
    by simp
  then show False
    using assms nat_dvd_not_less [of "j - i" ?m] by simp
qed

theorem nonce_never_repeats_witness:
  "(increment ^^ 3) [0, 0] \<noteq> (increment ^^ 300) [0, 0]"
  using nonce_never_repeats [of 3 300 "[0, 0]"] by simp

text \<open>
  A write is one record per chunk. On a connection that accepts its writes, \<open>Write\<close>
  reports all bytes written and no error, and sends, each as one message, the records of
  the data cut into chunks of \<open>payloadSizeMask\<close> bytes, sealed under consecutive nonces.
\<close>

theorem writer_write_records:
  assumes "write_fails k = None"
  shows "w_Write w k b =
    (length b, None, w\<lparr>w_nonce := snd (seal_records (w_aead w) (w_nonce w) b)\<rparr>,
     k\<lparr>sent := sent k @ fst (seal_records (w_aead w) (w_nonce w) b)\<rparr>)"
  using w_ReadFrom_records [OF assms, of w "\<lparr>avail = b, final = EOF\<rparr>" 0]
  by (simp add: w_Write_def split: prod.split)

text \<open>A small AEAD for the witnesses: the tag is a byte that depends on the nonce.\<close>

definition sum_aead :: aead where
  "sum_aead = \<lparr>Overhead = 1, NonceSize = 2, Seal = (\<lambda>n p. p @ [sum_list n]),
     Open = (\<lambda>n c. if c \<noteq> [] \<and> last c = sum_list n then Some (butlast c) else None)\<rparr>"

lemma aead_ok_sum_aead: "aead_ok sum_aead"
  by (simp add: aead_ok_def sum_aead_def)

theorem writer_write_records_witness:
  "fst (w_Write (newWriter sum_aead) \<lparr>sent = [], write_fails = None\<rparr> [1, 2, 3]) = 3"
  using writer_write_records [of "\<lparr>sent = [], write_fails = None\<rparr>" "newWriter sum_aead" "[1, 2, 3]"]
  by simp

text \<open>
  A record that fails authentication delivers nothing. If the sealed length at the start of
  the source does not open under the reader's nonce, \<open>Read\<close> returns no bytes and the
  authentication error.
\<close>

theorem reader_rejects_forged_header:
  assumes "r_leftover r = []" and "2 + Overhead (r_aead r) \<le> length (avail s)"
    and "Open (r_aead r) (r_nonce r) (take (2 + Overhead (r_aead r)) (avail s)) = None"
  shows "fst (r_Read (r, s) m) = [] \<and> fst (snd (r_Read (r, s) m)) = Some AuthErr"
  using assms by (simp add: r_Read_unfold r_read_def r_read_from_def ReadFull_def open_in_place_def)

theorem reader_rejects_forged_header_witness:
  "fst (r_Read (newReader sum_aead, \<lparr>avail = [0, 1, 9, 5, 0], final = EOF\<rparr>) 8) = [] \<and>
   fst (snd (r_Read (newReader sum_aead, \<lparr>avail = [0, 1, 9, 5, 0], final = EOF\<rparr>) 8)) = Some AuthErr"
proof -
  have "replicate 2 0 = [0, 0 :: byte]"
    by (simp add: numeral_2_eq_2)
  then show ?thesis
    by (intro reader_rejects_forged_header) (simp_all add: newReader_def sum_aead_def)
qed

end
