(* ===== verification/Stream_Conn.thy ===== *)
theory Stream_Conn
  imports Aead_Stream
begin

text \<open>
  \<^verbatim>\<open>tunnel/cipher.go\<close>, \<^verbatim>\<open>tunnel/aead.go\<close> and \<^verbatim>\<open>streamConn\<close> of \<^verbatim>\<open>tunnel/tunnel.go\<close>: key
  derivation, choice of the cipher, and the connection that sends a random salt first and
  encrypts everything after it under the key derived from that salt. The hash functions and
  the AEAD constructors are parameters: \<open>md5\<close>, \<open>hkdf\<close> (secret, salt, info, output length),
  \<open>makeAESGCM\<close> and \<open>chacha20poly1305_New\<close>.
\<close>

type_synonym kdf_fun = "byte list \<Rightarrow> byte list \<Rightarrow> byte list \<Rightarrow> nat \<Rightarrow> byte list"

definition str_bytes :: "string \<Rightarrow> byte list" where
  "str_bytes s = map of_char s"

section \<open>Ciphers\<close>

record metaCipher =
  psk :: "byte list"
  makeAEAD :: "byte list \<Rightarrow> io_error + aead"

definition KeySize :: "metaCipher \<Rightarrow> nat" where
  "KeySize c = length (psk c)"

definition SaltSize :: "metaCipher \<Rightarrow> nat" where
  "SaltSize c = (let ks = KeySize c in if ks > 16 then ks else 16)"

definition Encrypter :: "kdf_fun \<Rightarrow> metaCipher \<Rightarrow> byte list \<Rightarrow> io_error + aead" where
  "Encrypter hkdf c salt =
     (let subkey = hkdf (psk c) salt (str_bytes ''ss-subkey'') (KeySize c) in makeAEAD c subkey)"

definition Decrypter :: "kdf_fun \<Rightarrow> metaCipher \<Rightarrow> byte list \<Rightarrow> io_error + aead" where
  "Decrypter hkdf c salt =
     (let subkey = hkdf (psk c) salt (str_bytes ''ss-subkey'') (KeySize c) in makeAEAD c subkey)"

text \<open>
  The loop of \<open>kdf\<close>: append the digest of the previous digest and the password until there
  are \<open>keyLen\<close> bytes. Every digest is non-empty, so \<open>keyLen\<close> rounds are enough
  (\<open>kdf_length\<close>); \<open>fuel\<close> bounds them.
\<close>

fun kdf_loop ::
    "(byte list \<Rightarrow> byte list) \<Rightarrow> byte list \<Rightarrow> nat \<Rightarrow> nat \<Rightarrow> byte list \<Rightarrow> byte list \<Rightarrow> byte list" where
  "kdf_loop md5 password keyLen fuel b prev =
     (case fuel of
        0 \<Rightarrow> b
      | Suc f \<Rightarrow>
          if length b < keyLen then
            (let b' = b @ md5 (prev @ password);
                 prev' = drop (length b' - 16) b'
             in kdf_loop md5 password keyLen f b' prev')
          else b)"

declare kdf_loop.simps [simp del]

definition kdf :: "(byte list \<Rightarrow> byte list) \<Rightarrow> byte list \<Rightarrow> nat \<Rightarrow> byte list" where
  "kdf md5 password keyLen = take keyLen (kdf_loop md5 password keyLen keyLen [] [])"

datatype cipher_error = KeySizeError nat | AesKeySizeError nat | ErrCipherNotSupported

definition aesGCM ::
    "(byte list \<Rightarrow> io_error + aead) \<Rightarrow> byte list \<Rightarrow> cipher_error + metaCipher" where
  "aesGCM makeAESGCM key =
     (if length key \<in> {16, 24, 32} then Inr \<lparr>psk = key, makeAEAD = makeAESGCM\<rparr>
      else Inl (AesKeySizeError (length key)))"

definition chacha20Poly1305 ::
    "(byte list \<Rightarrow> io_error + aead) \<Rightarrow> byte list \<Rightarrow> cipher_error + metaCipher" where
  "chacha20Poly1305 chacha20poly1305_New key =
     (if length key \<noteq> 32 then Inl (KeySizeError 32)
      else Inr \<lparr>psk = key, makeAEAD = chacha20poly1305_New\<rparr>)"

text \<open>Names are ASCII; \<^verbatim>\<open>strings.ToUpper\<close> on them.\<close>

definition to_upper :: "string \<Rightarrow> string" where
  "to_upper s = map (\<lambda>c. if 97 \<le> (of_char c :: nat) \<and> of_char c \<le> (122 :: nat)
                          then char_of ((of_char c :: nat) - 32) else c) s"

definition canonical_name :: "string \<Rightarrow> string" where
  "canonical_name name =
     (if name = ''CHACHA20-IETF-POLY1305'' then ''AEAD_CHACHA20_POLY1305''
      else if name = ''AES-128-GCM'' then ''AEAD_AES_128_GCM''
      else if name = ''AES-192-GCM'' then ''AEAD_AES_192_GCM''
      else if name = ''AES-256-GCM'' then ''AEAD_AES_256_GCM''
      else name)"

datatype cipher_ctor = CtorAesGCM | CtorChacha

definition aeadList :: "string \<rightharpoonup> nat \<times> cipher_ctor" where
  "aeadList name =
     (if name = ''AEAD_AES_128_GCM'' then Some (16, CtorAesGCM)
      else if name = ''AEAD_AES_192_GCM'' then Some (24, CtorAesGCM)
      else if name = ''AEAD_AES_256_GCM'' then Some (32, CtorAesGCM)
      else if name = ''AEAD_CHACHA20_POLY1305'' then Some (32, CtorChacha)
      else None)"

definition NewAEADCipher ::
    "(byte list \<Rightarrow> byte list) \<Rightarrow> (byte list \<Rightarrow> io_error + aead) \<Rightarrow> (byte list \<Rightarrow> io_error + aead) \<Rightarrow>
     string \<Rightarrow> byte list \<Rightarrow> byte list \<Rightarrow> cipher_error + metaCipher" where
  "NewAEADCipher md5 makeAESGCM chacha20poly1305_New name key password =
     (case aeadList (canonical_name (to_upper name)) of
        None \<Rightarrow> Inl ErrCipherNotSupported
      | Some (keySize, ctor) \<Rightarrow>
          let key' = (if length key = 0 then kdf md5 password keySize else key) in
          if length key' \<noteq> keySize then Inl (KeySizeError keySize)
          else (case ctor of
                  CtorAesGCM \<Rightarrow> aesGCM makeAESGCM key'
                | CtorChacha \<Rightarrow> chacha20Poly1305 chacha20poly1305_New key'))"

lemma kdf_loop_length:
  assumes "\<And>x. length (md5 x) = 16"
  shows "keyLen \<le> length b + fuel \<Longrightarrow> keyLen \<le> length (kdf_loop md5 pw keyLen fuel b prev)"
proof (induction fuel arbitrary: b prev)
  case 0
  then show ?case by (simp add: kdf_loop.simps)
next
  case (Suc f)
  then show ?case
    using assms by (simp add: kdf_loop.simps [of _ _ _ "Suc f"] Let_def)
qed

lemma kdf_length:
  "(\<And>x. length (md5 x) = 16) \<Longrightarrow> length (kdf md5 pw keyLen) = keyLen"
  using kdf_loop_length [of md5 keyLen "[]" keyLen pw "[]"] by (simp add: kdf_def)

lemma NewAEADCipher_KeySize:
  assumes "NewAEADCipher md5 mk1 mk2 name key pw = Inr c"
  shows "\<exists>ks ct. aeadList (canonical_name (to_upper name)) = Some (ks, ct) \<and> KeySize c = ks \<and>
    ks \<in> {16, 24, 32}"
  using assms
  by (auto simp: NewAEADCipher_def aesGCM_def chacha20Poly1305_def KeySize_def aeadList_def Let_def
      split: option.splits prod.splits cipher_ctor.splits if_splits)

section \<open>The encrypted connection\<close>

record streamConn =
  sc_cipher :: metaCipher
  sc_r :: "reader option"
  sc_w :: "writer option"

definition initReader_from ::
    "'s full_read \<Rightarrow> kdf_fun \<Rightarrow> streamConn \<Rightarrow> 's \<Rightarrow> (io_error + reader) \<times> 's" where
  "initReader_from rf hkdf c s =
     (case rf (SaltSize (sc_cipher c)) s of
        (Inl e, s1) \<Rightarrow> (Inl e, s1)
      | (Inr salt, s1) \<Rightarrow>
          (case Decrypter hkdf (sc_cipher c) salt of
             Inl e \<Rightarrow> (Inl e, s1)
           | Inr a \<Rightarrow> (Inr (newReader a), s1)))"

definition sc_Read_from :: "'s full_read \<Rightarrow> kdf_fun \<Rightarrow> (streamConn \<times> 's) reader_op" where
  "sc_Read_from rf hkdf cs m =
     (case cs of (c, s) \<Rightarrow>
        (case (case sc_r c of Some r \<Rightarrow> (Inr r, s) | None \<Rightarrow> initReader_from rf hkdf c s) of
           (Inl e, s1) \<Rightarrow> ([], Some e, c, s1)
         | (Inr r, s1) \<Rightarrow>
             (case r_Read_from rf (r, s1) m of (xs, er, r2, s2) \<Rightarrow> (xs, er, c\<lparr>sc_r := Some r2\<rparr>, s2))))"

text \<open>The two on a plain byte source:\<close>

definition initReader :: "kdf_fun \<Rightarrow> streamConn \<Rightarrow> source \<Rightarrow> (io_error + reader) \<times> source" where
  "initReader = initReader_from ReadFull"

definition sc_Read :: "kdf_fun \<Rightarrow> (streamConn \<times> source) reader_op" where
  "sc_Read = sc_Read_from ReadFull"

lemma sc_Read_unfold:
  "sc_Read hkdf (c, s) m =
     (case (case sc_r c of Some r \<Rightarrow> (Inr r, s) | None \<Rightarrow> initReader hkdf c s) of
        (Inl e, s1) \<Rightarrow> ([], Some e, c, s1)
      | (Inr r, s1) \<Rightarrow>
          (case r_Read (r, s1) m of (xs, er, r2, s2) \<Rightarrow> (xs, er, c\<lparr>sc_r := Some r2\<rparr>, s2)))"
  unfolding sc_Read_def sc_Read_from_def r_Read_def initReader_def by simp

definition sc_WriteTo ::
    "kdf_fun \<Rightarrow> streamConn \<Rightarrow> source \<Rightarrow> sink \<Rightarrow> nat \<times> io_error option \<times> streamConn \<times> source \<times> sink" where
  "sc_WriteTo hkdf c s k =
     (case (case sc_r c of Some r \<Rightarrow> (Inr r, s) | None \<Rightarrow> initReader hkdf c s) of
        (Inl e, s1) \<Rightarrow> (0, Some e, c, s1, k)
      | (Inr r, s1) \<Rightarrow>
          (case r_WriteTo r s1 k of
             (n, er, r2, s2, k2) \<Rightarrow> (n, er, c\<lparr>sc_r := Some r2\<rparr>, s2, k2)))"

text \<open>\<open>initWriter\<close> with the salt drawn from the system's random source.\<close>

definition initWriter ::
    "kdf_fun \<Rightarrow> byte list \<Rightarrow> streamConn \<Rightarrow> sink \<Rightarrow> (io_error + writer) \<times> sink" where
  "initWriter hkdf salt c k =
     (case Encrypter hkdf (sc_cipher c) salt of
        Inl e \<Rightarrow> (Inl e, k)
      | Inr a \<Rightarrow>
          (case ws_Write k salt of
             (_, Some e, k1) \<Rightarrow> (Inl e, k1)
           | (_, None, k1) \<Rightarrow> (Inr (newWriter a), k1)))"

definition sc_ReadFrom ::
    "kdf_fun \<Rightarrow> byte list \<Rightarrow> streamConn \<Rightarrow> sink \<Rightarrow> source \<Rightarrow> nat \<times> io_error option \<times> streamConn \<times> sink" where
  "sc_ReadFrom hkdf salt c k r =
     (case (case sc_w c of Some w \<Rightarrow> (Inr w, k) | None \<Rightarrow> initWriter hkdf salt c k) of
        (Inl e, k1) \<Rightarrow> (0, Some e, c, k1)
      | (Inr w, k1) \<Rightarrow>
          (case w_ReadFrom w k1 r 0 of (n, er, w2, k2, _) \<Rightarrow> (n, er, c\<lparr>sc_w := Some w2\<rparr>, k2)))"

definition sc_Write ::
    "kdf_fun \<Rightarrow> byte list \<Rightarrow> streamConn \<Rightarrow> sink \<Rightarrow> byte list \<Rightarrow> nat \<times> io_error option \<times> streamConn \<times> sink" where
  "sc_Write hkdf salt c k b =
     (case (case sc_w c of Some w \<Rightarrow> (Inr w, k) | None \<Rightarrow> initWriter hkdf salt c k) of
        (Inl e, k1) \<Rightarrow> (0, Some e, c, k1)
      | (Inr w, k1) \<Rightarrow>
          (case w_Write w k1 b of (n, er, w2, k2) \<Rightarrow> (n, er, c\<lparr>sc_w := Some w2\<rparr>, k2)))"

text \<open>\<open>NewEncryptedWebsocketConn\<close>: without a cipher the adapter is used as it is.\<close>

datatype tunnel_conn = PlainConn | EncryptedConn streamConn

definition NewEncryptedWebsocketConn :: "metaCipher option \<Rightarrow> tunnel_conn" where
  "NewEncryptedWebsocketConn ciph =
     (case ciph of
        None \<Rightarrow> PlainConn
      | Some c \<Rightarrow> EncryptedConn \<lparr>sc_cipher = c, sc_r = None, sc_w = None\<rparr>)"

text \<open>\<open>NewEncryptedConn\<close> makes the same choice for any stream; the program does not call it.\<close>

definition NewEncryptedConn :: "metaCipher option \<Rightarrow> tunnel_conn" where
  "NewEncryptedConn ciph =
     (case ciph of
        None \<Rightarrow> PlainConn
      | Some c \<Rightarrow> EncryptedConn \<lparr>sc_cipher = c, sc_r = None, sc_w = None\<rparr>)"

section \<open>The encrypted connection as a byte stream\<close>

definition sc_source :: "kdf_fun \<Rightarrow> streamConn \<times> source \<Rightarrow> byte list \<times> io_error" where
  "sc_source hkdf cs =
     (case cs of (c, s) \<Rightarrow>
        (case (case sc_r c of Some r \<Rightarrow> (Inr r, s) | None \<Rightarrow> initReader hkdf c s) of
           (Inl e, _) \<Rightarrow> ([], e)
         | (Inr r, s1) \<Rightarrow> (stream_bytes (r, s1), stream_final (r, s1))))"

definition sc_bytes :: "kdf_fun \<Rightarrow> streamConn \<times> source \<Rightarrow> byte list" where
  "sc_bytes hkdf cs = fst (sc_source hkdf cs)"

definition sc_final :: "kdf_fun \<Rightarrow> streamConn \<times> source \<Rightarrow> io_error" where
  "sc_final hkdf cs = snd (sc_source hkdf cs)"

definition sc_rank :: "streamConn \<times> source \<Rightarrow> nat" where
  "sc_rank cs = (case sc_r (fst cs) of Some r \<Rightarrow> stream_rank (r, snd cs) | None \<Rightarrow> length (avail (snd cs)))"

lemma initReader_rank:
  assumes "initReader hkdf c s = (Inr r, s1)"
  shows "stream_rank (r, s1) \<le> length (avail s)"
  using assms
  by (auto simp: initReader_def initReader_from_def stream_rank_def newReader_def split: prod.splits sum.splits
      dest!: ReadFull_length)

lemma sc_Read_ok:
  assumes "0 < m" and "sc_Read hkdf cs m = (xs, None, cs')"
  shows "sc_bytes hkdf cs = xs @ sc_bytes hkdf cs' \<and> length xs \<le> m \<and>
    sc_final hkdf cs' = sc_final hkdf cs \<and> sc_rank cs' < sc_rank cs"
proof (cases cs)
  case (Pair c s)
  obtain r s1 where r: "(case sc_r c of Some r \<Rightarrow> (Inr r, s) | None \<Rightarrow> initReader hkdf c s) = (Inr r, s1)"
    using assms(2) Pair by (auto simp: sc_Read_unfold split: prod.splits sum.splits)
  obtain r2 s2 where rd: "r_Read (r, s1) m = (xs, None, r2, s2)"
    and cs': "cs' = (c\<lparr>sc_r := Some r2\<rparr>, s2)"
    using assms(2) Pair r by (auto simp: sc_Read_unfold split: prod.splits)
  have "stream_rank (r, s1) \<le> sc_rank cs"
    using r Pair initReader_rank by (auto simp: sc_rank_def split: option.splits)
  then show ?thesis
    using r_Read_ok [OF assms(1) rd] r cs' Pair
    by (simp add: sc_bytes_def sc_final_def sc_source_def sc_rank_def)
qed

lemma sc_Read_err:
  assumes "sc_Read hkdf cs m = (xs, Some e, cs')"
  shows "xs = [] \<and> sc_bytes hkdf cs = [] \<and> e = sc_final hkdf cs"
  using assms
  by (cases cs) (auto simp: sc_Read_unfold sc_bytes_def sc_final_def sc_source_def
      split: prod.splits sum.splits dest: r_Read_err)

interpretation sc_rd: byte_reader "sc_Read hkdf" "sc_bytes hkdf" "sc_final hkdf" "\<lambda>_. True" sc_rank
  for hkdf
  using sc_Read_ok sc_Read_err by unfold_locales blast+

text \<open>The same over any reader that behaves like a byte source, such as the websocket adapter.\<close>

context full_reader
begin

lemma initReader_from_sim:
  assumes "valid s" and "initReader_from rf hkdf c s = (x, s1)"
  shows "\<exists>t. initReader hkdf c (source_of s) = (x, t) \<and> (\<forall>r. x = Inr r \<longrightarrow> valid s1 \<and> source_of s1 = t)"
proof -
  obtain h u where h: "rf (SaltSize (sc_cipher c)) s = (h, u)"
    by fastforce
  then show ?thesis
    using assms full_sim [OF assms(1) h]
    by (cases h) (auto simp: initReader_def initReader_from_def split: sum.splits)
qed

lemma sc_Read_from_sim:
  assumes "valid s" and "sc_Read_from rf hkdf (c, s) m = (xs, er, c1, s1)"
  shows "\<exists>t. sc_Read hkdf (c, source_of s) m = (xs, er, c1, t) \<and> (er = None \<longrightarrow> valid s1 \<and> source_of s1 = t)"
proof -
  let ?R = "\<lambda>i s. case sc_r c of Some r \<Rightarrow> (Inr r, s) | None \<Rightarrow> i s"
  obtain x u where x: "?R (initReader_from rf hkdf c) s = (x, u)"
    by fastforce
  have "\<exists>t. ?R (initReader hkdf c) (source_of s) = (x, t) \<and> (\<forall>r. x = Inr r \<longrightarrow> valid u \<and> source_of u = t)"
    using x assms(1) initReader_from_sim [OF assms(1)] by (auto split: option.splits)
  then obtain t where t: "?R (initReader hkdf c) (source_of s) = (x, t)"
    and ok: "\<forall>r. x = Inr r \<longrightarrow> valid u \<and> source_of u = t"
    by blast
  show ?thesis
  proof (cases x)
    case (Inl e)
    then show ?thesis
      using x t assms(2) by (auto simp: sc_Read_unfold sc_Read_from_def)
  next
    case (Inr r)
    obtain ys e r2 v where rd: "r_Read_from rf (r, u) m = (ys, e, r2, v)"
      by (metis prod_cases4)
    have "valid u" and src: "source_of u = t"
      using ok Inr by auto
    then obtain t2 where "r_Read (r, t) m = (ys, e, r2, t2)" "e = None \<longrightarrow> valid v \<and> source_of v = t2"
      using r_Read_from_sim [OF _ rd] by blast
    then show ?thesis
      using x t Inr rd assms(2) by (auto simp: sc_Read_unfold sc_Read_from_def)
  qed
qed

end

section \<open>Writing on one side, reading on the other\<close>

fun sc_Writes :: "kdf_fun \<Rightarrow> byte list \<Rightarrow> streamConn \<Rightarrow> sink \<Rightarrow> byte list list \<Rightarrow> streamConn \<times> sink" where
  "sc_Writes hkdf salt c k [] = (c, k)"
| "sc_Writes hkdf salt c k (d # ds) =
     (let (_, _, c', k') = sc_Write hkdf salt c k d in sc_Writes hkdf salt c' k' ds)"

fun seal_writes :: "aead \<Rightarrow> byte list \<Rightarrow> byte list list \<Rightarrow> byte list list" where
  "seal_writes a nonce [] = []"
| "seal_writes a nonce (d # ds) =
     (let (rs, n') = seal_records a nonce d in rs @ seal_writes a n' ds)"

lemma sc_Writes_sent:
  "sc_w c = Some w \<Longrightarrow> write_fails k = None \<Longrightarrow>
     sent (snd (sc_Writes hkdf salt c k ds)) = sent k @ seal_writes (w_aead w) (w_nonce w) ds"
proof (induction ds arbitrary: c k w)
  case Nil
  then show ?case by simp
next
  case (Cons d ds)
  obtain rs n' where sr: "seal_records (w_aead w) (w_nonce w) d = (rs, n')"
    by fastforce
  have "sc_Write hkdf salt c k d =
      (length d, None, c\<lparr>sc_w := Some (w\<lparr>w_nonce := n'\<rparr>)\<rparr>, k\<lparr>sent := sent k @ rs\<rparr>)"
    using Cons.prems by (simp add: sc_Write_def w_Write_def w_ReadFrom_records sr)
  then show ?case
    using Cons.IH [of "c\<lparr>sc_w := Some (w\<lparr>w_nonce := n'\<rparr>)\<rparr>" "w\<lparr>w_nonce := n'\<rparr>" "k\<lparr>sent := sent k @ rs\<rparr>"]
      Cons.prems sr
    by simp
qed

lemma decode_writes:
  "aead_ok (r_aead r) \<Longrightarrow>
     decode_stream r \<lparr>avail = concat (seal_writes (r_aead r) (r_nonce r) ds), final = e\<rparr> =
       (concat ds, e)"
proof (induction ds arbitrary: r)
  case Nil
  then show ?case
    by (simp add: decode_stream.simps [of r] r_read_def r_read_from_def ReadFull_def)
next
  case (Cons d ds)
  obtain rs n' where sr: "seal_records (r_aead r) (r_nonce r) d = (rs, n')"
    by fastforce
  have "decode_stream (r\<lparr>r_nonce := n'\<rparr>)
      \<lparr>avail = concat (seal_writes (r_aead r) n' ds), final = e\<rparr> = (concat ds, e)"
    using Cons.IH [of "r\<lparr>r_nonce := n'\<rparr>"] Cons.prems by simp
  then show ?case
    using decode_records [OF Cons.prems, of d "concat (seal_writes (r_aead r) n' ds)" e] sr by simp
qed

text \<open>
  A salt, then the records of every write; the other side derives the same key from the salt
  and decrypts the concatenation of what was written.
\<close>

lemma sc_Writes_fresh:
  assumes "sc_w c = None" and "Encrypter hkdf (sc_cipher c) salt = Inr a" and "write_fails k = None"
    and "sent k = []" and "ds \<noteq> []"
  shows "sent (snd (sc_Writes hkdf salt c k ds)) = salt # seal_writes a (w_nonce (newWriter a)) ds"
proof -
  obtain d ds' where ds: "ds = d # ds'"
    using assms(5) by (cases ds) auto
  let ?c = "c\<lparr>sc_w := Some (newWriter a)\<rparr>" and ?k = "k\<lparr>sent := [salt]\<rparr>"
  have iw: "initWriter hkdf salt c k = (Inr (newWriter a), ?k)"
    using assms by (simp add: initWriter_def ws_Write_def)
  have "sc_Write hkdf salt c k d = sc_Write hkdf salt ?c ?k d"
    using assms(1) iw by (simp add: sc_Write_def)
  then have "sc_Writes hkdf salt c k ds = sc_Writes hkdf salt ?c ?k ds"
    by (simp add: ds)
  then show ?thesis
    using sc_Writes_sent [of ?c "newWriter a" ?k hkdf salt ds] assms(3)
    by (simp add: newWriter_def)
qed

lemma sc_source_fresh:
  assumes "sc_r c = None" and "Encrypter hkdf (sc_cipher c) salt = Inr a" and "aead_ok a"
    and "length salt = SaltSize (sc_cipher c)"
  shows "sc_source hkdf (c, \<lparr>avail = salt @ concat (seal_writes a (w_nonce (newWriter a)) ds), final = e\<rparr>) =
    (concat ds, e)"
proof -
  have "ReadFull (SaltSize (sc_cipher c))
      \<lparr>avail = salt @ concat (seal_writes a (w_nonce (newWriter a)) ds), final = e\<rparr> =
      (Inr salt, \<lparr>avail = concat (seal_writes a (w_nonce (newWriter a)) ds), final = e\<rparr>)"
    using assms(4) by (rule ReadFull_append)
  moreover have "Decrypter hkdf (sc_cipher c) salt = Inr a"
    using assms(2) by (simp add: Encrypter_def Decrypter_def)
  moreover have "decode_stream (newReader a)
      \<lparr>avail = concat (seal_writes a (w_nonce (newWriter a)) ds), final = e\<rparr> = (concat ds, e)"
    using decode_writes [of "newReader a" ds e] assms(3)
    by (simp add: newReader_def newWriter_def split: if_splits)
  ultimately show ?thesis
    using assms(1)
    by (simp add: sc_source_def initReader_def initReader_from_def stream_bytes_def stream_final_def)
       (simp add: newReader_def)
qed

section \<open>Properties of the encrypted connection\<close>

text \<open>
  C11: what is written is what is read. Let one side write any non-empty sequence of byte
  strings on a fresh encrypted connection, and let the other side, with the same cipher, read
  what was sent. Then for every \<open>n\<close> up to the total length, reading \<open>n\<close> bytes through the
  decrypting connection terminates and yields the first \<open>n\<close> bytes of the concatenation.
\<close>

theorem encrypted_roundtrip:
  fixes hkdf c salt k ds e
  defines "ct \<equiv> concat (sent (snd (sc_Writes hkdf salt c k ds)))"
  assumes "Encrypter hkdf (sc_cipher c) salt = Inr a" and "aead_ok a"
    and "length salt = SaltSize (sc_cipher c)" and "sc_r c = None" and "sc_w c = None"
    and "sent k = []" and "write_fails k = None" and "ds \<noteq> []"
    and "n \<le> length (concat ds)" and "length ct < fuel"
  shows "\<exists>s'. read_at_least fuel (sc_Read hkdf) (c, \<lparr>avail = ct, final = e\<rparr>) n [] =
    Some (Inr (take n (concat ds)), s')"
proof -
  have ct: "ct = salt @ concat (seal_writes a (w_nonce (newWriter a)) ds)"
    using assms(2,6-9) by (simp add: ct_def sc_Writes_fresh)
  let ?cs = "(c, \<lparr>avail = ct, final = e\<rparr>)"
  have src: "sc_source hkdf ?cs = (concat ds, e)"
    unfolding ct using assms(5,2,3,4) by (rule sc_source_fresh)
  have "sc_rank ?cs < fuel"
    using assms(5,11) by (simp add: sc_rank_def)
  then obtain r s' where r: "read_at_least fuel (sc_Read hkdf) ?cs n [] = Some (r, s')"
      "fst (ReadFull n (sc_rd.src hkdf ?cs)) = r"
    using sc_rd.read_full_refines [of ?cs fuel hkdf n] by auto
  then have "r = Inr (take n (concat ds))"
    using src assms(10) by (simp add: sc_rd.src_def sc_bytes_def sc_final_def ReadFull_def)
  then show ?thesis
    using r by blast
qed

definition sample_cipher :: metaCipher where
  "sample_cipher = \<lparr>psk = [1, 2, 3], makeAEAD = (\<lambda>_. Inr sum_aead)\<rparr>"

theorem encrypted_roundtrip_witness:
  "\<exists>fuel s'. read_at_least fuel (sc_Read (\<lambda>_ _ _ _. []))
     (\<lparr>sc_cipher = sample_cipher, sc_r = None, sc_w = None\<rparr>,
      \<lparr>avail = concat (sent (snd (sc_Writes (\<lambda>_ _ _ _. []) (replicate 16 5)
         \<lparr>sc_cipher = sample_cipher, sc_r = None, sc_w = None\<rparr> \<lparr>sent = [], write_fails = None\<rparr> [[1, 2], [3]]))),
       final = EOF\<rparr>) 3 [] = Some (Inr [1, 2, 3], s')"
  (is "\<exists>fuel s'. read_at_least fuel ?rd (?c, \<lparr>avail = ?ct, final = EOF\<rparr>) 3 [] = _")
proof -
  have "\<exists>s'. read_at_least (Suc (length ?ct)) ?rd (?c, \<lparr>avail = ?ct, final = EOF\<rparr>) 3 [] =
      Some (Inr (take 3 (concat [[1, 2], [3]])), s')"
    by (rule encrypted_roundtrip [where a = sum_aead])
      (simp_all add: Encrypter_def sample_cipher_def aead_ok_sum_aead SaltSize_def KeySize_def
        del: sc_Writes.simps)
  then show ?thesis
    by (simp del: sc_Writes.simps) blast
qed

text \<open>
  The choice of the cipher. With a 16-byte hash and no explicit key, the four documented
  cipher names (in any case) and their internal names give a cipher whose key is the key
  derived from the password and has exactly the required size; any other name is refused.
\<close>

theorem new_cipher_from_password:
  assumes "\<And>x. length (hash x) = 16"
  shows "(case aeadList (canonical_name (to_upper name)) of
      None \<Rightarrow> NewAEADCipher hash mkAES mkChaCha name [] password = Inl ErrCipherNotSupported
    | Some (ks, ctor) \<Rightarrow> NewAEADCipher hash mkAES mkChaCha name [] password =
        Inr \<lparr>psk = kdf hash password ks,
             makeAEAD = (case ctor of CtorAesGCM \<Rightarrow> mkAES | CtorChacha \<Rightarrow> mkChaCha)\<rparr> \<and>
        length (kdf hash password ks) = ks)"
  using kdf_length [OF assms]
  by (auto simp: NewAEADCipher_def aesGCM_def chacha20Poly1305_def aeadList_def Let_def split: option.splits)

theorem new_cipher_from_password_witness:
  "NewAEADCipher (\<lambda>_. replicate 16 3) (\<lambda>_. Inl CipherErr) (\<lambda>_. Inr sum_aead) ''aes-128-gcm'' [] [1] =
     Inr \<lparr>psk = kdf (\<lambda>_. replicate 16 3) [1] 16, makeAEAD = (\<lambda>_. Inl CipherErr)\<rparr>"
proof -
  have n: "aeadList (canonical_name (to_upper ''aes-128-gcm'')) = Some (16, CtorAesGCM)"
    by code_simp
  show ?thesis
    using n new_cipher_from_password [where hash = "\<lambda>_. replicate 16 3" and name = "''aes-128-gcm''" and
      mkAES = "\<lambda>_. Inl CipherErr" and mkChaCha = "\<lambda>_. Inr sum_aead" and password = "[1]"]
    by simp
qed

text \<open>
  An unknown cipher name turns encryption off. \<open>NewAEADCipher\<close> then yields no cipher, and
  a tunnel built without a cipher is the bare WebSocket adapter.
\<close>

theorem unknown_cipher_is_plaintext:
  assumes "aeadList (canonical_name (to_upper name)) = None"
  shows "NewEncryptedWebsocketConn
    (case NewAEADCipher hash mkAES mkChaCha name key password of Inl _ \<Rightarrow> None | Inr c \<Rightarrow> Some c) = PlainConn"
  using assms by (simp add: NewAEADCipher_def NewEncryptedWebsocketConn_def)

theorem unknown_cipher_is_plaintext_witness:
  "NewEncryptedWebsocketConn
    (case NewAEADCipher (\<lambda>_. []) (\<lambda>_. Inr sum_aead) (\<lambda>_. Inr sum_aead) ''chacha20-poly1305'' [] [1] of
       Inl _ \<Rightarrow> None | Inr c \<Rightarrow> Some c) = PlainConn"
  by (rule unknown_cipher_is_plaintext) code_simp

end
