(* ===== verification/Tunnel_Stack.thy ===== *)
theory Tunnel_Stack
  imports Stream_Conn Block
begin

text \<open>
  The layers of a tunnel put together as the code does: blocks are read with \<^verbatim>\<open>io.ReadFull\<close> from
  the connection \<^verbatim>\<open>NewEncryptedWebsocketConn\<close> returned, which decrypts records it reads with
  \<^verbatim>\<open>io.ReadFull\<close> from the websocket adapter, which takes them out of messages
  (\<^verbatim>\<open>tunnel/tunnel.go\<close>, \<^verbatim>\<open>block/block.go\<close>). The stack is a byte stream again, and a sequence of
  blocks comes through it unchanged. This is what lets the theory of the tunnels treat the
  connection as a pair of byte sequences.
\<close>

section \<open>Reading and writing through all layers\<close>

text \<open>\<open>Read\<close> and \<open>Write\<close> of the \<^verbatim>\<open>net.Conn\<close> of a tunnel, by its two implementations.\<close>

definition conn_Read :: "kdf_fun \<Rightarrow> (tunnel_conn \<times> ws_conn) reader_op" where
  "conn_Read hkdf cw m =
     (case cw of
        (PlainConn, w) \<Rightarrow> (case ws_Read w m of (xs, er, w1) \<Rightarrow> (xs, er, PlainConn, w1))
      | (EncryptedConn c, w) \<Rightarrow>
          (case sc_Read_from ws_ReadFull hkdf (c, w) m of
             (xs, er, c1, w1) \<Rightarrow> (xs, er, EncryptedConn c1, w1)))"

definition conn_Write ::
    "kdf_fun \<Rightarrow> byte list \<Rightarrow> tunnel_conn \<Rightarrow> sink \<Rightarrow> byte list \<Rightarrow> nat \<times> io_error option \<times> tunnel_conn \<times> sink" where
  "conn_Write hkdf salt conn k b =
     (case conn of
        PlainConn \<Rightarrow> (case ws_Write k b of (n, er, k1) \<Rightarrow> (n, er, PlainConn, k1))
      | EncryptedConn c \<Rightarrow>
          (case sc_Write hkdf salt c k b of (n, er, c1, k1) \<Rightarrow> (n, er, EncryptedConn c1, k1)))"

text \<open>What the stack will deliver, its last error, and a bound for the rounds of \<^verbatim>\<open>io.ReadFull\<close>.\<close>

definition conn_bytes :: "kdf_fun \<Rightarrow> tunnel_conn \<times> ws_conn \<Rightarrow> byte list" where
  "conn_bytes hkdf cw =
     (case cw of (PlainConn, w) \<Rightarrow> ws_bytes w | (EncryptedConn c, w) \<Rightarrow> sc_bytes hkdf (c, ws_source w))"

definition conn_final :: "kdf_fun \<Rightarrow> tunnel_conn \<times> ws_conn \<Rightarrow> io_error" where
  "conn_final hkdf cw =
     (case cw of (PlainConn, w) \<Rightarrow> ws_error w | (EncryptedConn c, w) \<Rightarrow> sc_final hkdf (c, ws_source w))"

definition conn_rank :: "tunnel_conn \<times> ws_conn \<Rightarrow> nat" where
  "conn_rank cw =
     (case cw of (PlainConn, w) \<Rightarrow> ws_rank w | (EncryptedConn c, w) \<Rightarrow> sc_rank (c, ws_source w))"

definition conn_ReadFull :: "kdf_fun \<Rightarrow> (tunnel_conn \<times> ws_conn) full_read" where
  "conn_ReadFull hkdf = full_of conn_rank (conn_Read hkdf)"

text \<open>A round of reading, and a number of them; reading stops at the first error.\<close>

definition conn_read_block ::
    "kdf_fun \<Rightarrow> tunnel_conn \<times> ws_conn \<Rightarrow> (io_error + Block) \<times> (tunnel_conn \<times> ws_conn)" where
  "conn_read_block hkdf = NewBlockFromReader_from (conn_ReadFull hkdf)"

fun conn_read_blocks ::
    "kdf_fun \<Rightarrow> nat \<Rightarrow> tunnel_conn \<times> ws_conn \<Rightarrow> Block list \<times> io_error option" where
  "conn_read_blocks hkdf 0 cw = ([], None)"
| "conn_read_blocks hkdf (Suc n) cw =
     (case conn_read_block hkdf cw of
        (Inl e, _) \<Rightarrow> ([], Some e)
      | (Inr b, cw1) \<Rightarrow> (case conn_read_blocks hkdf n cw1 of (bs, er) \<Rightarrow> (b # bs, er)))"

text \<open>The writes of the sending side: every block in one \<open>Write\<close>, up to the first error.\<close>

fun conn_write_blocks ::
    "kdf_fun \<Rightarrow> byte list \<Rightarrow> tunnel_conn \<Rightarrow> sink \<Rightarrow> Block list \<Rightarrow> io_error option \<times> sink" where
  "conn_write_blocks hkdf salt conn k [] = (None, k)"
| "conn_write_blocks hkdf salt conn k (b # bs) =
     (case conn_Write hkdf salt conn k (wire b) of
        (_, Some e, _, k1) \<Rightarrow> (Some e, k1)
      | (_, None, conn1, k1) \<Rightarrow> conn_write_blocks hkdf salt conn1 k1 bs)"

section \<open>The stack is a byte stream\<close>

lemma sc_ws_Read_ok:
  assumes "0 < m" and "sc_Read_from ws_ReadFull hkdf (c, w) m = (xs, None, c1, w1)"
  shows "sc_bytes hkdf (c, ws_source w) = xs @ sc_bytes hkdf (c1, ws_source w1) \<and> length xs \<le> m \<and>
    sc_final hkdf (c1, ws_source w1) = sc_final hkdf (c, ws_source w) \<and>
    sc_rank (c1, ws_source w1) < sc_rank (c, ws_source w)"
  using ws_full.sc_Read_from_sim [OF _ assms(2)] sc_Read_ok [OF assms(1)] by auto

lemma sc_ws_Read_err:
  assumes "sc_Read_from ws_ReadFull hkdf (c, w) m = (xs, Some e, c1, w1)"
  shows "xs = [] \<and> sc_bytes hkdf (c, ws_source w) = [] \<and> e = sc_final hkdf (c, ws_source w)"
  using ws_full.sc_Read_from_sim [OF _ assms] sc_Read_err by fastforce

interpretation stack: byte_reader "conn_Read hkdf" "conn_bytes hkdf" "conn_final hkdf" "\<lambda>_. True" conn_rank
  for hkdf
proof
  fix cw :: "tunnel_conn \<times> ws_conn" and m xs cw'
  assume m: "0 < m" and rd: "conn_Read hkdf cw m = (xs, None, cw')"
  show "True \<and> conn_bytes hkdf cw = xs @ conn_bytes hkdf cw' \<and> length xs \<le> m \<and>
      conn_final hkdf cw' = conn_final hkdf cw \<and> conn_rank cw' < conn_rank cw"
    using rd ws.rd_ok [OF _ m] sc_ws_Read_ok [OF m]
    by (auto simp: conn_Read_def conn_bytes_def conn_final_def conn_rank_def
        split: prod.splits tunnel_conn.splits)
next
  fix cw :: "tunnel_conn \<times> ws_conn" and m xs e cw'
  assume m: "0 < m" and rd: "conn_Read hkdf cw m = (xs, Some e, cw')"
  show "xs = [] \<and> conn_bytes hkdf cw = [] \<and> e = conn_final hkdf cw"
    using rd ws.rd_err [OF _ m] sc_ws_Read_err
    by (auto simp: conn_Read_def conn_bytes_def conn_final_def split: prod.splits tunnel_conn.splits)
qed

section \<open>Blocks over the stack\<close>

context full_reader
begin

lemma NewBlockFromReader_from_sim:
  assumes "valid s" and "NewBlockFromReader_from rf s = (x, s1)"
  shows "\<exists>t. NewBlockFromReader (source_of s) = (x, t) \<and> (\<forall>b. x = Inr b \<longrightarrow> valid s1 \<and> source_of s1 = t)"
proof -
  obtain h u where h: "rf HeaderSize s = (h, u)"
    by fastforce
  show ?thesis
  proof (cases h)
    case (Inl e)
    then show ?thesis
      using assms h full_Inl [OF assms(1) h [unfolded Inl]]
      by (auto simp: NewBlockFromReader_def NewBlockFromReader_from_def)
  next
    case (Inr buf)
    note u = full_Inr [OF assms(1) h [unfolded Inr]]
    let ?n = "unat (BlockLength (parse_header buf))"
    obtain d v where d: "rf ?n u = (d, v)"
      by fastforce
    have "\<exists>t. ReadFull ?n (source_of u) = (d, t) \<and> (\<forall>xs. d = Inr xs \<longrightarrow> valid v \<and> source_of v = t)"
      by (rule full_sim [OF conjunct1 [OF u] d])
    then show ?thesis
      using assms(2) h Inr u d
      by (cases d) (auto simp: NewBlockFromReader_def NewBlockFromReader_from_def Let_def split: if_splits)
  qed
qed

end

lemma conn_read_block_sim:
  assumes "conn_read_block hkdf cw = (x, cw1)"
  shows "\<exists>t. NewBlockFromReader (stack.src hkdf cw) = (x, t) \<and> (\<forall>b. x = Inr b \<longrightarrow> stack.src hkdf cw1 = t)"
  using stack.full.NewBlockFromReader_from_sim [OF TrueI, of hkdf cw x cw1] assms
  by (simp add: conn_read_block_def conn_ReadFull_def)

text \<open>A source that ends inside the first block gives no block.\<close>

lemma NewBlockFromReader_cut:
  assumes "block_wf b" and "wire b = avail s @ xs" and "xs \<noteq> []"
  shows "\<exists>e t. NewBlockFromReader s = (Inl e, t)"
proof (rule ccontr)
  assume "\<not> ?thesis"
  then obtain c t where "NewBlockFromReader s = (Inr c, t)"
    by (metis old.sum.exhaust surj_pair)
  note c = NewBlockFromReader_InrD [OF this]
  have "wire c @ (avail t @ xs) = wire b @ []"
    using assms(2) c(1) by simp
  then have "avail t @ xs = []"
    using block_codec.enc_unique [OF c(2) assms(1)] by blast
  then show False
    using assms(3) by simp
qed

text \<open>
  Whatever part of the bytes of some blocks the stack delivers, reading yields the blocks that are
  complete in it and then an error; all of them and the final error if nothing is missing.
\<close>

lemma conn_read_blocks_cut:
  assumes "list_all block_wf bs" and "concat (map wire bs) = conn_bytes hkdf cw @ xs"
  shows "\<exists>i e. conn_read_blocks hkdf (Suc (length bs)) cw = (map uncached (take i bs), Some e) \<and>
    (xs = [] \<longrightarrow> i = length bs \<and> e = conn_final hkdf cw)"
  using assms
proof (induction bs arbitrary: cw)
  case Nil
  then have "NewBlockFromReader (stack.src hkdf cw) = (Inl (conn_final hkdf cw), stack.src hkdf cw)"
    by (simp add: NewBlockFromReader_short stack.src_def)
  then show ?case
    using conn_read_block_sim [of hkdf cw] by (cases "conn_read_block hkdf cw") auto
next
  case (Cons b bs)
  have b: "block_wf b" and bs: "list_all block_wf bs"
    using Cons.prems(1) by simp_all
  obtain x cw1 where x: "conn_read_block hkdf cw = (x, cw1)"
    by (metis surj_pair)
  note sim = conn_read_block_sim [OF x]
  from Cons.prems(2) have "(\<exists>ys. wire b = conn_bytes hkdf cw @ ys \<and> ys \<noteq> []) \<or>
      (\<exists>rest. conn_bytes hkdf cw = wire b @ rest)"
    by (simp add: append_eq_append_conv2) (metis append_Nil2)
  then show ?case
  proof (elim disjE exE conjE)
    fix ys
    assume ys: "wire b = conn_bytes hkdf cw @ ys" "ys \<noteq> []"
    then obtain e where "x = Inl e"
      using NewBlockFromReader_cut [OF b, of "stack.src hkdf cw" ys] sim by (auto simp: stack.src_def)
    moreover have "xs \<noteq> []"
      using Cons.prems(2) ys by auto
    ultimately show ?thesis
      using x by (auto intro: exI [of _ 0])
  next
    fix rest
    assume rest: "conn_bytes hkdf cw = wire b @ rest"
    then have "x = Inr (uncached b)" and src: "stack.src hkdf cw1 = \<lparr>avail = rest, final = conn_final hkdf cw\<rparr>"
      using NewBlockFromReader_wire [OF b, of rest "conn_final hkdf cw"] sim by (auto simp: stack.src_def)
    moreover have "concat (map wire bs) = conn_bytes hkdf cw1 @ xs"
      using Cons.prems(2) rest src by (simp add: stack.src_def)
    then obtain i e where "conn_read_blocks hkdf (Suc (length bs)) cw1 = (map uncached (take i bs), Some e)"
        "xs = [] \<longrightarrow> i = length bs \<and> e = conn_final hkdf cw1"
      using Cons.IH [OF bs] by blast
    ultimately show ?thesis
      using x by (intro exI [of _ "Suc i"] exI [of _ e]) (simp add: stack.src_def)
  qed
qed

section \<open>What a sender puts on the network\<close>

text \<open>
  A cut sequence of sealed writes is the sequence of some shorter writes.
\<close>

lemma take_seal_writes:
  "\<exists>ds' xs. take j (seal_writes a nonce ds) = seal_writes a nonce ds' \<and> concat ds = concat ds' @ xs"
proof (induction ds arbitrary: j nonce)
  case Nil
  show ?case by (auto intro: exI [of _ "[]"])
next
  case (Cons d ds)
  obtain rs n' where sr: "seal_records a nonce d = (rs, n')"
    by fastforce
  show ?case
  proof (cases "j < length rs")
    case True
    let ?d = "take (j * payloadSizeMask) d"
    have "take j rs = fst (seal_records a nonce ?d)"
      using take_seal_records [of j a nonce d] sr by simp
    then have "take j (seal_writes a nonce (d # ds)) = seal_writes a nonce [?d]"
      using sr True by (simp split: prod.split)
    then show ?thesis
      using append_take_drop_id [of "j * payloadSizeMask" d]
      by (metis append.assoc append_Nil2 concat.simps)
  next
    case False
    obtain ds' xs where "take (j - length rs) (seal_writes a n' ds) = seal_writes a n' ds'"
        "concat ds = concat ds' @ xs"
      using Cons.IH by blast
    then show ?thesis
      using sr False by (intro exI [of _ "d # ds'"] exI [of _ xs]) simp
  qed
qed

lemma sc_Write_cut:
  assumes "sc_w c = Some w" and "sc_Write hkdf salt c k d = (n, er, c', k')"
    and "seal_records (w_aead w) (w_nonce w) d = (rs, nonce')"
  shows "(er = None \<longrightarrow> c' = c\<lparr>sc_w := Some (w\<lparr>w_nonce := nonce'\<rparr>)\<rparr> \<and> sent k' = sent k @ rs) \<and>
    (\<exists>j. sent k' = sent k @ take j rs)"
proof -
  obtain m e w' k1 r' where "w_ReadFrom w k \<lparr>avail = d, final = EOF\<rparr> 0 = (m, e, w', k1, r')"
    by (metis prod_cases5)
  then show ?thesis
    using w_ReadFrom_cut [of "\<lparr>avail = d, final = EOF\<rparr>" w k 0 m e w' k1 r' rs nonce'] assms
    by (auto simp: sc_Write_def w_Write_def)
qed

lemma sealed_blocks_sent:
  assumes "sc_w c = Some w" and "conn_write_blocks hkdf salt (EncryptedConn c) k bs = (er, k')"
  shows "\<exists>j. sent k' = sent k @ take j (seal_writes (w_aead w) (w_nonce w) (map wire bs)) \<and>
    (er = None \<longrightarrow> length (seal_writes (w_aead w) (w_nonce w) (map wire bs)) \<le> j)"
  using assms
proof (induction bs arbitrary: c w k)
  case Nil
  then show ?case by simp
next
  case (Cons b bs)
  obtain rs n' where sr: "seal_records (w_aead w) (w_nonce w) (wire b) = (rs, n')"
    by fastforce
  obtain m e c1 k1 where wr: "sc_Write hkdf salt c k (wire b) = (m, e, c1, k1)"
    by (metis prod_cases4)
  note cut = sc_Write_cut [OF Cons.prems(1) wr sr]
  show ?case
  proof (cases e)
    case None
    let ?w = "w\<lparr>w_nonce := n'\<rparr>"
    have c1: "sc_w c1 = Some ?w" and k1: "sent k1 = sent k @ rs"
      using cut None by auto
    have "conn_write_blocks hkdf salt (EncryptedConn c1) k1 bs = (er, k')"
      using Cons.prems(2) wr None by (simp add: conn_Write_def)
    then obtain j where "sent k' = sent k1 @ take j (seal_writes (w_aead w) n' (map wire bs))"
        "er = None \<longrightarrow> length (seal_writes (w_aead w) n' (map wire bs)) \<le> j"
      using Cons.IH [OF c1] by auto
    then show ?thesis
      using k1 sr by (intro exI [of _ "length rs + j"]) simp
  next
    case (Some x)
    obtain j where "sent k1 = sent k @ take j rs"
      using cut by blast
    then have "sent k1 = sent k @ take (min j (length rs)) (rs @ seal_writes (w_aead w) n' (map wire bs))"
      by (simp add: min_def)
    moreover have "er = Some x" "k' = k1"
      using Cons.prems(2) wr Some by (auto simp: conn_Write_def)
    ultimately show ?thesis
      using sr by (intro exI [of _ "min j (length rs)"]) simp
  qed
qed

lemma plain_blocks_sent:
  assumes "conn_write_blocks hkdf salt PlainConn k bs = (er, k')"
  shows "\<exists>j. sent k' = sent k @ take j (map wire bs) \<and> (er = None \<longrightarrow> length bs \<le> j)"
  using assms
proof (induction bs arbitrary: k)
  case Nil
  then show ?case by simp
next
  case (Cons b bs)
  obtain m e k1 where wr: "ws_Write k (wire b) = (m, e, k1)"
    by (metis prod_cases3)
  show ?case
  proof (cases e)
    case None
    have k1: "sent k1 = sent k @ [wire b]"
      using ws_Write_sent wr None by blast
    obtain j where "sent k' = sent k1 @ take j (map wire bs)" "er = None \<longrightarrow> length bs \<le> j"
      using Cons.IH [of k1] Cons.prems wr None by (auto simp: conn_Write_def)
    then show ?thesis
      using k1 by (intro exI [of _ "Suc j"]) simp
  next
    case (Some x)
    then show ?thesis
      using Cons.prems wr ws_Write_err [of k "wire b" m x k1]
      by (intro exI [of _ 0]) (auto simp: conn_Write_def)
  qed
qed

text \<open>
  What the two ends rely on: with a cipher, the salt has the right length and the key derived from
  it gives a correct AEAD.
\<close>

definition conn_ok :: "kdf_fun \<Rightarrow> metaCipher option \<Rightarrow> byte list \<Rightarrow> bool" where
  "conn_ok hkdf ciph salt \<longleftrightarrow>
     (case ciph of
        None \<Rightarrow> True
      | Some c \<Rightarrow>
          length salt = SaltSize c \<and>
          (case Encrypter hkdf c salt of Inl _ \<Rightarrow> False | Inr a \<Rightarrow> aead_ok a))"

definition arriving :: "sink \<Rightarrow> io_error \<Rightarrow> ws_conn" where
  "arriving k e = \<lparr>ws_messages = sent k, ws_reader = None, ws_error = e\<rparr>"

lemma ws_source_arriving [simp]: "ws_source (arriving k e) = \<lparr>avail = concat (sent k), final = e\<rparr>"
  by (simp add: ws_source_def arriving_def ws_bytes_def)

lemma sc_source_empty: "sc_r c = None \<Longrightarrow> sc_source hkdf (c, \<lparr>avail = [], final = e\<rparr>) = ([], e)"
  by (simp add: sc_source_def initReader_def initReader_from_def ReadFull_def SaltSize_def Let_def)

text \<open>After the salt, the other end decrypts the concatenation of a part of the blocks.\<close>

lemma sealed_blocks_arrive:
  assumes "sc_r c = None" and "Encrypter hkdf (sc_cipher c) salt = Inr a" and "aead_ok a"
    and "length salt = SaltSize (sc_cipher c)" and "sent k = [salt]"
    and "conn_write_blocks hkdf salt (EncryptedConn (c\<lparr>sc_w := Some (newWriter a)\<rparr>)) k bs = (er, k')"
  shows "\<exists>ds xs. sc_source hkdf (c, \<lparr>avail = concat (sent k'), final = e\<rparr>) = (concat ds, e) \<and>
    concat (map wire bs) = concat ds @ xs \<and> (er = None \<longrightarrow> xs = [])"
proof -
  let ?w = "newWriter a" and ?ws = "seal_writes a (w_nonce (newWriter a)) (map wire bs)"
  obtain j where j: "sent k' = salt # take j ?ws" "er = None \<longrightarrow> length ?ws \<le> j"
    using sealed_blocks_sent [OF _ assms(6)] assms(5) by (auto simp: newWriter_def)
  have "\<exists>ds xs. take j ?ws = seal_writes a (w_nonce ?w) ds \<and> concat (map wire bs) = concat ds @ xs \<and>
      (er = None \<longrightarrow> xs = [])"
  proof (cases er)
    case None
    then show ?thesis
      using j(2) by (intro exI [of _ "map wire bs"]) simp
  next
    case (Some x)
    then show ?thesis
      using take_seal_writes by blast
  qed
  then obtain ds xs where ds: "take j ?ws = seal_writes a (w_nonce ?w) ds"
      "concat (map wire bs) = concat ds @ xs" "er = None \<longrightarrow> xs = []"
    by blast
  have "sc_source hkdf (c, \<lparr>avail = concat (sent k'), final = e\<rparr>) = (concat ds, e)"
    using sc_source_fresh [OF assms(1-4), of ds e] j(1) ds(1) by simp
  then show ?thesis
    using ds(2,3) by blast
qed

lemma encrypted_blocks_arrive:
  assumes "sc_r c = None" and "sc_w c = None" and "Encrypter hkdf (sc_cipher c) salt = Inr a" and "aead_ok a"
    and "length salt = SaltSize (sc_cipher c)" and "sent k = []"
    and "conn_write_blocks hkdf salt (EncryptedConn c) k bs = (er, k')"
  shows "\<exists>ds xs. sc_source hkdf (c, \<lparr>avail = concat (sent k'), final = e\<rparr>) = (concat ds, e) \<and>
    concat (map wire bs) = concat ds @ xs \<and> (er = None \<longrightarrow> xs = [])"
proof -
  have empty: "sc_source hkdf (c, \<lparr>avail = concat [], final = e\<rparr>) = (concat [], e)"
    using assms(1) by (simp add: sc_source_empty)
  obtain m e1 k1 where wr: "ws_Write k salt = (m, e1, k1)"
    by (metis prod_cases3)
  consider "bs = []" | (failed) x where "bs \<noteq> []" "e1 = Some x" | (opened) "bs \<noteq> []" "e1 = None"
    by (cases e1) auto
  then show ?thesis
  proof cases
    case 1
    then show ?thesis
      using assms(6,7) empty by (intro exI [of _ "[]"]) auto
  next
    case (failed x)
    then have "er = Some x" "k' = k"
      using assms(2,3,7) wr ws_Write_err [of k salt m x k1]
      by (cases bs; auto simp: conn_Write_def sc_Write_def initWriter_def)+
    then show ?thesis
      using assms(6) empty
      by - (rule exI [of _ "[]"], rule exI [of _ "concat (map wire bs)"], simp)
  next
    case opened
    let ?c = "c\<lparr>sc_w := Some (newWriter a)\<rparr>"
    have "sc_Write hkdf salt c k d = sc_Write hkdf salt ?c k1 d" for d
      using assms(2,3) wr opened(2) by (simp add: sc_Write_def initWriter_def)
    then have "conn_write_blocks hkdf salt (EncryptedConn ?c) k1 bs = (er, k')"
      using assms(7) opened(1) by (cases bs) (simp_all add: conn_Write_def)
    moreover have "sent k1 = [salt]"
      using ws_Write_sent wr opened(2) assms(6) by fastforce
    ultimately show ?thesis
      using sealed_blocks_arrive [OF assms(1,3-5)] by blast
  qed
qed

lemma blocks_arrive:
  assumes "conn_ok hkdf ciph salt" and "sent k = []"
    and "conn_write_blocks hkdf salt (NewEncryptedWebsocketConn ciph) k bs = (er, k')"
  shows "\<exists>xs. concat (map wire bs) = conn_bytes hkdf (NewEncryptedWebsocketConn ciph, arriving k' e) @ xs \<and>
    conn_final hkdf (NewEncryptedWebsocketConn ciph, arriving k' e) = e \<and> (er = None \<longrightarrow> xs = [])"
proof (cases ciph)
  case None
  then obtain j where j: "sent k' = take j (map wire bs)" "er = None \<longrightarrow> length bs \<le> j"
    using plain_blocks_sent [of hkdf salt k bs er k'] assms(2,3) by (auto simp: NewEncryptedWebsocketConn_def)
  have "concat (map wire bs) = concat (take j (map wire bs)) @ concat (drop j (map wire bs))"
    by (metis append_take_drop_id concat_append)
  then show ?thesis
    using None j
    by (intro exI [of _ "concat (drop j (map wire bs))"])
      (auto simp: NewEncryptedWebsocketConn_def conn_bytes_def conn_final_def arriving_def ws_bytes_def)
next
  case (Some c)
  then obtain a where a: "Encrypter hkdf c salt = Inr a" "aead_ok a" "length salt = SaltSize c"
    using assms(1) by (auto simp: conn_ok_def split: sum.splits)
  show ?thesis
    using encrypted_blocks_arrive [of "\<lparr>sc_cipher = c, sc_r = None, sc_w = None\<rparr>" hkdf salt a k bs er k' e] a assms(2,3) Some
    by (auto simp: NewEncryptedWebsocketConn_def conn_bytes_def conn_final_def sc_bytes_def sc_final_def)
qed

text \<open>Writes fail only if the connection below does.\<close>

lemma sc_Write_succeeds:
  assumes "write_fails k = None" and "sc_w c \<noteq> None \<or> (\<exists>a. Encrypter hkdf (sc_cipher c) salt = Inr a)"
  shows "\<exists>n c' k'. sc_Write hkdf salt c k d = (n, None, c', k') \<and> write_fails k' = None \<and> sc_w c' \<noteq> None"
  using assms
  by (cases "sc_w c")
    (auto simp: sc_Write_def w_Write_def initWriter_def ws_Write_def w_ReadFrom_records split: prod.split)

lemma conn_write_blocks_succeeds:
  assumes "write_fails k = None"
    and "case conn of PlainConn \<Rightarrow> True
         | EncryptedConn c \<Rightarrow> sc_w c \<noteq> None \<or> (\<exists>a. Encrypter hkdf (sc_cipher c) salt = Inr a)"
  shows "fst (conn_write_blocks hkdf salt conn k bs) = None"
  using assms
proof (induction bs arbitrary: conn k)
  case Nil
  show ?case by simp
next
  case (Cons b bs)
  show ?case
  proof (cases conn)
    case PlainConn
    then show ?thesis
      using Cons.prems Cons.IH [of "k\<lparr>sent := sent k @ [wire b]\<rparr>" PlainConn]
      by (simp add: conn_Write_def ws_Write_def)
  next
    case (EncryptedConn c)
    then obtain n c' k' where "sc_Write hkdf salt c k (wire b) = (n, None, c', k')"
        "write_fails k' = None" "sc_w c' \<noteq> None"
      using sc_Write_succeeds [of k c hkdf salt "wire b"] Cons.prems by auto
    then show ?thesis
      using EncryptedConn Cons.IH [of k' "EncryptedConn c'"] by (simp add: conn_Write_def)
  qed
qed

section \<open>Properties of the stack\<close>

text \<open>
  C7: blocks come through the layers of a tunnel. One end writes blocks, each in one \<open>Write\<close>,
  through the encrypting connection (or the bare adapter if there is no cipher) into websocket
  messages; the other end has a connection of the same kind and takes blocks out of the messages
  that were sent. However many writes of the network succeed, it obtains a prefix of the blocks and
  then an error; if no write failed, and none does on a network without errors, it obtains all of
  them, and the error is the one the network ends with.
\<close>

theorem tunnel_stack_carries_blocks:
  assumes "conn_ok hkdf ciph salt" and "list_all block_wf bs" and "sent k = []"
    and "conn_write_blocks hkdf salt (NewEncryptedWebsocketConn ciph) k bs = (er, k')"
  shows "(\<exists>i e'. conn_read_blocks hkdf (Suc (length bs)) (NewEncryptedWebsocketConn ciph, arriving k' e) =
      (map uncached (take i bs), Some e') \<and> (er = None \<longrightarrow> i = length bs \<and> e' = e)) \<and>
    (write_fails k = None \<longrightarrow> er = None)"
proof
  obtain xs where xs: "concat (map wire bs) = conn_bytes hkdf (NewEncryptedWebsocketConn ciph, arriving k' e) @ xs"
      "conn_final hkdf (NewEncryptedWebsocketConn ciph, arriving k' e) = e" "er = None \<longrightarrow> xs = []"
    using blocks_arrive [OF assms(1,3,4)] by blast
  show "\<exists>i e'. conn_read_blocks hkdf (Suc (length bs)) (NewEncryptedWebsocketConn ciph, arriving k' e) =
      (map uncached (take i bs), Some e') \<and> (er = None \<longrightarrow> i = length bs \<and> e' = e)"
    using conn_read_blocks_cut [OF assms(2) xs(1)] xs(2,3) by metis
  show "write_fails k = None \<longrightarrow> er = None"
    using conn_write_blocks_succeeds [where conn = "NewEncryptedWebsocketConn ciph" and k = k and hkdf = hkdf and salt = salt and bs = bs] assms(1,4)
    by (auto simp: NewEncryptedWebsocketConn_def conn_ok_def split: option.splits sum.splits)
qed

theorem tunnel_stack_carries_blocks_witness:
  "\<exists>er k'. conn_write_blocks (\<lambda>_ _ _ _. []) (replicate 16 5) (NewEncryptedWebsocketConn (Some sample_cipher))
       \<lparr>sent = [], write_fails = None\<rparr> [newDataBlock 0 1 0 [1, 2], newDataBlock 0 1 1 [3]] = (er, k') \<and>
     conn_read_blocks (\<lambda>_ _ _ _. []) 3 (NewEncryptedWebsocketConn (Some sample_cipher), arriving k' EOF) =
       (map uncached [newDataBlock 0 1 0 [1, 2], newDataBlock 0 1 1 [3]], Some EOF)"
  (is "\<exists>er k'. conn_write_blocks ?hkdf ?salt ?conn ?k ?bs = _ \<and> _")
proof -
  obtain er k' where w: "conn_write_blocks ?hkdf ?salt ?conn ?k ?bs = (er, k')"
    by fastforce
  have "conn_ok ?hkdf (Some sample_cipher) ?salt"
    by (simp add: conn_ok_def Encrypter_def sample_cipher_def aead_ok_sum_aead SaltSize_def KeySize_def)
  moreover have "list_all block_wf ?bs"
    by (simp add: newDataBlock_wf)
  ultimately have "(\<exists>i e'. conn_read_blocks ?hkdf (Suc (length ?bs)) (?conn, arriving k' EOF) =
      (map uncached (take i ?bs), Some e') \<and> (er = None \<longrightarrow> i = length ?bs \<and> e' = EOF)) \<and>
    (write_fails ?k = None \<longrightarrow> er = None)"
    using w by (intro tunnel_stack_carries_blocks [where k = ?k]) simp_all
  then show ?thesis
    using w by (auto simp: numeral_3_eq_3 simp del: conn_write_blocks.simps conn_read_blocks.simps)
qed

end
