(* ===== verification/Transport_Progress.thy ===== *)
theory Transport_Progress
  imports Transport
begin

text \<open>
  The transport never gets stuck: as long as one tunnel works and no broken tunnel holds blocks,
  every state of the transport has a continuation, made of steps of the goroutines alone, that
  hands out everything that was sent. The proof is one of progress and a decreasing weight: in
  every state that is not finished some goroutine can take a step that moves a block forward,
  whatever the queues hold (\<^verbatim>\<open>tunnel_pool/tunnel.go\<close>, \<^verbatim>\<open>connection_pool/pool.go\<close>,
  \<^verbatim>\<open>connection/block_processor.go\<close>).
\<close>

section \<open>Working transports\<close>

definition link_alive :: "link \<Rightarrow> bool" where
  "link_alive l \<longleftrightarrow>
     \<not> t_connClosed (l_tx l) \<and> \<not> t_ctxDone (l_tx l) \<and> l_pc l \<noteq> RelayEnded \<and>
     \<not> t_connClosed (l_rx l) \<and> \<not> t_ctxDone (l_rx l)"

definition queue_open :: "Block chan \<Rightarrow> bool" where
  "queue_open q \<longleftrightarrow> \<not> chan_closed q \<and> 0 < chan_cap q"

definition running :: "transport \<Rightarrow> bool" where
  "running s \<longleftrightarrow>
     queue_open (normalQueue (out_qs s)) \<and> queue_open (retryQueue (out_qs s)) \<and>
     list_ex link_alive (links s) \<and> list_all (\<lambda>l. link_alive l \<or> l_carry l = []) (links s)"

text \<open>How far the blocks of a state still have to go.\<close>

definition weight :: "transport \<Rightarrow> nat" where
  "weight s =
     5 * length (outbox s) + 5 * length (retrying s) + 4 * length (chan_buf (normalQueue (out_qs s))) +
     4 * length (chan_buf (retryQueue (out_qs s))) + 2 * (\<Sum>l \<leftarrow> links s. length (l_carry l)) + length (inq s)"

text \<open>A later state of the same transport in which nothing new was sent and nothing dropped.\<close>

definition advances :: "transport \<Rightarrow> transport \<Rightarrow> bool" where
  "advances s s' \<longleftrightarrow>
     t_inv s' \<and> running s' \<and> sent s' = sent s \<and> dropped s' = dropped s \<and> weight s' < weight s"

lemma running_link:
  assumes "running s" and "j < length (links s)" and "link_alive l'"
    and "links s' = (links s)[j := l']" and "queue_open (normalQueue (out_qs s'))" "queue_open (retryQueue (out_qs s'))"
  shows "running s'"
proof -
  have "l' \<in> set (links s')"
    using assms(2,4) by (simp add: set_update_memI)
  moreover have "\<forall>l \<in> set (links s'). link_alive l \<or> l_carry l = []"
    using assms(1,3,4) set_update_subset_insert [of "links s" j l'] by (fastforce simp: running_def list_all_iff)
  ultimately show ?thesis
    using assms(3,5,6) by (auto simp: running_def list_all_iff list_ex_iff)
qed

lemma carry_sum:
  fixes ls :: "link list"
  assumes "j < length ls"
  shows "(\<Sum>l \<leftarrow> ls[j := l']. length (l_carry l)) + length (l_carry (ls ! j)) =
    (\<Sum>l \<leftarrow> ls. length (l_carry l)) + length (l_carry l')"
  using assms
proof (induction ls arbitrary: j)
  case (Cons l ls)
  then show ?case
    by (cases j) (auto simp: add_ac)
qed simp

section \<open>Each goroutine can go on\<close>

lemma deliver_advances:
  assumes "t_inv s" and "running s" and "inq s \<noteq> []"
  shows "\<exists>s'. transport_step s EDeliver = Some s' \<and> advances s s'"
proof -
  obtain b bs where q: "inq s = b # bs"
    using assms(3) by (cases "inq s") auto
  let ?s = "deliver_block b (s\<lparr>inq := bs\<rparr>)"
  have st: "transport_step s EDeliver = Some ?s"
    by (simp add: transport_step_def q)
  have "running ?s \<and> sent ?s = sent s \<and> dropped ?s = dropped s \<and> weight ?s < weight s"
    using assms(2) q by (auto simp: deliver_block_def running_def weight_def Let_def split: prod.split)
  then show ?thesis
    using st t_inv_step [OF assms(1) st] by (auto simp: advances_def)
qed

lemma enqueue_advances:
  assumes "t_inv s" and "running s" and "outbox s \<noteq> []" and "chan_buf (normalQueue (out_qs s)) = []"
  shows "\<exists>s'. transport_step s (EEnqueue 0) = Some s' \<and> advances s s'"
proof -
  obtain b bs where o: "outbox s = b # bs"
    using assms(3) by (cases "outbox s") auto
  let ?q = "(normalQueue (out_qs s))\<lparr>chan_buf := [b]\<rparr>"
  let ?s = "s\<lparr>outbox := bs, out_qs := (out_qs s)\<lparr>normalQueue := ?q\<rparr>\<rparr>"
  have "chan_send (normalQueue (out_qs s)) b = Sent ?q"
    using assms(2,4) by (simp add: chan_send_def running_def queue_open_def)
  then have st: "transport_step s (EEnqueue 0) = Some ?s"
    by (simp add: transport_step_def o)
  have "running ?s" "weight ?s < weight s"
    using assms(2,4) o by (auto simp: running_def queue_open_def weight_def)
  then show ?thesis
    using st t_inv_step [OF assms(1) st] by (auto simp: advances_def)
qed

lemma retry_advances:
  assumes "t_inv s" and "running s" and "retrying s \<noteq> []" and "chan_buf (retryQueue (out_qs s)) = []"
  shows "\<exists>s'. transport_step s (ERetry 0 False) = Some s' \<and> advances s s'"
proof -
  obtain b bs where r: "retrying s = b # bs"
    using assms(3) by (cases "retrying s") auto
  let ?q = "(retryQueue (out_qs s))\<lparr>chan_buf := [b]\<rparr>"
  let ?s = "s\<lparr>retrying := bs, out_qs := (out_qs s)\<lparr>retryQueue := ?q\<rparr>\<rparr>"
  have "chan_send (retryQueue (out_qs s)) b = Sent ?q"
    using assms(2,4) by (simp add: chan_send_def running_def queue_open_def)
  then have st: "transport_step s (ERetry 0 False) = Some ?s"
    by (simp add: transport_step_def r retry_select_def)
  have "running ?s" "weight ?s < weight s"
    using assms(2,4) r by (auto simp: running_def queue_open_def weight_def)
  then show ?thesis
    using st t_inv_step [OF assms(1) st] by (auto simp: advances_def)
qed

text \<open>A sending relay that takes a block from one of the queues writes it to its connection.\<close>

lemma link_out_advances:
  assumes "t_inv s" and "running s" and "j < length (links s)" and "link_alive (links s ! j)"
    and "OutboundRelay_step WriteOk pick (l_pc (links s ! j)) (out_qs s) (l_tx (links s ! j)) no_stats = (pc, qs, t, g, None)"
    and "pc \<noteq> RelayEnded" and "\<not> t_connClosed t" and "\<not> t_ctxDone t"
    and "queue_open (normalQueue qs)" "queue_open (retryQueue qs)" and "length (taken (out_qs s) qs) = 1"
    and "length (chan_buf (normalQueue qs)) + length (chan_buf (retryQueue qs)) <
         length (chan_buf (normalQueue (out_qs s))) + length (chan_buf (retryQueue (out_qs s)))"
  shows "\<exists>s'. transport_step s (EOut j WriteOk pick) = Some s' \<and> advances s s'"
proof -
  let ?l = "links s ! j"
  let ?l' = "?l\<lparr>l_tx := t, l_pc := pc, l_carry := l_carry ?l @ taken (out_qs s) qs\<rparr>"
  let ?s = "s\<lparr>out_qs := qs, links := (links s)[j := ?l']\<rparr>"
  have st: "transport_step s (EOut j WriteOk pick) = Some ?s"
    using assms(3,5) by (simp add: transport_step_def link_out_def Let_def)
  have al: "link_alive ?l'"
    using assms(4,6-8) by (simp add: link_alive_def)
  have "running ?s"
    by (rule running_link [OF assms(2,3) al]) (use assms(9,10) in simp_all)
  moreover have "weight ?s < weight s"
    using carry_sum [OF assms(3), of ?l'] assms(11,12) by (simp add: weight_def)
  ultimately show ?thesis
    using st t_inv_step [OF assms(1) st] by (auto simp: advances_def)
qed

lemma queue_advances:
  assumes "t_inv s" and "running s" and "j < length (links s)" and "link_alive (links s ! j)"
    and "chan_buf (retryQueue (out_qs s)) \<noteq> [] \<or>
         chan_buf (normalQueue (out_qs s)) \<noteq> [] \<and> l_pc (links s ! j) = AtSelect"
  shows "\<exists>pick s'. transport_step s (EOut j WriteOk pick) = Some s' \<and> advances s s'"
proof -
  let ?l = "links s ! j" and ?qs = "out_qs s"
  have alive: "\<not> t_connClosed (l_tx ?l)" "\<not> t_ctxDone (l_tx ?l)" "l_pc ?l \<noteq> RelayEnded"
    using assms(4) by (simp_all add: link_alive_def)
  have opn: "queue_open (normalQueue ?qs)" "queue_open (retryQueue ?qs)"
    using assms(2) by (simp_all add: running_def)
  have wf: "block_wf b" if "b \<in> queued_blocks ?qs" for b
    using that assms(1) by (auto simp: t_inv_def waiting_def known_def queued_blocks_def)
  note send = link_out_advances [OF assms(1-4)]
  show ?thesis
  proof (cases "chan_buf (retryQueue ?qs)")
    case (Cons b xs)
    then have "block_wf b"
      by (intro wf) (simp add: queued_blocks_def)
    note pk = packThenSend_ok [OF alive(1) this, of True no_stats]
    let ?qs' = "?qs\<lparr>retryQueue := (retryQueue ?qs)\<lparr>chan_buf := xs\<rparr>\<rparr>"
    let ?pc = "if l_pc ?l = AtTop then AtSelect else AtTop"
    have st: "OutboundRelay_step WriteOk PickRetry (l_pc ?l) ?qs (l_tx ?l) no_stats =
        (?pc, ?qs', fst (packThenSend WriteOk b True (l_tx ?l) no_stats),
         fst (snd (packThenSend WriteOk b True (l_tx ?l) no_stats)), None)"
      using Cons alive by (cases "l_pc ?l") (simp_all add: OutboundRelay_step_def chan_recv_def send_from_def pk)
    have "\<exists>s'. transport_step s (EOut j WriteOk PickRetry) = Some s' \<and> advances s s'"
      by (rule send [OF st]) (use Cons alive opn in \<open>simp_all add: pk taken_def queue_open_def\<close>)
    then show ?thesis
      by blast
  next
    case Nil
    then obtain b xs where n: "chan_buf (normalQueue ?qs) = b # xs" and pc: "l_pc ?l = AtSelect"
      using assms(5) by (cases "chan_buf (normalQueue ?qs)") auto
    then have "block_wf b"
      by (intro wf) (simp add: queued_blocks_def)
    note pk = packThenSend_ok [OF alive(1) this, of True no_stats]
    let ?qs' = "?qs\<lparr>normalQueue := (normalQueue ?qs)\<lparr>chan_buf := xs\<rparr>\<rparr>"
    have st: "OutboundRelay_step WriteOk PickNormal (l_pc ?l) ?qs (l_tx ?l) no_stats =
        (AtTop, ?qs', fst (packThenSend WriteOk b True (l_tx ?l) no_stats),
         fst (snd (packThenSend WriteOk b True (l_tx ?l) no_stats)), None)"
      using n pc by (simp add: OutboundRelay_step_def chan_recv_def send_from_def pk)
    have "\<exists>s'. transport_step s (EOut j WriteOk PickNormal) = Some s' \<and> advances s s'"
      by (rule send [OF st]) (use n alive opn in \<open>simp_all add: pk taken_def queue_open_def\<close>)
    then show ?thesis
      by blast
  qed
qed

text \<open>At the top of its loop, with nothing to retry, a relay goes on to its \<^verbatim>\<open>select\<close>.\<close>

lemma relay_to_select:
  assumes "running s" and "j < length (links s)" and "link_alive (links s ! j)"
    and "chan_buf (retryQueue (out_qs s)) = []" and "l_pc (links s ! j) = AtTop"
  shows "transport_step s (EOut j WriteOk PickDone) =
    Some (s\<lparr>links := (links s)[j := (links s ! j)\<lparr>l_pc := AtSelect\<rparr>]\<rparr>)"
  using assms
  by (simp add: transport_step_def link_out_def OutboundRelay_step_def chan_recv_def running_def queue_open_def
      link_alive_def taken_def Let_def)

lemma send_advances:
  assumes "t_inv s" and "running s"
    and "chan_buf (retryQueue (out_qs s)) \<noteq> [] \<or> chan_buf (normalQueue (out_qs s)) \<noteq> []"
  shows "\<exists>evs s'. transport_run s evs = Some s' \<and> advances s s'"
proof -
  obtain j where j: "j < length (links s)" "link_alive (links s ! j)"
    using assms(2) by (auto simp: running_def list_ex_iff in_set_conv_nth)
  have one: ?thesis if "transport_step s ev = Some s'" "advances s s'" for ev s'
    using that by (intro exI [of _ "[ev]"] exI [of _ s']) simp
  show ?thesis
  proof (cases "chan_buf (retryQueue (out_qs s)) = [] \<and> l_pc (links s ! j) = AtTop")
    case False
    then have "chan_buf (retryQueue (out_qs s)) \<noteq> [] \<or>
        chan_buf (normalQueue (out_qs s)) \<noteq> [] \<and> l_pc (links s ! j) = AtSelect"
      using assms(3) j(2) by (cases "l_pc (links s ! j)") (auto simp: link_alive_def)
    then show ?thesis
      using queue_advances [OF assms(1,2) j] one by blast
  next
    case True
    let ?s = "s\<lparr>links := (links s)[j := (links s ! j)\<lparr>l_pc := AtSelect\<rparr>]\<rparr>"
    have st: "transport_step s (EOut j WriteOk PickDone) = Some ?s"
      using relay_to_select [OF assms(2) j] True by simp
    have "link_alive ((links s ! j)\<lparr>l_pc := AtSelect\<rparr>)"
      using j(2) by (simp add: link_alive_def)
    then have run: "running ?s" and al: "link_alive (links ?s ! j)"
      using running_link [OF assms(2) j(1), of _ ?s] assms(2) j(1) by (auto simp: running_def)
    obtain pick s' where s': "transport_step ?s (EOut j WriteOk pick) = Some s'" "advances ?s s'"
      using queue_advances [OF t_inv_step [OF assms(1) st] run _ al] j(1) assms(3) True by auto
    have "weight ?s = weight s"
      using carry_sum [OF j(1), of "(links s ! j)\<lparr>l_pc := AtSelect\<rparr>"] by (simp add: weight_def)
    then have "advances s s'"
      using s'(2) by (simp add: advances_def)
    moreover have "transport_run s [EOut j WriteOk PickDone, EOut j WriteOk pick] = Some s'"
      using st s'(1) by simp
    ultimately show ?thesis
      by blast
  qed
qed

text \<open>The network can bring everything a sender has written to the other end.\<close>

definition flushed :: "link \<Rightarrow> link" where
  "flushed l = l\<lparr>l_tx := (l_tx l)\<lparr>t_out := []\<rparr>,
     l_rx := (l_rx l)\<lparr>t_in := (t_in (l_rx l))\<lparr>avail := avail (t_in (l_rx l)) @ t_out (l_tx l)\<rparr>\<rparr>\<rparr>"

lemma flush_step:
  "j < length (links s) \<Longrightarrow>
    transport_step s (ENet j (length (t_out (l_tx (links s ! j))))) = Some (s\<lparr>links := (links s)[j := flushed (links s ! j)]\<rparr>)"
  by (simp add: transport_step_def link_net_def flushed_def Let_def)

lemma flushed_sels [simp]:
  "l_carry (flushed l) = l_carry l" "link_alive (flushed l) = link_alive l"
  by (simp_all add: flushed_def link_alive_def)

lemma flushed_read:
  assumes "link_ok s l" and "link_alive l" and "l_carry l = c # cs"
  shows "NewBlockFromReader (t_in (l_rx (flushed l))) =
    (Inr (uncached c), \<lparr>avail = wire_all cs, final = final (t_in (l_rx l))\<rparr>)"
proof -
  have bytes: "avail (t_in (l_rx l)) @ t_out (l_tx l) = wire c @ wire_all cs" and "carried s c"
    using assms by (auto simp: link_ok_def link_bytes_def link_alive_def)
  have "t_in (l_rx (flushed l)) = \<lparr>avail = wire c @ wire_all cs, final = final (t_in (l_rx l))\<rparr>"
    by (cases "t_in (l_rx l)") (simp add: flushed_def bytes [symmetric])
  then show ?thesis
    using NewBlockFromReader_wire [OF carried_wf [OF \<open>carried s c\<close>]] by simp
qed

text \<open>A block that is on its way through a working tunnel can be brought and read.\<close>

lemma read_advances:
  assumes "t_inv s" and "running s" and "j < length (links s)" and "l_carry (links s ! j) = c # cs"
  shows "\<exists>evs s'. transport_run s evs = Some s' \<and> advances s s'"
proof -
  let ?l = "flushed (links s ! j)"
  let ?s1 = "s\<lparr>links := (links s)[j := ?l]\<rparr>"
  have "link_alive (links s ! j) \<or> l_carry (links s ! j) = []"
    using assms(2,3) by (simp add: running_def list_all_length)
  then have al: "link_alive (links s ! j)"
    using assms(4) by simp
  then have rx: "\<not> t_connClosed (l_rx ?l)" "\<not> t_ctxDone (l_rx ?l)"
    by (simp_all add: link_alive_def flushed_def)
  note rd = flushed_read [OF t_inv_link_ok [OF assms(1,3)] al assms(4)]
  have "tx_ok s" "carried s c"
    using assms(1,4) t_inv_link_ok [OF assms(1,3)] by (auto simp: t_inv_def link_ok_def)
  then have ctl: "is_control (uncached c) \<longrightarrow> 8 \<le> length (BlockData (uncached c))"
    using carried_cong [OF uncached_idem] by simp
  obtain out o' t g where round: "InboundRelay_step 0 WriteOk (l_rx ?l) no_stats = (out, o', t, g)"
    by (metis prod_cases4)
  have t: "\<not> t_connClosed t" "\<not> t_ctxDone t"
    using InboundRelay_step_read [OF rx rd ctl round] rx by simp_all
  let ?l2 = "?l\<lparr>l_rx := t, l_carry := cs\<rparr>"
  let ?s2 = "?s1\<lparr>links := (links s)[j := ?l2], inq := inq s @ (case out of None \<Rightarrow> [] | Some b \<Rightarrow> [b])\<rparr>"
  have st: "transport_step ?s1 (EIn j 0 WriteOk) = Some ?s2"
    using assms(3,4) round rd rx by (simp add: transport_step_def link_in_def readable_def Let_def)
  have al2: "link_alive ?l2"
    using al t by (simp add: link_alive_def flushed_def)
  have "running ?s2"
    by (rule running_link [OF assms(2,3) al2]) (use assms(2) in \<open>simp_all add: running_def\<close>)
  moreover have "weight ?s2 < weight s"
    using carry_sum [OF assms(3), of ?l2] assms(4) by (simp add: weight_def split: option.split)
  ultimately have "advances s ?s2"
    using t_inv_step [OF t_inv_step [OF assms(1) flush_step [OF assms(3)]] st] by (simp add: advances_def)
  moreover have "transport_run s [ENet j (length (t_out (l_tx (links s ! j)))), EIn j 0 WriteOk] = Some ?s2"
    using flush_step [OF assms(3)] st by simp
  ultimately show ?thesis
    by blast
qed

section \<open>Every working transport can finish\<close>

lemma progress:
  assumes "t_inv s" and "running s" and "dropped s = []" and "\<not> quiet s"
  shows "\<exists>evs s'. transport_run s evs = Some s' \<and> advances s s'"
proof -
  have one: ?thesis if "\<exists>s'. transport_step s ev = Some s' \<and> advances s s'" for ev
    using that by (auto intro: exI [of _ "[ev]"])
  consider (deliver) "inq s \<noteq> []"
    | (read) j c cs where "j < length (links s)" "l_carry (links s ! j) = c # cs"
    | (send) "chan_buf (retryQueue (out_qs s)) \<noteq> [] \<or> chan_buf (normalQueue (out_qs s)) \<noteq> []"
    | (enqueue) "outbox s \<noteq> []" "chan_buf (normalQueue (out_qs s)) = []"
    | (retry) "retrying s \<noteq> []" "chan_buf (retryQueue (out_qs s)) = []"
    using assms(3,4) unfolding quiet_def waiting_def list_all_length append_is_Nil_conv by (metis list.exhaust)
  then show ?thesis
  proof cases
    case deliver
    then show ?thesis
      using one deliver_advances [OF assms(1,2)] by blast
  next
    case (read j c cs)
    then show ?thesis
      using read_advances [OF assms(1,2)] by blast
  next
    case send
    then show ?thesis
      using send_advances [OF assms(1,2)] by blast
  next
    case enqueue
    then show ?thesis
      using one enqueue_advances [OF assms(1,2)] by blast
  next
    case retry
    then show ?thesis
      using one retry_advances [OF assms(1,2)] by blast
  qed
qed

lemma transport_run_append:
  "transport_run s (evs @ evs') = (case transport_run s evs of None \<Rightarrow> None | Some s' \<Rightarrow> transport_run s' evs')"
  by (induction evs arbitrary: s) (auto split: option.split)

lemma can_become_quiet:
  assumes "t_inv s" and "running s" and "dropped s = []"
  shows "\<exists>evs s'. transport_run s evs = Some s' \<and> quiet s' \<and> sent s' = sent s"
  using assms
proof (induction "weight s" arbitrary: s rule: less_induct)
  case less
  show ?case
  proof (cases "quiet s")
    case True
    then show ?thesis
      by (intro exI [of _ "[]"]) simp
  next
    case False
    then obtain evs s1 where s1: "transport_run s evs = Some s1" "advances s s1"
      using progress less.prems by blast
    then obtain evs' s' where "transport_run s1 evs' = Some s'" "quiet s'" "sent s' = sent s1"
      using less.hyps [of s1] less.prems by (auto simp: advances_def)
    then show ?thesis
      using s1 by (intro exI [of _ "evs @ evs'"]) (simp add: transport_run_append advances_def)
  qed
qed



end
