(* ===== verification/Idle_Peer.thy ===== *)
theory Idle_Peer
  imports Tunnel_Pool
begin

text \<open>
  The life of a server peer (\<^verbatim>\<open>tunnel_pool/pool.go\<close> with \<^verbatim>\<open>ServerManager\<close> of
  \<^verbatim>\<open>tunnel_pool/manager.go\<close>): tunnels are added and removed, time passes in seconds, and a
  countdown that was not cancelled ends and removes the peer. \<open>sp_empty_since\<close> is a history
  variable: the time at which the pool lost its last tunnel, as long as it has none.
\<close>

section \<open>The step relation\<close>

record server_peer =
  sp_pool :: TunnelPool
  sp_stats :: "Stats \<times> Stats"
  sp_now :: nat
  sp_removed :: "nat option"        \<comment> \<open>when \<^verbatim>\<open>removePeerFunc\<close> was first called\<close>
  sp_empty_since :: "nat option"

definition sp_init :: "nat \<Rightarrow> nat \<Rightarrow> u32 \<Rightarrow> nat \<Rightarrow> Stats \<times> Stats \<Rightarrow> server_peer" where
  "sp_init sq rq pid now g =
     \<lparr>sp_pool = NewTunnelPool sq rq pid (MServer NewServerManager), sp_stats = g, sp_now = now,
      sp_removed = None, sp_empty_since = None\<rparr>"

definition the_sm :: "server_peer \<Rightarrow> ServerManager" where
  "the_sm s = (case manager (sp_pool s) of MServer sm \<Rightarrow> sm | MClient _ \<Rightarrow> NewServerManager)"

definition sp_add :: "int \<Rightarrow> Tunnel \<Rightarrow> server_peer \<Rightarrow> server_peer" where
  "sp_add PingInterval tun s =
     (case AddTunnel PingInterval (sp_now s) tun (sp_pool s) (sp_stats s) of
        (tp, g, _) \<Rightarrow> s\<lparr>sp_pool := tp, sp_stats := g, sp_empty_since := None\<rparr>)"

definition sp_remove :: "Tunnel \<Rightarrow> server_peer \<Rightarrow> server_peer" where
  "sp_remove tun s =
     (case RemoveTunnel (sp_now s) tun (sp_pool s) (sp_stats s) of
        (tp, g) \<Rightarrow>
          s\<lparr>sp_pool := tp, sp_stats := g,
            sp_empty_since :=
              (if tunnelMapping (sp_pool s) \<noteq> [] \<and> tunnelMapping tp = [] then Some (sp_now s)
               else sp_empty_since s)\<rparr>)"

definition sp_fire :: "nat \<Rightarrow> server_peer \<Rightarrow> server_peer" where
  "sp_fire i s =
     s\<lparr>sp_removed := (case sp_removed s of None \<Rightarrow> Some (sp_now s) | Some t \<Rightarrow> Some t),
       sp_pool := (sp_pool s)\<lparr>manager :=
         MServer ((the_sm s)\<lparr>countdowns := filter (\<lambda>(j, _). j \<noteq> i) (countdowns (the_sm s))\<rparr>)\<rparr>\<rparr>"

inductive sp_step :: "int \<Rightarrow> nat \<Rightarrow> server_peer \<Rightarrow> server_peer \<Rightarrow> bool" for PingInterval EmptyPoolDestroySec where
  add: "sp_step PingInterval EmptyPoolDestroySec s (sp_add PingInterval tun s)"
| remove: "sp_step PingInterval EmptyPoolDestroySec s (sp_remove tun s)"
| tick: "sp_step PingInterval EmptyPoolDestroySec s (s\<lparr>sp_now := sp_now s + 1\<rparr>)"
| fire: "(i, t) \<in> set (countdowns (the_sm s)) \<Longrightarrow> t + EmptyPoolDestroySec \<le> sp_now s \<Longrightarrow>
    sp_step PingInterval EmptyPoolDestroySec s (sp_fire i s)"

inductive_cases sp_stepE: "sp_step PingInterval EmptyPoolDestroySec s s'"

inductive sp_reachable :: "int \<Rightarrow> nat \<Rightarrow> server_peer \<Rightarrow> bool" for PingInterval EmptyPoolDestroySec where
  start: "sp_reachable PingInterval EmptyPoolDestroySec (sp_init sq rq pid now g)"
| step: "sp_reachable PingInterval EmptyPoolDestroySec s \<Longrightarrow> sp_step PingInterval EmptyPoolDestroySec s s' \<Longrightarrow>
    sp_reachable PingInterval EmptyPoolDestroySec s'"

section \<open>The invariant\<close>

text \<open>
  The manager's flag is up exactly while the pool is empty after having lost its tunnels; at
  most one countdown waits, it is the one \<open>cancelCountDownFunc\<close> would cancel, and it was
  started when the pool became empty. A peer that is empty and not yet removed has one.
\<close>

definition sp_inv :: "server_peer \<Rightarrow> bool" where
  "sp_inv s \<longleftrightarrow>
     (\<exists>sm. manager (sp_pool s) = MServer sm \<and>
       map_ok (tunnelMapping (sp_pool s)) \<and>
       (triggered sm \<longleftrightarrow> sp_empty_since s \<noteq> None) \<and>
       (sp_empty_since s \<noteq> None \<longrightarrow> tunnelMapping (sp_pool s) = []) \<and>
       (countdowns sm = [] \<or>
         (\<exists>i t. countdowns sm = [(i, t)] \<and> cancelCountDownFunc sm = Some i \<and> sp_empty_since s = Some t)) \<and>
       (sp_empty_since s \<noteq> None \<and> sp_removed s = None \<longrightarrow> countdowns sm \<noteq> []))"

lemma map_put_nonempty [simp]: "map_put k v m \<noteq> []"
  by (metis map_get_empty map_get_put option.distinct(1))

lemma sp_inv_init: "sp_inv (sp_init sq rq pid now g)"
  by (simp add: sp_inv_def sp_init_def NewTunnelPool_def NewServerManager_def)

lemma sp_inv_add: "sp_inv s \<Longrightarrow> sp_inv (sp_add ival tun s)"
  by (auto simp: sp_inv_def sp_add_def AddTunnel_def mgr_Notify_def sm_Notify_def cancel_countdown_def
      map_len_0 Let_def split: option.splits)

lemma sm_Notify_nonempty:
  "n \<noteq> 0 \<Longrightarrow> \<not> triggered sm \<Longrightarrow> sm_Notify now n sm = sm"
  by (simp add: sm_Notify_def)

lemma sp_inv_remove: "sp_inv s \<Longrightarrow> sp_inv (sp_remove tun s)"
proof -
  assume inv: "sp_inv s"
  then obtain sm where sm: "manager (sp_pool s) = MServer sm"
    by (auto simp: sp_inv_def)
  let ?m = "tunnelMapping (sp_pool s)"
  show ?thesis
  proof (cases "map_get ?m (tunnelID tun)")
    case None
    then show ?thesis
      using inv by (simp add: sp_remove_def RemoveTunnel_def sp_inv_def)
  next
    case (Some tun1)
    then have ne: "?m \<noteq> []" by auto
    then have idle: "sp_empty_since s = None" "\<not> triggered sm" "countdowns sm = []" "map_ok ?m"
      using inv sm by (auto simp: sp_inv_def)
    show ?thesis
    proof (cases "map_del (tunnelID tun1) ?m = []")
      case True
      then show ?thesis
        using Some ne idle sm map_ok_empty
        by (auto simp: sp_remove_def RemoveTunnel_def sp_inv_def mgr_Notify_def sm_Notify_def
            cancel_countdown_def Let_def split: option.splits)
    next
      case False
      then show ?thesis
        using Some idle sm
        by (simp add: sp_remove_def RemoveTunnel_def sp_inv_def mgr_Notify_def sm_Notify_nonempty
            map_len_0 Let_def)
    qed
  qed
qed

lemma sp_inv_fire: "sp_inv s \<Longrightarrow> sp_inv (sp_fire i s)"
  by (auto simp: sp_inv_def sp_fire_def the_sm_def split: option.splits if_splits)

lemma sp_inv_step: "sp_step ival dur s s' \<Longrightarrow> sp_inv s \<Longrightarrow> sp_inv s'"
  by (erule sp_stepE) (auto simp: sp_inv_add sp_inv_remove sp_inv_fire, auto simp: sp_inv_def)

lemma sp_reachable_inv: "sp_reachable ival dur s \<Longrightarrow> sp_inv s"
  by (induction rule: sp_reachable.induct) (auto intro: sp_inv_init sp_inv_step)

section \<open>Properties of idle peers\<close>


text \<open>
  An idle peer can be removed. In every reachable state in which the pool has had no tunnel
  for \<open>EmptyPoolDestroySec\<close> seconds and the peer has not been removed, the step that removes it
  is enabled.
\<close>

theorem idle_peer_removable:
  assumes "sp_reachable PingInterval EmptyPoolDestroySec s" and "sp_empty_since s = Some t"
    and "sp_removed s = None" and "t + EmptyPoolDestroySec \<le> sp_now s"
  shows "\<exists>s'. sp_step PingInterval EmptyPoolDestroySec s s' \<and> sp_removed s' = Some (sp_now s)"
proof -
  obtain i where "(i, t) \<in> set (countdowns (the_sm s))"
    using sp_reachable_inv [OF assms(1)] assms(2,3) by (auto simp: sp_inv_def the_sm_def)
  then have "sp_step PingInterval EmptyPoolDestroySec s (sp_fire i s)"
    using assms(4) by (rule sp_step.fire)
  then show ?thesis
    using assms(3) by (auto simp: sp_fire_def)
qed

text \<open>A run for the witnesses: one tunnel is added and removed, then two seconds pass.\<close>

definition idle_run :: server_peer where
  "idle_run = (let s = sp_remove (tun_no 1) (sp_add 30 (tun_no 1) (sp_init 64 64 9 0 (NewStats 1, NewStats 1)))
     in s\<lparr>sp_now := sp_now s + 1\<rparr>)"

lemma idle_run_reachable: "sp_reachable 30 1 idle_run"
  unfolding idle_run_def Let_def by (intro sp_reachable.step [OF _ sp_step.tick]
      sp_reachable.step [OF _ sp_step.remove] sp_reachable.step [OF _ sp_step.add] sp_reachable.start)

lemma idle_run_state:
  "sp_empty_since idle_run = Some 0" "sp_removed idle_run = None" "sp_now idle_run = 1"
  by (simp_all add: idle_run_def sp_init_def sp_add_def AddTunnel_def sp_remove_def RemoveTunnel_def
      NewTunnelPool_def map_put_def map_del_def map_get_def AList.delete_eq tun_no_def newTunnelWithID_def Let_def)

theorem idle_peer_removable_witness:
  "\<exists>s'. sp_step 30 1 idle_run s' \<and> sp_removed s' = Some 1"
  using idle_peer_removable [OF idle_run_reachable idle_run_state(1,2)] idle_run_state(3) by simp


end
