(* ===== verification/Status_Server.thy ===== *)
theory Status_Server
  imports Cmd_Config Peer_Group
begin

text \<open>
  The status server of \<^verbatim>\<open>cmd/rabbit.go\<close>: the access list, basic authentication, the pages of the
  client's and the server's status server and the export of the statistics as gauges. The parsing of
  addresses and networks belongs to \<^verbatim>\<open>net\<close> and appears as the arguments \<open>splitHostPort\<close>, \<open>parseIP\<close> and
  \<open>parseCIDR\<close> (a network is the set of addresses it contains, as a predicate); JSON and the text format
  of the metrics are not modelled, a page is the data that is encoded.
\<close>

section \<open>The access list\<close>

datatype acl_error = HostPortError | CIDRError string

text \<open>The inner loop over an entry that holds commas: parts that do not parse are skipped.\<close>

fun scan_parts :: "(string \<Rightarrow> ('ip \<Rightarrow> bool) option) \<Rightarrow> 'ip \<Rightarrow> string list \<Rightarrow> bool" where
  "scan_parts parseCIDR ip [] = False"
| "scan_parts parseCIDR ip (subnet1 # rest) =
     (case parseCIDR subnet1 of
        None \<Rightarrow> scan_parts parseCIDR ip rest
      | Some cidr \<Rightarrow> if cidr ip then True else scan_parts parseCIDR ip rest)"

fun scan_subnets :: "(string \<Rightarrow> ('ip \<Rightarrow> bool) option) \<Rightarrow> 'ip \<Rightarrow> string list \<Rightarrow> acl_error + bool" where
  "scan_subnets parseCIDR ip [] = Inr False"
| "scan_subnets parseCIDR ip (subnet # rest) =
     (if CHR '','' \<in> set subnet then
        (if scan_parts parseCIDR ip (split_on (CHR '','') subnet) then Inr True
         else scan_subnets parseCIDR ip rest)
      else
        (case parseCIDR subnet of
           None \<Rightarrow> Inl (CIDRError subnet)
         | Some cidr \<Rightarrow> if cidr ip then Inr True else scan_subnets parseCIDR ip rest))"

text \<open>
  \<open>IsIPInSubnets\<close>. When the address cannot be split, \<^verbatim>\<open>net.SplitHostPort\<close> has already replaced it by the
  empty string, which is what is trimmed and parsed.
\<close>

definition IsIPInSubnets ::
    "(string \<Rightarrow> string option) \<Rightarrow> (string \<Rightarrow> 'ip option) \<Rightarrow> (string \<Rightarrow> ('ip \<Rightarrow> bool) option) \<Rightarrow>
     string \<Rightarrow> string list \<Rightarrow> acl_error + bool" where
  "IsIPInSubnets splitHostPort parseIP parseCIDR ipStr subnets =
     (if subnets = [] then Inr True
      else
        let (host, failed) = (case splitHostPort ipStr of Some h \<Rightarrow> (h, False) | None \<Rightarrow> (TrimSpace '''', True)) in
        (case parseIP host of
           None \<Rightarrow> (if failed then Inl HostPortError else Inr False)
         | Some ip \<Rightarrow> scan_subnets parseCIDR ip subnets))"

text \<open>The entries of the access list as the status servers prepare them.\<close>

definition status_acls :: "string \<Rightarrow> string list" where
  "status_acls acl =
     (let acls = split_on (CHR '','') acl;
          acls1 = (if acls = [''''] then [''0.0.0.0/0''] else acls)
      in map (\<lambda>a. if CHR ''/'' \<notin> set a then a @ ''/32'' else a) acls1)"

text \<open>User name, password and the address to listen on, from \<^verbatim>\<open>user:password@address\<close>.\<close>

definition status_listen :: "string \<Rightarrow> string \<times> string \<times> string" where
  "status_listen listen =
     (let atIndex = find_str listen ''@'' in
      if atIndex > 0 then
        (let authPart = take (nat atIndex) listen;
             addr = drop (nat atIndex + 1) listen;
             colonIndex = find_str authPart '':'' in
         if colonIndex > 0
         then (take (nat colonIndex) authPart, drop (nat colonIndex + 1) authPart, addr)
         else ('''', '''', addr))
      else ('''', '''', listen))"

section \<open>Requests\<close>

record http_request =
  RemoteAddr :: string
  URLPath :: string
  BasicAuth :: "(string \<times> string) option"

definition checkBasicAuth :: "http_request \<Rightarrow> string \<Rightarrow> string \<Rightarrow> bool" where
  "checkBasicAuth r username password =
     (case BasicAuth r of
        None \<Rightarrow> False
      | Some (user, pass) \<Rightarrow> user = username \<and> pass = password)"

datatype gate = Pass | AclError | AclBlocked | AuthBlocked

text \<open>What every handler does first: the access list, then basic authentication when a user is configured.\<close>

definition status_gate ::
    "(string \<Rightarrow> string option) \<Rightarrow> (string \<Rightarrow> 'ip option) \<Rightarrow> (string \<Rightarrow> ('ip \<Rightarrow> bool) option) \<Rightarrow>
     string list \<Rightarrow> string \<Rightarrow> string \<Rightarrow> http_request \<Rightarrow> gate" where
  "status_gate splitHostPort parseIP parseCIDR acls username password r =
     (case IsIPInSubnets splitHostPort parseIP parseCIDR (RemoteAddr r) acls of
        Inl _ \<Rightarrow> AclError
      | Inr isAllowed \<Rightarrow>
          if \<not> isAllowed then AclBlocked
          else if username \<noteq> '''' \<and> \<not> checkBasicAuth r username password then AuthBlocked
          else Pass)"

section \<open>The exported metrics\<close>

text \<open>
  The values of the statistics map carry their dynamic type. \<open>MemStats\<close> holds what the runtime
  reports; floating point numbers are rationals.
\<close>

datatype go_value = GoUint64 u64 | GoUint32 u32 | GoInt32 i32 | GoInt int | GoFloat64 rat | GoTime int

record MemStats =
  NumGoroutine :: int
  Alloc :: u64
  TotalAlloc :: u64
  HeapAlloc :: u64
  Sys :: u64
  HeapSys :: u64
  HeapIdle :: u64
  HeapInuse :: u64
  HeapReleased :: u64
  HeapObjects :: u64
  Mallocs :: u64
  Frees :: u64
  PauseTotalNs :: u64
  NumGC :: u32
  LastGC :: u64

definition stats_data :: "Stats \<Rightarrow> MemStats \<Rightarrow> (string \<times> go_value) list" where
  "stats_data s m =
     (let v = GetStats s in
      [(''total_sent_bytes'', GoUint64 (total_sent_bytes v)),
       (''total_recv_bytes'', GoUint64 (total_recv_bytes v)),
       (''tunnel_count'', GoInt32 (tunnel_count v)),
       (''connection_count'', GoInt32 (connection_count v)),
       (''send_rate_Bps'', GoFloat64 (send_rate_Bps v)),
       (''recv_rate_Bps'', GoFloat64 (recv_rate_Bps v)),
       (''goroutine_count'', GoInt (NumGoroutine m)),
       (''mem_alloc'', GoUint64 (Alloc m)),
       (''total_mem_alloc'', GoUint64 (TotalAlloc m)),
       (''mem_heap_alloc'', GoUint64 (HeapAlloc m)),
       (''mem_sys'', GoUint64 (Sys m)),
       (''heap_sys'', GoUint64 (HeapSys m)),
       (''heap_idle'', GoUint64 (HeapIdle m)),
       (''heap_inuse'', GoUint64 (HeapInuse m)),
       (''heap_released'', GoUint64 (HeapReleased m)),
       (''heap_objects'', GoUint64 (HeapObjects m)),
       (''obj_mallocs'', GoUint64 (Mallocs m)),
       (''obj_release'', GoUint64 (Frees m)),
       (''gc_pause_ms'', GoFloat64 (of_nat (unat (PauseTotalNs m)) / 1000000)),
       (''gc_count'', GoUint32 (NumGC m)),
       (''last_gc'', GoTime (sint (LastGC m)))])"

text \<open>The type assertions: \<open>None\<close> when the value has another dynamic type or is missing.\<close>

fun as_uint64 :: "go_value option \<Rightarrow> rat option" where
  "as_uint64 (Some (GoUint64 v)) = Some (of_nat (unat v))"
| "as_uint64 _ = None"

fun as_uint32 :: "go_value option \<Rightarrow> rat option" where
  "as_uint32 (Some (GoUint32 v)) = Some (of_nat (unat v))"
| "as_uint32 _ = None"

fun as_int :: "go_value option \<Rightarrow> rat option" where
  "as_int (Some (GoInt v)) = Some (of_int v)"
| "as_int _ = None"

fun as_float64 :: "go_value option \<Rightarrow> rat option" where
  "as_float64 (Some (GoFloat64 v)) = Some v"
| "as_float64 _ = None"

fun as_unix_time :: "go_value option \<Rightarrow> rat option" where
  "as_unix_time (Some (GoTime ns)) = Some (of_int (ns div 1000000000))"
| "as_unix_time _ = None"

datatype gauge =
  TotalSentGauge | TotalRecvGauge | ConnectionCountGauge | TunnelCountGauge | SendRateGauge | RecvRateGauge |
  GoroutineGauge | MemAllocGauge | MemHeapAllocGauge | TotalMemAllocGauge | MemSysGauge | HeapSysGauge |
  HeapIdleGauge | HeapInuseGauge | HeapReleasedGauge | HeapObjectsGauge | ObjMallocsGauge | ObjFreesGauge |
  GcPauseGauge | GcCountGauge | LastGcGauge

fun gauge_name :: "gauge \<Rightarrow> string" where
  "gauge_name TotalSentGauge = ''rabbit_network_total_sent_bytes''"
| "gauge_name TotalRecvGauge = ''rabbit_network_total_recv_bytes''"
| "gauge_name ConnectionCountGauge = ''rabbit_network_connection_count''"
| "gauge_name TunnelCountGauge = ''rabbit_network_tunnel_count''"
| "gauge_name SendRateGauge = ''rabbit_network_send_rate_bps''"
| "gauge_name RecvRateGauge = ''rabbit_network_recv_rate_bps''"
| "gauge_name GoroutineGauge = ''rabbit_runtime_goroutine_count''"
| "gauge_name MemAllocGauge = ''rabbit_memstats_alloc_bytes''"
| "gauge_name TotalMemAllocGauge = ''rabbit_memstats_total_alloc_bytes''"
| "gauge_name MemHeapAllocGauge = ''rabbit_memstats_heap_alloc_bytes''"
| "gauge_name MemSysGauge = ''rabbit_memstats_sys_bytes''"
| "gauge_name HeapSysGauge = ''rabbit_memstats_heap_sys_bytes''"
| "gauge_name HeapIdleGauge = ''rabbit_memstats_heap_idle_bytes''"
| "gauge_name HeapInuseGauge = ''rabbit_memstats_heap_inuse_bytes''"
| "gauge_name HeapReleasedGauge = ''rabbit_memstats_heap_released_bytes''"
| "gauge_name HeapObjectsGauge = ''rabbit_memstats_heap_objects''"
| "gauge_name ObjMallocsGauge = ''rabbit_memstats_mallocs_total''"
| "gauge_name ObjFreesGauge = ''rabbit_memstats_frees_total''"
| "gauge_name GcPauseGauge = ''rabbit_runtime_gc_pause_ms''"
| "gauge_name GcCountGauge = ''rabbit_runtime_gc_count''"
| "gauge_name LastGcGauge = ''rabbit_runtime_last_gc_timestamp''"

text \<open>
  \<open>prom_init\<close> registers the gauges one by one; registering a name twice panics, which is \<open>None\<close>.
\<close>

fun register_all :: "gauge list \<Rightarrow> string list \<Rightarrow> string list option" where
  "register_all [] names = Some names"
| "register_all (x # xs) names =
     (if gauge_name x \<in> set names then None else register_all xs (gauge_name x # names))"

definition prom_init :: "string list \<Rightarrow> string list option" where
  "prom_init =
     register_all [TotalSentGauge, TotalRecvGauge, TunnelCountGauge, ConnectionCountGauge, SendRateGauge, RecvRateGauge,
       GoroutineGauge, MemAllocGauge, TotalMemAllocGauge, MemSysGauge, MemHeapAllocGauge, HeapSysGauge, HeapIdleGauge,
       HeapInuseGauge, HeapReleasedGauge, HeapObjectsGauge, ObjMallocsGauge, ObjFreesGauge, GcPauseGauge, GcCountGauge,
       LastGcGauge]"

definition set_gauge :: "gauge \<Rightarrow> rat option \<Rightarrow> (gauge \<Rightarrow> rat) \<Rightarrow> gauge \<Rightarrow> rat" where
  "set_gauge x v gs = (case v of None \<Rightarrow> gs | Some r \<Rightarrow> gs(x := r))"

definition updatePrometheusMetrics :: "(string \<times> go_value) list \<Rightarrow> (gauge \<Rightarrow> rat) \<Rightarrow> gauge \<Rightarrow> rat" where
  "updatePrometheusMetrics data gs =
     fold (\<lambda>(x, assertion, key). set_gauge x (assertion (map_of data key)))
       [(TotalSentGauge, as_uint64, ''total_sent_bytes''),
        (TotalRecvGauge, as_uint64, ''total_recv_bytes''),
        (ConnectionCountGauge, as_int, ''connection_count''),
        (TunnelCountGauge, as_int, ''tunnel_count''),
        (SendRateGauge, as_float64, ''send_rate_Bps''),
        (RecvRateGauge, as_float64, ''recv_rate_Bps''),
        (GoroutineGauge, as_int, ''goroutine_count''),
        (MemAllocGauge, as_uint64, ''mem_alloc''),
        (MemHeapAllocGauge, as_uint64, ''mem_heap_alloc''),
        (TotalMemAllocGauge, as_uint64, ''total_mem_alloc''),
        (MemSysGauge, as_uint64, ''mem_sys''),
        (HeapSysGauge, as_uint64, ''heap_sys''),
        (HeapIdleGauge, as_uint64, ''heap_idle''),
        (HeapInuseGauge, as_uint64, ''heap_inuse''),
        (HeapReleasedGauge, as_uint64, ''heap_released''),
        (HeapObjectsGauge, as_uint64, ''heap_objects''),
        (ObjMallocsGauge, as_uint64, ''obj_mallocs''),
        (ObjFreesGauge, as_uint64, ''obj_release''),
        (GcPauseGauge, as_float64, ''gc_pause_ms''),
        (GcCountGauge, as_uint32, ''gc_count''),
        (LastGcGauge, as_unix_time, ''last_gc'')] gs"

section \<open>The pages\<close>

datatype pools_info =
  OnePool tunnel_pool_info connection_pool_info
| AllPools "tunnel_pool_info list" "connection_pool_info list"

datatype page =
  ConfigPage Config
| StatusPage string "(string \<times> go_value) list" pools_info
| TunnelsPage "tunnel_info list"
| ConnectionsPage "connection_info list"
| MetricsPage "gauge \<Rightarrow> rat"

datatype reply =
  InternalServerError | Unauthorized bool | OK page | NotFound | MovedPermanently string

text \<open>The answer to a refused request; the flag tells whether the client is asked to authenticate.\<close>

definition refuse :: "gate \<Rightarrow> reply" where
  "refuse x = (case x of AclError \<Rightarrow> InternalServerError | AclBlocked \<Rightarrow> Unauthorized False | _ \<Rightarrow> Unauthorized True)"

definition config_handler :: "Config \<Rightarrow> gate \<Rightarrow> reply" where
  "config_handler cfg x = (if x = Pass then OK (ConfigPage cfg) else refuse x)"

text \<open>
  The body of the handler for \<^verbatim>\<open>/status/\<close>, from the data it has collected; it also returns the gauges.
\<close>

definition status_body ::
    "string \<Rightarrow> Config \<Rightarrow> (string \<times> go_value) list \<Rightarrow> pools_info \<Rightarrow> tunnel_info list \<Rightarrow> connection_info list \<Rightarrow>
     (gauge \<Rightarrow> rat) \<Rightarrow> reply \<times> (gauge \<Rightarrow> rat)" where
  "status_body path cfg statsData pools tunnelsInfo connectionsInfo gs =
     (if path = ''/status/'' then (OK (StatusPage (Mode cfg) statsData pools), gs)
      else if path = ''/status/tunnels'' then (OK (TunnelsPage tunnelsInfo), gs)
      else if path = ''/status/connections'' then (OK (ConnectionsPage connectionsInfo), gs)
      else if path = ''/status/metrics'' then
        (let gs' = updatePrometheusMetrics statsData gs in (OK (MetricsPage gs'), gs'))
      else (NotFound, gs))"

definition the_stats :: "Config \<Rightarrow> MemStats \<Rightarrow> Stats \<times> Stats \<Rightarrow> (string \<times> go_value) list" where
  "the_stats cfg m g = stats_data (if cfg_mode cfg = ClientMode then fst g else snd g) m"

text \<open>The client's status handler: the pools of its one peer.\<close>

definition status_handler1 ::
    "Config \<Rightarrow> Peer \<Rightarrow> MemStats \<Rightarrow> Stats \<times> Stats \<Rightarrow> gate \<Rightarrow> string \<Rightarrow> (gauge \<Rightarrow> rat) \<Rightarrow> reply \<times> (gauge \<Rightarrow> rat)" where
  "status_handler1 cfg p m g x path gs =
     (if x \<noteq> Pass then (refuse x, gs)
      else
        let cp = connectionPool p; tp = tunnelPool p;
            connectionsInfo = (if cfg_mode cfg = ClientMode then GetConnectionsInfo cp else []);
            tunnelsInfo = (if cfg_mode cfg = ClientMode then GetTunnelsInfo cp tp else [])
        in status_body path cfg (the_stats cfg m g) (OnePool (cp_GetTunnelPoolInfo cp tp) (GetConnectionPoolInfo cp tp))
             tunnelsInfo connectionsInfo gs)"

text \<open>The server's status handler: the pools of all peers.\<close>

definition status_handler2 ::
    "Config \<Rightarrow> PeerGroup \<Rightarrow> MemStats \<Rightarrow> Stats \<times> Stats \<Rightarrow> gate \<Rightarrow> string \<Rightarrow> (gauge \<Rightarrow> rat) \<Rightarrow> reply \<times> (gauge \<Rightarrow> rat)" where
  "status_handler2 cfg pg m g x path gs =
     (if x \<noteq> Pass then (refuse x, gs)
      else
        let on = (cfg_mode cfg = ServerMode);
            tunnelPools = (if on then GetAllTunnelPools pg else []);
            connectionPools = (if on then GetAllConnectionPools pg else []);
            tunnelPoolsInfo = map GetTunnelPoolInfo tunnelPools;
            tunnelsInfo = concat (map GetTunnelConnsInfo tunnelPools);
            connPoolsInfo = (if on then map (\<lambda>(_, p). GetConnectionPoolInfo (connectionPool p) (tunnelPool p)) pg else []);
            connectionsInfo = concat (map GetConnectionsInfo connectionPools)
        in status_body path cfg (the_stats cfg m g) (AllPools tunnelPoolsInfo connPoolsInfo)
             tunnelsInfo connectionsInfo gs)"

text \<open>
  The multiplexer: \<^verbatim>\<open>/config\<close> is an exact pattern, \<^verbatim>\<open>/status/\<close> a subtree, which \<^verbatim>\<open>net/http\<close> also
  redirects \<^verbatim>\<open>/status\<close> to.
\<close>

definition serve_mux ::
    "(gate \<Rightarrow> reply) \<Rightarrow> (gate \<Rightarrow> string \<Rightarrow> (gauge \<Rightarrow> rat) \<Rightarrow> reply \<times> (gauge \<Rightarrow> rat)) \<Rightarrow>
     (http_request \<Rightarrow> gate) \<Rightarrow> http_request \<Rightarrow> (gauge \<Rightarrow> rat) \<Rightarrow> reply \<times> (gauge \<Rightarrow> rat)" where
  "serve_mux config status decide r gs =
     (if URLPath r = ''/config'' then (config (decide r), gs)
      else if has_prefix ''/status/'' (URLPath r) then status (decide r) (URLPath r) gs
      else if URLPath r = ''/status'' then (MovedPermanently ''/status/'', gs)
      else (NotFound, gs))"

text \<open>One request to the client's and to the server's status server.\<close>

definition status_decide ::
    "(string \<Rightarrow> string option) \<Rightarrow> (string \<Rightarrow> 'ip option) \<Rightarrow> (string \<Rightarrow> ('ip \<Rightarrow> bool) option) \<Rightarrow>
     string \<Rightarrow> string \<Rightarrow> http_request \<Rightarrow> gate" where
  "status_decide splitHostPort parseIP parseCIDR listen acl =
     (let (username, password, _) = status_listen listen
      in status_gate splitHostPort parseIP parseCIDR (status_acls acl) username password)"

definition statusServer1 ::
    "(string \<Rightarrow> string option) \<Rightarrow> (string \<Rightarrow> 'ip option) \<Rightarrow> (string \<Rightarrow> ('ip \<Rightarrow> bool) option) \<Rightarrow>
     string \<Rightarrow> string \<Rightarrow> Config \<Rightarrow> Peer \<Rightarrow> MemStats \<Rightarrow> Stats \<times> Stats \<Rightarrow> http_request \<Rightarrow> (gauge \<Rightarrow> rat) \<Rightarrow>
     reply \<times> (gauge \<Rightarrow> rat)" where
  "statusServer1 splitHostPort parseIP parseCIDR listen acl cfg p m g =
     serve_mux (config_handler cfg) (status_handler1 cfg p m g)
       (status_decide splitHostPort parseIP parseCIDR listen acl)"

definition statusServer2 ::
    "(string \<Rightarrow> string option) \<Rightarrow> (string \<Rightarrow> 'ip option) \<Rightarrow> (string \<Rightarrow> ('ip \<Rightarrow> bool) option) \<Rightarrow>
     string \<Rightarrow> string \<Rightarrow> Config \<Rightarrow> PeerGroup \<Rightarrow> MemStats \<Rightarrow> Stats \<times> Stats \<Rightarrow> http_request \<Rightarrow> (gauge \<Rightarrow> rat) \<Rightarrow>
     reply \<times> (gauge \<Rightarrow> rat)" where
  "statusServer2 splitHostPort parseIP parseCIDR listen acl cfg pg m g =
     serve_mux (config_handler cfg) (status_handler2 cfg pg m g)
       (status_decide splitHostPort parseIP parseCIDR listen acl)"

section \<open>Lemmas about the access list\<close>

lemma scan_parts_iff:
  "scan_parts parseCIDR ip ps \<longleftrightarrow> (\<exists>s\<in>set ps. \<exists>cidr. parseCIDR s = Some cidr \<and> cidr ip)"
  by (induction ps) (auto split: option.splits)

text \<open>A first-match reading of the scan, for entries without commas.\<close>

definition rejects :: "(string \<Rightarrow> ('ip \<Rightarrow> bool) option) \<Rightarrow> 'ip \<Rightarrow> string \<Rightarrow> bool" where
  "rejects parseCIDR ip s \<longleftrightarrow> (\<exists>cidr. parseCIDR s = Some cidr \<and> \<not> cidr ip)"

definition accepts :: "(string \<Rightarrow> ('ip \<Rightarrow> bool) option) \<Rightarrow> 'ip \<Rightarrow> string \<Rightarrow> bool" where
  "accepts parseCIDR ip s \<longleftrightarrow> (\<exists>cidr. parseCIDR s = Some cidr \<and> cidr ip)"

definition comma_free :: "string list \<Rightarrow> bool" where
  "comma_free ss = list_all (\<lambda>s. CHR '','' \<notin> set s) ss"

lemma scan_subnets_rejected:
  assumes "comma_free pre" and "list_all (rejects parseCIDR ip) pre"
  shows "scan_subnets parseCIDR ip (pre @ post) = scan_subnets parseCIDR ip post"
  using assms by (induction pre) (auto simp: comma_free_def rejects_def)

lemma scan_subnets_True:
  assumes "comma_free ss" and "scan_subnets parseCIDR ip ss = Inr True"
  shows "\<exists>pre s post. ss = pre @ s # post \<and> list_all (rejects parseCIDR ip) pre \<and> accepts parseCIDR ip s"
  using assms
proof (induction ss)
  case (Cons s ss)
  then consider "accepts parseCIDR ip s"
    | "rejects parseCIDR ip s" and "scan_subnets parseCIDR ip ss = Inr True"
    by (auto simp: comma_free_def accepts_def rejects_def split: option.splits if_splits)
  then show ?case
  proof cases
    case 1
    then show ?thesis by (metis append_Nil list.pred_inject(1))
  next
    case 2
    obtain pre x post where "ss = pre @ x # post" "list_all (rejects parseCIDR ip) pre" "accepts parseCIDR ip x"
      using Cons.IH [OF _ 2(2)] Cons.prems(1) by (auto simp: comma_free_def)
    then show ?thesis
      using 2(1) by (intro exI [of _ "s # pre"]) auto
  qed
qed simp

lemma split_on_free: "p \<in> set (split_on c s) \<Longrightarrow> c \<notin> set p"
  by (induction s arbitrary: p) (auto split: if_splits list.splits)

lemma status_acls_comma_free: "comma_free (status_acls acl)"
  by (auto simp: status_acls_def comma_free_def list_all_iff Let_def dest: split_on_free)

lemma status_acls_nonempty [simp]: "status_acls acl \<noteq> []"
  by (simp add: status_acls_def Let_def)

lemma IsIPInSubnets_True:
  assumes "parseIP '''' = None" and "ss \<noteq> []" and "comma_free ss"
    and "IsIPInSubnets splitHostPort parseIP parseCIDR addr ss = Inr True"
  shows "\<exists>host ip. splitHostPort addr = Some host \<and> parseIP host = Some ip \<and>
    (\<exists>pre s post. ss = pre @ s # post \<and> list_all (rejects parseCIDR ip) pre \<and> accepts parseCIDR ip s)"
  using assms scan_subnets_True [OF assms(3)]
  by (auto simp: IsIPInSubnets_def TrimSpace_def split: option.splits if_splits)

lemma serve_mux_OK:
  assumes "serve_mux (config_handler cfg) status decide r gs = (OK pg, gs')"
    and "\<And>x path gs. x \<noteq> Pass \<Longrightarrow> status x path gs = (refuse x, gs)"
  shows "decide r = Pass"
proof (rule ccontr)
  assume "decide r \<noteq> Pass"
  then have "refuse (decide r) \<noteq> OK pg"
    by (cases "decide r") (auto simp: refuse_def)
  with assms(1) assms(2) [OF \<open>decide r \<noteq> Pass\<close>] show False
    by (auto simp: serve_mux_def config_handler_def \<open>decide r \<noteq> Pass\<close> split: if_splits)
qed

section \<open>Properties of the status server\<close>

text \<open>
  C31: no page without access. When either status server answers a request with a page, the
  client's address has been split and parsed, an entry of the access list contains it and every
  entry before that one is a valid network without it; and if the listen address names a user,
  the request carried exactly that user and password. The hypothesis about \<open>parseIP\<close> is that the
  empty string is no address.
\<close>

theorem status_page_needs_access:
  assumes "parseIP '''' = None"
    and "statusServer1 splitHostPort parseIP parseCIDR listen acl cfg p m g r gs = (OK pg, gs') \<or>
      statusServer2 splitHostPort parseIP parseCIDR listen acl cfg ps m g r gs = (OK pg, gs')"
  shows "(\<exists>host ip pre s post. splitHostPort (RemoteAddr r) = Some host \<and> parseIP host = Some ip \<and>
      status_acls acl = pre @ s # post \<and> list_all (rejects parseCIDR ip) pre \<and> accepts parseCIDR ip s) \<and>
    (case status_listen listen of
       (username, password, _) \<Rightarrow> username = '''' \<or> BasicAuth r = Some (username, password))"
proof -
  obtain u pw a where l: "status_listen listen = (u, pw, a)"
    by (metis prod_cases3)
  let ?decide = "status_decide splitHostPort parseIP parseCIDR listen acl"
  have "?decide r = Pass"
    using assms(2)
  proof
    assume "statusServer1 splitHostPort parseIP parseCIDR listen acl cfg p m g r gs = (OK pg, gs')"
    then show ?thesis
      by (rule serve_mux_OK [OF _ , of cfg "status_handler1 cfg p m g" ?decide, folded statusServer1_def])
        (simp add: status_handler1_def)
  next
    assume "statusServer2 splitHostPort parseIP parseCIDR listen acl cfg ps m g r gs = (OK pg, gs')"
    then show ?thesis
      by (rule serve_mux_OK [OF _ , of cfg "status_handler2 cfg ps m g" ?decide, folded statusServer2_def])
        (simp add: status_handler2_def)
  qed
  then have allowed: "IsIPInSubnets splitHostPort parseIP parseCIDR (RemoteAddr r) (status_acls acl) = Inr True"
    and auth: "u = '''' \<or> checkBasicAuth r u pw"
    by (auto simp: status_decide_def status_gate_def l split: sum.splits if_splits)
  from IsIPInSubnets_True [OF assms(1) status_acls_nonempty status_acls_comma_free allowed] auth
  show ?thesis
    by (auto simp: l checkBasicAuth_def split: option.splits)
qed

text \<open>A small network library for the witnesses: addresses are texts, a network contains what it begins with.\<close>

definition sample_host :: "string \<Rightarrow> string option" where
  "sample_host s = (if CHR '':'' \<in> set s then Some (takeWhile (\<lambda>c. c \<noteq> CHR '':'') s) else None)"

definition sample_ip :: "string \<Rightarrow> string option" where
  "sample_ip s = (if s = '''' then None else Some s)"

definition sample_cidr :: "string \<Rightarrow> (string \<Rightarrow> bool) option" where
  "sample_cidr s =
     (if s = ''0.0.0.0/0'' then Some (\<lambda>_. True)
      else if set s \<subseteq> set ''0123456789./'' then Some (\<lambda>ip. has_prefix (takeWhile (\<lambda>c. c \<noteq> CHR ''/'') s) ip)
      else None)"

definition sample_request :: "string \<Rightarrow> (string \<times> string) option \<Rightarrow> http_request" where
  "sample_request addr auth = \<lparr>RemoteAddr = addr, URLPath = ''/config'', BasicAuth = auth\<rparr>"

lemmas sample_net = sample_host_def sample_ip_def sample_cidr_def sample_request_def has_prefix_def

definition sample_peer :: Peer where
  "sample_peer = NewServerPeerWithID
     \<lparr>TunnelSendQueueSize = 4, TunnelRecvQueueSize = 4, ConnSendQueueSize = 4, ConnRecvQueueSize = 4,
      ConnOrderedRecvQueueSize = 4\<rparr> 7"

definition sample_mem :: MemStats where
  "sample_mem = \<lparr>NumGoroutine = 12, Alloc = 1, TotalAlloc = 2, HeapAlloc = 3, Sys = 4, HeapSys = 5, HeapIdle = 6,
     HeapInuse = 7, HeapReleased = 8, HeapObjects = 9, Mallocs = 10, Frees = 11, PauseTotalNs = 2000000,
     NumGC = 3, LastGC = 0\<rparr>"

lemma sample_listen:
  "status_listen ''admin:pw@127.0.0.1:9000'' = (''admin'', ''pw'', ''127.0.0.1:9000'')"
  "status_listen ''127.0.0.1:9000'' = ('''', '''', ''127.0.0.1:9000'')"
  by code_simp+

lemma sample_acls: "status_acls ''10.0.0.,192.168.1.7'' = [''10.0.0./32'', ''192.168.1.7/32'']"
  by code_simp

theorem status_page_needs_access_witness:
  "statusServer1 sample_host sample_ip sample_cidr ''admin:pw@127.0.0.1:9000'' ''10.0.0.,192.168.1.7'' NewDefaultConfig
      sample_peer sample_mem (NewStats 2, NewStats 2)
      (sample_request ''192.168.1.7:4000'' (Some (''admin'', ''pw''))) (\<lambda>_. 0) = (OK (ConfigPage NewDefaultConfig), \<lambda>_. 0) \<and>
   (\<exists>host ip pre s post. sample_host ''192.168.1.7:4000'' = Some host \<and> sample_ip host = Some ip \<and>
      status_acls ''10.0.0.,192.168.1.7'' = pre @ s # post \<and> list_all (rejects sample_cidr ip) pre \<and>
      accepts sample_cidr ip s)"
proof -
  let ?r = "sample_request ''192.168.1.7:4000'' (Some (''admin'', ''pw''))"
  have page: "statusServer1 sample_host sample_ip sample_cidr ''admin:pw@127.0.0.1:9000'' ''10.0.0.,192.168.1.7''
      NewDefaultConfig sample_peer sample_mem (NewStats 2, NewStats 2) ?r (\<lambda>_. 0) = (OK (ConfigPage NewDefaultConfig), \<lambda>_. 0)"
    by (simp add: statusServer1_def serve_mux_def status_decide_def sample_listen sample_acls status_gate_def
        IsIPInSubnets_def sample_net checkBasicAuth_def config_handler_def)
  have "sample_ip '''' = None"
    by (simp add: sample_ip_def)
  from status_page_needs_access [OF this disjI1 [OF page]] page show ?thesis
    by (simp add: sample_request_def)
qed

text \<open>
  A malformed entry shuts the rest of the list. If an entry of the access list is not a valid
  network (entries are not trimmed, and \<^verbatim>\<open>/32\<close> is appended to a bare IPv6 address too), every client that no
  earlier entry contains is answered with an internal server error, on every page and even if a
  later entry contains it.
\<close>

theorem malformed_entry_blocks_rest:
  assumes "status_acls acl = pre @ bad # post" and "parseCIDR bad = None"
    and "splitHostPort (RemoteAddr r) = Some host" and "parseIP host = Some ip"
    and "list_all (rejects parseCIDR ip) pre"
    and "URLPath r = ''/config'' \<or> has_prefix ''/status/'' (URLPath r)"
  shows "statusServer1 splitHostPort parseIP parseCIDR listen acl cfg p m g r gs = (InternalServerError, gs) \<and>
    statusServer2 splitHostPort parseIP parseCIDR listen acl cfg ps m g r gs = (InternalServerError, gs)"
proof -
  have free: "comma_free pre" "CHR '','' \<notin> set bad"
    using status_acls_comma_free [of acl] by (auto simp: assms(1) comma_free_def)
  have "scan_subnets parseCIDR ip (status_acls acl) = Inl (CIDRError bad)"
    using free(2) assms(2) by (simp add: assms(1) scan_subnets_rejected [OF free(1) assms(5)])
  then have "status_decide splitHostPort parseIP parseCIDR listen acl r = AclError"
    using assms(3,4) by (simp add: status_decide_def status_gate_def IsIPInSubnets_def split: prod.split)
  then show ?thesis
    using assms(6)
    by (auto simp: statusServer1_def statusServer2_def serve_mux_def config_handler_def status_handler1_def
        status_handler2_def refuse_def)
qed

theorem malformed_entry_blocks_rest_witness:
  "statusServer1 sample_host sample_ip sample_cidr ''127.0.0.1:9000'' ''10.0.0., 192.168.1.7,192.168.1.7'' NewDefaultConfig
     sample_peer sample_mem (NewStats 2, NewStats 2) (sample_request ''192.168.1.7:4000'' None) (\<lambda>_. 0) =
   (InternalServerError, \<lambda>_. 0)"
proof -
  have acls: "status_acls ''10.0.0., 192.168.1.7,192.168.1.7'' =
      [''10.0.0./32''] @ '' 192.168.1.7/32'' # [''192.168.1.7/32'']"
    by code_simp
  have "sample_cidr '' 192.168.1.7/32'' = None" "list_all (rejects sample_cidr ''192.168.1.7'') [''10.0.0./32'']"
    by (simp_all add: sample_net rejects_def)
  from malformed_entry_blocks_rest [OF acls this(1) _ _ this(2), where r = "sample_request ''192.168.1.7:4000'' None"]
  show ?thesis
    by (simp add: sample_net)
qed

text \<open>
  The status page is open by default. With an empty access list and a listen address that names
  no user, every client whose address lies in \<^verbatim>\<open>0.0.0.0/0\<close> gets the page \<^verbatim>\<open>/config\<close>, which holds the whole
  configuration with its password and key.
\<close>

theorem config_page_open_by_default:
  assumes "CHR ''@'' \<notin> set listen" and "splitHostPort (RemoteAddr r) = Some host" and "parseIP host = Some ip"
    and "parseCIDR ''0.0.0.0/0'' = Some cidr" and "cidr ip" and "URLPath r = ''/config''"
  shows "statusServer1 splitHostPort parseIP parseCIDR listen '''' cfg p m g r gs = (OK (ConfigPage cfg), gs) \<and>
    statusServer2 splitHostPort parseIP parseCIDR listen '''' cfg ps m g r gs = (OK (ConfigPage cfg), gs)"
proof -
  have "find_str listen ''@'' = -1"
    using assms(1) by (induction listen) (auto simp: find_str_single_Cons find_str_Nil_single)
  then have "status_listen listen = ('''', '''', listen)"
    by (simp add: status_listen_def)
  moreover have "status_acls '''' = [''0.0.0.0/0'']"
    by code_simp
  ultimately have "status_decide splitHostPort parseIP parseCIDR listen '''' r = Pass"
    using assms(2-5) by (simp add: status_decide_def status_gate_def IsIPInSubnets_def)
  then show ?thesis
    by (simp add: statusServer1_def statusServer2_def serve_mux_def config_handler_def assms(6))
qed

theorem config_page_open_by_default_witness:
  "statusServer2 sample_host sample_ip sample_cidr ''0.0.0.0:9000'' '''' NewDefaultConfig
     [] sample_mem (NewStats 2, NewStats 2) (sample_request ''203.0.113.9:1'' None) (\<lambda>_. 0) =
   (OK (ConfigPage NewDefaultConfig), \<lambda>_. 0)"
  using config_page_open_by_default [of "''0.0.0.0:9000''" sample_host "sample_request ''203.0.113.9:1'' None"
      "''203.0.113.9''" sample_ip "''203.0.113.9''" sample_cidr "\<lambda>_. True"]
  by (simp add: sample_net)

text \<open>
  Two gauges never move. The export sets the gauges for bytes, rates, memory and the garbage
  collector to the statistics, but the numbers of tunnels and connections are 32-bit integers in the
  statistics and are asserted to be of type \<^verbatim>\<open>int\<close>, so their gauges keep their old values.
\<close>

theorem count_gauges_never_updated:
  "let gs' = updatePrometheusMetrics (stats_data s m) gs in
     gs' ConnectionCountGauge = gs ConnectionCountGauge \<and> gs' TunnelCountGauge = gs TunnelCountGauge \<and>
     gs' TotalSentGauge = of_nat (unat (totalSentBytes s)) \<and> gs' TotalRecvGauge = of_nat (unat (totalRecvBytes s)) \<and>
     gs' SendRateGauge = send_rate_Bps (GetStats s) \<and> gs' RecvRateGauge = recv_rate_Bps (GetStats s) \<and>
     gs' GoroutineGauge = of_int (NumGoroutine m) \<and> gs' GcCountGauge = of_nat (unat (NumGC m))"
  by (simp add: updatePrometheusMetrics_def stats_data_def set_gauge_def GetStats_def Let_def)

text \<open>Starting registers every gauge without a panic, so that each has a value on the metrics page.\<close>

lemma prom_init_registers: "\<exists>names. prom_init [] = Some names \<and> (\<forall>x. gauge_name x \<in> set names)"
proof -
  obtain names where "prom_init [] = Some names"
    by (simp add: prom_init_def)
  moreover from this have "gauge_name x \<in> set names" for x
    by (cases x) (auto simp: prom_init_def)
  ultimately show ?thesis
    by blast
qed

end
