(* ===== verification/Logger.thy ===== *)
theory Logger
  imports Main "HOL-Library.Sublist"
begin

text \<open>
  \<^verbatim>\<open>logger/logger.go\<close> and \<^verbatim>\<open>logger/logger_win.go\<close>, the two builds of the same package: loggers with a
  level that is taken from the package variable when the logger is made. The time stamps of the log
  package are not modelled; a line is what the methods pass to it, behind the prefix. Formatting is
  the argument \<open>sprintf\<close>.
\<close>

section \<open>Levels and loggers\<close>

definition LogLevelOff :: int where "LogLevelOff = 0"
definition LogLevelFatal :: int where "LogLevelFatal = 1"
definition LogLevelError :: int where "LogLevelError = 2"
definition LogLevelWarn :: int where "LogLevelWarn = 3"
definition LogLevelInfo :: int where "LogLevelInfo = 4"
definition LogLevelInfoA :: int where "LogLevelInfoA = 5"
definition LogLevelDebug :: int where "LogLevelDebug = 6"

lemmas log_levels = LogLevelOff_def LogLevelFatal_def LogLevelError_def LogLevelWarn_def LogLevelInfo_def
  LogLevelInfoA_def LogLevelDebug_def

record Logger =
  log_prefix :: string
  log_level :: int
  log_to_syslog :: bool

text \<open>\<open>NewLogger\<close>: \<open>None\<close> is the exit of the process when the system log cannot be opened.\<close>

definition NewLogger :: "int \<Rightarrow> bool \<Rightarrow> bool \<Rightarrow> string \<Rightarrow> Logger option" where
  "NewLogger LEVEL UseSyslog syslogOpens pre =
     (if UseSyslog then
        (if syslogOpens then Some \<lparr>log_prefix = pre, log_level = LEVEL, log_to_syslog = True\<rparr> else None)
      else Some \<lparr>log_prefix = pre, log_level = LEVEL, log_to_syslog = False\<rparr>)"

text \<open>
  The connections to the system log: every logger opens its own and makes it the package's writer;
  \<open>CloseSyslog\<close> closes that one.
\<close>

record syslog_state =
  sl_open :: "bool list"
  syslogWriter :: "nat option"

definition open_syslog :: "bool \<Rightarrow> syslog_state \<Rightarrow> syslog_state" where
  "open_syslog UseSyslog st =
     (if UseSyslog then st\<lparr>sl_open := sl_open st @ [True], syslogWriter := Some (length (sl_open st))\<rparr> else st)"

definition CloseSyslog :: "syslog_state \<Rightarrow> syslog_state" where
  "CloseSyslog st =
     (case syslogWriter st of None \<Rightarrow> st | Some i \<Rightarrow> st\<lparr>sl_open := (sl_open st)[i := False]\<rparr>)"

section \<open>The methods\<close>

text \<open>Each method returns the lines it writes: none or one.\<close>

definition println :: "Logger \<Rightarrow> string \<Rightarrow> string list" where
  "println l s = [log_prefix l @ s]"

definition Logln :: "Logger \<Rightarrow> string \<Rightarrow> string list" where
  "Logln l v = println l v"

definition Logf :: "(string \<Rightarrow> 'v list \<Rightarrow> string) \<Rightarrow> Logger \<Rightarrow> string \<Rightarrow> 'v list \<Rightarrow> string list" where
  "Logf sprintf l fmt vs = println l (sprintf fmt vs)"

definition Debugln :: "Logger \<Rightarrow> string \<Rightarrow> string list" where
  "Debugln l v = (if log_level l \<ge> LogLevelDebug then println l (''[Debug] '' @ v) else [])"

definition Debugf :: "(string \<Rightarrow> 'v list \<Rightarrow> string) \<Rightarrow> Logger \<Rightarrow> string \<Rightarrow> 'v list \<Rightarrow> string list" where
  "Debugf sprintf l fmt vs = (if log_level l \<ge> LogLevelDebug then println l (sprintf (''[Debug] '' @ fmt) vs) else [])"

definition InfoAln :: "Logger \<Rightarrow> string \<Rightarrow> string list" where
  "InfoAln l v = (if log_level l \<ge> LogLevelInfoA then println l (''[Info] '' @ v) else [])"

definition InfoAf :: "(string \<Rightarrow> 'v list \<Rightarrow> string) \<Rightarrow> Logger \<Rightarrow> string \<Rightarrow> 'v list \<Rightarrow> string list" where
  "InfoAf sprintf l fmt vs = (if log_level l \<ge> LogLevelInfoA then println l (sprintf (''[Info] '' @ fmt) vs) else [])"

definition Infoln :: "Logger \<Rightarrow> string \<Rightarrow> string list" where
  "Infoln l v = (if log_level l \<ge> LogLevelInfo then println l (''[Info] '' @ v) else [])"

definition Infof :: "(string \<Rightarrow> 'v list \<Rightarrow> string) \<Rightarrow> Logger \<Rightarrow> string \<Rightarrow> 'v list \<Rightarrow> string list" where
  "Infof sprintf l fmt vs = (if log_level l \<ge> LogLevelInfo then println l (sprintf (''[Info] '' @ fmt) vs) else [])"

definition Warnln :: "Logger \<Rightarrow> string \<Rightarrow> string list" where
  "Warnln l v = (if log_level l \<ge> LogLevelWarn then println l (''[Warn] '' @ v) else [])"

definition Warnf :: "(string \<Rightarrow> 'v list \<Rightarrow> string) \<Rightarrow> Logger \<Rightarrow> string \<Rightarrow> 'v list \<Rightarrow> string list" where
  "Warnf sprintf l fmt vs = (if log_level l \<ge> LogLevelWarn then println l (sprintf (''[Warn] '' @ fmt) vs) else [])"

definition Errorln :: "Logger \<Rightarrow> string \<Rightarrow> string list" where
  "Errorln l v = (if log_level l \<ge> LogLevelError then println l (''[Error] '' @ v) else [])"

definition Errorf :: "(string \<Rightarrow> 'v list \<Rightarrow> string) \<Rightarrow> Logger \<Rightarrow> string \<Rightarrow> 'v list \<Rightarrow> string list" where
  "Errorf sprintf l fmt vs = (if log_level l \<ge> LogLevelError then println l (sprintf (''[Error] '' @ fmt) vs) else [])"

definition Fatalln :: "Logger \<Rightarrow> string \<Rightarrow> string list" where
  "Fatalln l v = (if log_level l \<ge> LogLevelFatal then println l (''[Fatal] '' @ v) else [])"

definition Fatalf :: "(string \<Rightarrow> 'v list \<Rightarrow> string) \<Rightarrow> Logger \<Rightarrow> string \<Rightarrow> 'v list \<Rightarrow> string list" where
  "Fatalf sprintf l fmt vs = (if log_level l \<ge> LogLevelFatal then println l (sprintf (''[Fatal] '' @ fmt) vs) else [])"

lemmas log_methods = Logln_def Logf_def Debugln_def Debugf_def InfoAln_def InfoAf_def Infoln_def Infof_def Warnln_def
  Warnf_def Errorln_def Errorf_def Fatalln_def Fatalf_def

section \<open>Levels are nested\<close>

text \<open>A log of several calls, each of one of the methods.\<close>

datatype 'v log_call =
  CLogln string | CLogf string "'v list" | CDebugln string | CDebugf string "'v list"
| CInfoAln string | CInfoAf string "'v list" | CInfoln string | CInfof string "'v list"
| CWarnln string | CWarnf string "'v list" | CErrorln string | CErrorf string "'v list"
| CFatalln string | CFatalf string "'v list"

fun call :: "(string \<Rightarrow> 'v list \<Rightarrow> string) \<Rightarrow> Logger \<Rightarrow> 'v log_call \<Rightarrow> string list" where
  "call sprintf l (CLogln v) = Logln l v"
| "call sprintf l (CLogf fmt vs) = Logf sprintf l fmt vs"
| "call sprintf l (CDebugln v) = Debugln l v"
| "call sprintf l (CDebugf fmt vs) = Debugf sprintf l fmt vs"
| "call sprintf l (CInfoAln v) = InfoAln l v"
| "call sprintf l (CInfoAf fmt vs) = InfoAf sprintf l fmt vs"
| "call sprintf l (CInfoln v) = Infoln l v"
| "call sprintf l (CInfof fmt vs) = Infof sprintf l fmt vs"
| "call sprintf l (CWarnln v) = Warnln l v"
| "call sprintf l (CWarnf fmt vs) = Warnf sprintf l fmt vs"
| "call sprintf l (CErrorln v) = Errorln l v"
| "call sprintf l (CErrorf fmt vs) = Errorf sprintf l fmt vs"
| "call sprintf l (CFatalln v) = Fatalln l v"
| "call sprintf l (CFatalf fmt vs) = Fatalf sprintf l fmt vs"

lemma call_nested:
  "log_level l \<le> n \<Longrightarrow> subseq (call sprintf l x) (call sprintf (l\<lparr>log_level := n\<rparr>) x)"
  by (cases x) (auto simp: log_methods println_def)

text \<open>
  Raising the level never loses a line. For any sequence of calls, the lines written at a level are
  the lines written at a higher level with some left out, in the same order; at level 6 every call
  writes its line, and at level 0 only the unconditional ones do.
\<close>

theorem log_levels_nested:
  assumes "log_level l \<le> n"
  shows "subseq (concat (map (call sprintf l) xs)) (concat (map (call sprintf (l\<lparr>log_level := n\<rparr>)) xs)) \<and>
    list_all (\<lambda>x. length (call sprintf (l\<lparr>log_level := 6\<rparr>) x) = 1) xs \<and>
    list_all (\<lambda>x. call sprintf (l\<lparr>log_level := 0\<rparr>) x = [] \<or> (\<exists>v. x = CLogln v) \<or> (\<exists>fmt vs. x = CLogf fmt vs)) xs"
proof (intro conjI)
  show "subseq (concat (map (call sprintf l) xs)) (concat (map (call sprintf (l\<lparr>log_level := n\<rparr>)) xs))"
    by (induction xs) (simp_all add: list_emb_append_mono call_nested [OF assms])
  have "length (call sprintf (l\<lparr>log_level := 6\<rparr>) x) = 1" for x
    by (cases x) (simp_all add: log_methods log_levels println_def)
  then show "list_all (\<lambda>x. length (call sprintf (l\<lparr>log_level := 6\<rparr>) x) = 1) xs"
    by (simp add: list_all_iff)
  have "call sprintf (l\<lparr>log_level := 0\<rparr>) x = [] \<or> (\<exists>v. x = CLogln v) \<or> (\<exists>fmt vs. x = CLogf fmt vs)" for x
    by (cases x) (simp_all add: log_methods log_levels)
  then show "list_all (\<lambda>x. call sprintf (l\<lparr>log_level := 0\<rparr>) x = [] \<or> (\<exists>v. x = CLogln v) \<or> (\<exists>fmt vs. x = CLogf fmt vs)) xs"
    by (simp add: list_all_iff)
qed

theorem log_levels_nested_witness:
  "subseq (concat (map (call (\<lambda>f (_ :: nat list). f) \<lparr>log_prefix = ''[Main]'', log_level = 2, log_to_syslog = False\<rparr>)
        [CErrorln ''x'', CDebugf ''y'' [1]]))
     (concat (map (call (\<lambda>f (_ :: nat list). f) \<lparr>log_prefix = ''[Main]'', log_level = 6, log_to_syslog = False\<rparr>)
        [CErrorln ''x'', CDebugf ''y'' [1]]))"
  using log_levels_nested [of "\<lparr>log_prefix = ''[Main]'', log_level = 2, log_to_syslog = False\<rparr>" 6
      "\<lambda>f (_ :: nat list). f" "[CErrorln ''x'', CDebugf ''y'' [1]]"] by simp

section \<open>The Windows build\<close>

text \<open>
  The second build has no system log: \<open>win_NewLogger\<close> does not look at \<open>UseSyslog\<close> and \<open>win_CloseSyslog\<close> does
  nothing. Its methods are written out once more in the source, and so they are here.
\<close>

definition win_NewLogger :: "int \<Rightarrow> string \<Rightarrow> Logger" where
  "win_NewLogger LEVEL pre = \<lparr>log_prefix = pre, log_level = LEVEL, log_to_syslog = False\<rparr>"

definition win_CloseSyslog :: "syslog_state \<Rightarrow> syslog_state" where
  "win_CloseSyslog st = st"

definition win_Logln :: "Logger \<Rightarrow> string \<Rightarrow> string list" where
  "win_Logln l v = println l v"

definition win_Logf :: "(string \<Rightarrow> 'v list \<Rightarrow> string) \<Rightarrow> Logger \<Rightarrow> string \<Rightarrow> 'v list \<Rightarrow> string list" where
  "win_Logf sprintf l fmt vs = println l (sprintf fmt vs)"

definition win_Debugln :: "Logger \<Rightarrow> string \<Rightarrow> string list" where
  "win_Debugln l v = (if log_level l \<ge> LogLevelDebug then println l (''[Debug] '' @ v) else [])"

definition win_Debugf :: "(string \<Rightarrow> 'v list \<Rightarrow> string) \<Rightarrow> Logger \<Rightarrow> string \<Rightarrow> 'v list \<Rightarrow> string list" where
  "win_Debugf sprintf l fmt vs = (if log_level l \<ge> LogLevelDebug then println l (sprintf (''[Debug] '' @ fmt) vs) else [])"

definition win_InfoAln :: "Logger \<Rightarrow> string \<Rightarrow> string list" where
  "win_InfoAln l v = (if log_level l \<ge> LogLevelInfoA then println l (''[Info] '' @ v) else [])"

definition win_InfoAf :: "(string \<Rightarrow> 'v list \<Rightarrow> string) \<Rightarrow> Logger \<Rightarrow> string \<Rightarrow> 'v list \<Rightarrow> string list" where
  "win_InfoAf sprintf l fmt vs = (if log_level l \<ge> LogLevelInfoA then println l (sprintf (''[Info] '' @ fmt) vs) else [])"

definition win_Infoln :: "Logger \<Rightarrow> string \<Rightarrow> string list" where
  "win_Infoln l v = (if log_level l \<ge> LogLevelInfo then println l (''[Info] '' @ v) else [])"

definition win_Infof :: "(string \<Rightarrow> 'v list \<Rightarrow> string) \<Rightarrow> Logger \<Rightarrow> string \<Rightarrow> 'v list \<Rightarrow> string list" where
  "win_Infof sprintf l fmt vs = (if log_level l \<ge> LogLevelInfo then println l (sprintf (''[Info] '' @ fmt) vs) else [])"

definition win_Warnln :: "Logger \<Rightarrow> string \<Rightarrow> string list" where
  "win_Warnln l v = (if log_level l \<ge> LogLevelWarn then println l (''[Warn] '' @ v) else [])"

definition win_Warnf :: "(string \<Rightarrow> 'v list \<Rightarrow> string) \<Rightarrow> Logger \<Rightarrow> string \<Rightarrow> 'v list \<Rightarrow> string list" where
  "win_Warnf sprintf l fmt vs = (if log_level l \<ge> LogLevelWarn then println l (sprintf (''[Warn] '' @ fmt) vs) else [])"

definition win_Errorln :: "Logger \<Rightarrow> string \<Rightarrow> string list" where
  "win_Errorln l v = (if log_level l \<ge> LogLevelError then println l (''[Error] '' @ v) else [])"

definition win_Errorf :: "(string \<Rightarrow> 'v list \<Rightarrow> string) \<Rightarrow> Logger \<Rightarrow> string \<Rightarrow> 'v list \<Rightarrow> string list" where
  "win_Errorf sprintf l fmt vs = (if log_level l \<ge> LogLevelError then println l (sprintf (''[Error] '' @ fmt) vs) else [])"

definition win_Fatalln :: "Logger \<Rightarrow> string \<Rightarrow> string list" where
  "win_Fatalln l v = (if log_level l \<ge> LogLevelFatal then println l (''[Fatal] '' @ v) else [])"

definition win_Fatalf :: "(string \<Rightarrow> 'v list \<Rightarrow> string) \<Rightarrow> Logger \<Rightarrow> string \<Rightarrow> 'v list \<Rightarrow> string list" where
  "win_Fatalf sprintf l fmt vs = (if log_level l \<ge> LogLevelFatal then println l (sprintf (''[Fatal] '' @ fmt) vs) else [])"

lemmas win_methods = win_Logln_def win_Logf_def win_Debugln_def win_Debugf_def win_InfoAln_def win_InfoAf_def win_Infoln_def
  win_Infof_def win_Warnln_def win_Warnf_def win_Errorln_def win_Errorf_def win_Fatalln_def win_Fatalf_def

fun win_call :: "(string \<Rightarrow> 'v list \<Rightarrow> string) \<Rightarrow> Logger \<Rightarrow> 'v log_call \<Rightarrow> string list" where
  "win_call sprintf l (CLogln v) = win_Logln l v"
| "win_call sprintf l (CLogf fmt vs) = win_Logf sprintf l fmt vs"
| "win_call sprintf l (CDebugln v) = win_Debugln l v"
| "win_call sprintf l (CDebugf fmt vs) = win_Debugf sprintf l fmt vs"
| "win_call sprintf l (CInfoAln v) = win_InfoAln l v"
| "win_call sprintf l (CInfoAf fmt vs) = win_InfoAf sprintf l fmt vs"
| "win_call sprintf l (CInfoln v) = win_Infoln l v"
| "win_call sprintf l (CInfof fmt vs) = win_Infof sprintf l fmt vs"
| "win_call sprintf l (CWarnln v) = win_Warnln l v"
| "win_call sprintf l (CWarnf fmt vs) = win_Warnf sprintf l fmt vs"
| "win_call sprintf l (CErrorln v) = win_Errorln l v"
| "win_call sprintf l (CErrorf fmt vs) = win_Errorf sprintf l fmt vs"
| "win_call sprintf l (CFatalln v) = win_Fatalln l v"
| "win_call sprintf l (CFatalf fmt vs) = win_Fatalf sprintf l fmt vs"

section \<open>The two builds\<close>

text \<open>
  The two builds log the same. A logger of the Windows build is the one the other build makes without
  the system log, whatever the setting; and for any sequence of calls both write the same lines in
  the same order.
\<close>

theorem builds_log_alike:
  "NewLogger LEVEL False syslogOpens pre = Some (win_NewLogger LEVEL pre) \<and>
   concat (map (win_call sprintf l) xs) = concat (map (call sprintf l) xs)"
proof
  show "NewLogger LEVEL False syslogOpens pre = Some (win_NewLogger LEVEL pre)"
    by (simp add: NewLogger_def win_NewLogger_def)
  have "win_call sprintf l x = call sprintf l x" for x
    by (cases x) (simp_all add: win_methods log_methods)
  then have "win_call sprintf l = call sprintf l"
    by (rule ext)
  then show "concat (map (win_call sprintf l) xs) = concat (map (call sprintf l) xs)"
    by simp
qed

text \<open>
  Only the last connection to the system log is closed. After \<open>n + 1\<close> loggers with the system log, \<open>CloseSyslog\<close>
  leaves \<open>n\<close> of their connections open, and a second call changes nothing.
\<close>

lemma open_syslog_many:
  "sl_open ((open_syslog True ^^ n) st) = sl_open st @ replicate n True \<and>
   (0 < n \<longrightarrow> syslogWriter ((open_syslog True ^^ n) st) = Some (length (sl_open st) + n - 1))"
  by (induction n) (auto simp: open_syslog_def replicate_append_same)

theorem close_syslog_leaves_open:
  defines "st n \<equiv> (open_syslog True ^^ n) \<lparr>sl_open = [], syslogWriter = None\<rparr>"
  shows "length (filter id (sl_open (CloseSyslog (st (Suc n))))) = n \<and>
    CloseSyslog (CloseSyslog (st (Suc n))) = CloseSyslog (st (Suc n))"
proof -
  have o: "sl_open (st (Suc n)) = replicate n True @ [True]" and w: "syslogWriter (st (Suc n)) = Some n"
    using open_syslog_many [of "Suc n" "\<lparr>sl_open = [], syslogWriter = None\<rparr>"]
    unfolding st_def by (simp_all add: replicate_append_same del: funpow.simps)
  show ?thesis
    using o w by (simp add: CloseSyslog_def list_update_append)
qed

end
