(* ===== verification/Main_Program.thy ===== *)
theory Main_Program
  imports Stream_Conn Client_Front Status_Server Logger
begin

text \<open>
  \<^verbatim>\<open>main\<close> of \<^verbatim>\<open>cmd/rabbit.go\<close>: what the program sets up from its command line, and what it does when a
  signal tells it to stop. The result of the start says which parts run with which arguments; what
  the parts do then is the subject of the other theories.
  The hash and the two AEAD constructors of the Go libraries are arguments, as in \<open>NewAEADCipher\<close>.
\<close>

section \<open>Start\<close>

text \<open>The capacities of the channels, from the package variables; the two send queues have a fixed one.\<close>

definition sizes_of :: "package_vars \<Rightarrow> pool_sizes" where
  "sizes_of v =
     \<lparr>TunnelSendQueueSize = 64, TunnelRecvQueueSize = nat (pv_RecvQueueSize v), ConnSendQueueSize = 64,
      ConnRecvQueueSize = nat (pv_RecvQueueSize v), ConnOrderedRecvQueueSize = nat (pv_OrderedRecvQueueSize v)\<rparr>"

datatype front = FrontForward string string | ServeSocks5 string

record running =
  run_cipher :: "metaCipher option"
  run_status :: "(string \<times> string) option"   \<comment> \<open>listen address and access list of the status server\<close>

datatype program =
  NotStarted
| Exited int
| StartPanics
| RunsClient running Client front
| RunsServer running Server "string list"

definition main_cipher ::
    "(byte list \<Rightarrow> byte list) \<Rightarrow> (byte list \<Rightarrow> io_error + aead) \<Rightarrow> (byte list \<Rightarrow> io_error + aead) \<Rightarrow> Config \<Rightarrow>
     metaCipher option" where
  "main_cipher md5 makeAESGCM chacha20poly1305_New cfg =
     (case NewAEADCipher md5 makeAESGCM chacha20poly1305_New (AEADCipher cfg) [] (text_bytes (cfg_Password cfg)) of
        Inl _ \<Rightarrow> None
      | Inr c \<Rightarrow> Some c)"

text \<open>
  \<open>syslogOpens\<close>: the system log can be opened; otherwise the first logger ends the process with code 1
  (\<^verbatim>\<open>log.Fatal\<close>). \<open>uint32\<close> and \<open>crand\<close> are the generator of random numbers and the source of its seed. A
  negative capacity makes the creation of the client's channels panic; the server creates its peers
  later.
\<close>

definition main_client ::
    "(i64 \<Rightarrow> u32) \<Rightarrow> source \<Rightarrow> running \<Rightarrow> Config \<Rightarrow> package_vars \<Rightarrow> program" where
  "main_client uint32 crand run mcfg vars =
     (if pv_RecvQueueSize vars < 0 then StartPanics
      else
        (case NewClient uint32 crand (sizes_of vars) (TunnelN mcfg) (RabbitAddr mcfg) (AuthKey mcfg)
                (Insecure mcfg) (RetryFailedAddr mcfg) of
           None \<Rightarrow> StartPanics
         | Some c \<Rightarrow>
             RunsClient run c
               (if has_prefix ''socks5://'' (Listen mcfg) then ServeSocks5 (Listen mcfg)
                else FrontForward (Listen mcfg) (Dest mcfg))))"

definition main_server :: "source \<Rightarrow> running \<Rightarrow> Config \<Rightarrow> program" where
  "main_server crand run mcfg =
     (case NewServer crand (AuthKey mcfg) (TLSKeyFile mcfg) (TLSCertFile mcfg) of
        None \<Rightarrow> StartPanics
      | Some s \<Rightarrow> RunsServer run s (RabbitAddr mcfg))"

definition main ::
    "(byte list \<Rightarrow> byte list) \<Rightarrow> (byte list \<Rightarrow> io_error + aead) \<Rightarrow> (byte list \<Rightarrow> io_error + aead) \<Rightarrow>
     (i64 \<Rightarrow> u32) \<Rightarrow> source \<Rightarrow> bool \<Rightarrow> start \<Rightarrow> program" where
  "main md5 makeAESGCM chacha20poly1305_New uint32 crand syslogOpens st =
     (case st of
        Exit n \<Rightarrow> Exited n
      | Checked pass mcfg vars \<Rightarrow>
          if \<not> pass then NotStarted
          else
            (case NewLogger (Verbose mcfg) (UseSyslog mcfg) syslogOpens ''[Main]'' of
               None \<Rightarrow> Exited 1
             | Some mainlogger \<Rightarrow>
                 let run = \<lparr>run_cipher = main_cipher md5 makeAESGCM chacha20poly1305_New mcfg,
                            run_status = (if StatusServer mcfg \<noteq> '''' then Some (StatusServer mcfg, StatusACL mcfg) else None)\<rparr> in
                 (case prom_init [] of
                    None \<Rightarrow> StartPanics
                  | Some _ \<Rightarrow>
                      if cfg_mode mcfg = ClientMode then main_client uint32 crand run mcfg vars
                      else if cfg_mode mcfg = ServerMode then main_server crand run mcfg
                      else NotStarted)))"

text \<open>
  When a signal arrives the program cancels its client or its server; then it cancels the statistics,
  closes the system log, and \<^verbatim>\<open>main\<close> returns, which ends the process.
\<close>

definition main_signal :: "program \<Rightarrow> program" where
  "main_signal p =
     (case p of
        RunsClient run c f \<Rightarrow> RunsClient run (cl_Cancel c) f
      | RunsServer run s addresses \<Rightarrow> RunsServer run (srv_Cancel s) addresses
      | _ \<Rightarrow> p)"

definition run_of :: "program \<Rightarrow> running option" where
  "run_of p = (case p of RunsClient r _ _ \<Rightarrow> Some r | RunsServer r _ _ \<Rightarrow> Some r | _ \<Rightarrow> None)"

section \<open>Properties of the start\<close>

lemma prom_init_ok: "\<exists>names. prom_init [] = Some names"
  using prom_init_registers by blast

lemma check_config_mode:
  "check_config cfg = (True, cfg') \<Longrightarrow>
     \<exists>m. cfg' = cfg\<lparr>cfg_mode := m\<rparr> \<and> (m = ClientMode \<or> m = ServerMode)"
  by (auto simp: check_config_def Let_def split: if_splits)

text \<open>
  C37: an unknown cipher does not stop the program. Whatever else the configuration holds, if it passes
  the checks, its receive queue size is not negative, the system log it asks for opens and there are
  random bytes for the seed, the program runs, and with an unknown cipher name every tunnel connection it makes is the plain one: the password is not used at all.
\<close>

theorem unknown_cipher_starts_plaintext:
  assumes "fst (check_config cfg)" and "0 \<le> RecvQueueSize cfg"
    and "aeadList (canonical_name (to_upper (AEADCipher cfg))) = None"
    and "8 \<le> length (avail crand)" and "UseSyslog cfg \<longrightarrow> syslogOpens"
  shows "\<exists>r. run_of (main md5 mkAES mkChaCha uint32 crand syslogOpens (parseFlags (Inr (Some cfg)))) = Some r \<and>
    NewEncryptedWebsocketConn (run_cipher r) = PlainConn"
proof -
  obtain cfg' where c: "check_config cfg = (True, cfg')"
    using assms(1) by (metis prod.collapse)
  obtain m where m: "cfg' = cfg\<lparr>cfg_mode := m\<rparr>" "m = ClientMode \<or> m = ServerMode"
    using check_config_mode [OF c] by blast
  obtain names where "prom_init [] = Some names"
    using prom_init_ok by blast
  then show ?thesis
    using assms(2,3,5) c m initRand_enough [OF assms(4)]
    by (auto simp: main_def main_client_def main_server_def NewClient_def NewClientPeer_def NewServer_def NewPeerGroup_def
        NewLogger_def parseFlags_def run_of_def main_cipher_def NewAEADCipher_def NewEncryptedWebsocketConn_def
        set_package_vars_def ClientMode_def ServerMode_def)
qed

definition sample_crand :: source where
  "sample_crand = \<lparr>avail = [1, 2, 3, 4, 5, 6, 7, 8], final = EOF\<rparr>"

theorem unknown_cipher_starts_plaintext_witness:
  "\<exists>r. run_of (main (\<lambda>_. []) (\<lambda>_. Inr sum_aead) (\<lambda>_. Inr sum_aead) (\<lambda>_. 9) sample_crand True (parseFlags (Inr (Some
      (NewDefaultConfig\<lparr>Mode := ''server'', cfg_Password := ''secret'', AEADCipher := ''chacha20-poly1305''\<rparr>))))) = Some r \<and>
    NewEncryptedWebsocketConn (run_cipher r) = PlainConn"
proof (rule unknown_cipher_starts_plaintext)
  show "aeadList (canonical_name (to_upper (AEADCipher
      (NewDefaultConfig\<lparr>Mode := ''server'', cfg_Password := ''secret'', AEADCipher := ''chacha20-poly1305''\<rparr>)))) = None"
    by code_simp
qed (simp_all add: check_config_accepts NewDefaultConfig_def DefaultPassword_def sample_crand_def)

text \<open>
  The client of a command line. A client that starts from the command line alone makes a peer with
  the configured number of tunnels whose manager has the parts of the \<^verbatim>\<open>rabbit-addr\<close> flag as its
  endpoints, none of them empty, holding a comma or beginning or ending with white space, and the
  configured key; unless the flag has no such part, these endpoints are fit for the refilling of the
  pool. It serves SOCKS5 exactly when the listen address has that scheme.
\<close>

theorem client_from_command_line:
  assumes "config_path stat homeDir a = ''''" and "\<not> printVersionArg a" and "rabbitAddrArg a = Some addrs"
    and "main md5 mkAES mkChaCha uint32 crand syslogOpens (parseFlags (LoadConfig stat readFile unmarshal homeDir a)) =
      RunsClient r c f"
  shows "\<exists>cm. manager (tunnelPool (cl_Peer c)) = MClient cm \<and> tunnelNum cm = over (tunnelNArg a) 4 \<and>
    endpoints cm = splitAndTrim addrs (CHR '','') \<and> authkey cm = over (authKeyArg a) '''' \<and>
    list_all (\<lambda>e. e \<noteq> '''' \<and> CHR '','' \<notin> set e \<and> \<not> is_space (hd e) \<and> \<not> is_space (last e)) (endpoints cm) \<and>
    (good_endpoints (endpoints cm) \<longleftrightarrow> endpoints cm \<noteq> []) \<and>
    (f = ServeSocks5 (over (listenArg a) ''127.0.0.1:1080'') \<longleftrightarrow>
     has_prefix ''socks5://'' (over (listenArg a) ''127.0.0.1:1080''))"
proof -
  let ?cfg = "apply_flags a NewDefaultConfig"
  have load: "LoadConfig stat readFile unmarshal homeDir a = Inr (Some ?cfg)"
    using assms(1,2) by (simp add: LoadConfig_def)
  obtain pass cfg' where chk: "check_config ?cfg = (pass, cfg')"
    by fastforce
  have p: pass
    using assms(4) chk by (auto simp: load main_def parseFlags_def Let_def split: if_splits)
  then obtain m where m: "cfg' = ?cfg\<lparr>cfg_mode := m\<rparr>"
    using check_config_mode [of ?cfg cfg'] chk by auto
  have cfg: "TunnelN ?cfg = over (tunnelNArg a) 4" "RabbitAddr ?cfg = splitAndTrim addrs (CHR '','')"
      "AuthKey ?cfg = over (authKeyArg a) ''''" "Listen ?cfg = over (listenArg a) ''127.0.0.1:1080''"
    using assms(3) by (simp_all add: apply_flags_def NewDefaultConfig_def Let_def)
  obtain seed where "cl_Peer c = newClientPeerWithID (sizes_of (set_package_vars ?cfg)) (uint32 seed) (TunnelN cfg')
        (RabbitAddr cfg') (AuthKey cfg') (Insecure cfg') (RetryFailedAddr cfg')"
      "f = (if has_prefix ''socks5://'' (Listen cfg') then ServeSocks5 (Listen cfg') else FrontForward (Listen cfg') (Dest cfg'))"
    using assms(4) chk p
    by (auto simp: load main_def main_client_def main_server_def NewClient_def NewClientPeer_def parseFlags_def Let_def
        split: if_splits option.splits sum.splits)
  then show ?thesis
    using cfg split_and_trim_clean [of "CHR '',''" addrs]
    by (auto simp: m newClientPeerWithID_def NewTunnelPool_def NewClientManager_def good_endpoints_def list_all_iff)
qed

theorem client_from_command_line_witness:
  "\<exists>r c f cm. main (\<lambda>_. []) (\<lambda>_. Inr sum_aead) (\<lambda>_. Inr sum_aead) (\<lambda>_. 9) sample_crand True (parseFlags
      (LoadConfig (\<lambda>_. False) (\<lambda>_. None) (\<lambda>_ _. None) ''/root''
        (no_flags\<lparr>rabbitAddrArg := Some ''ws://a , ,b'', passwordArg := Some ''secret'', destArg := Some ''d:1''\<rparr>))) =
      RunsClient r c f \<and> manager (tunnelPool (cl_Peer c)) = MClient cm \<and> endpoints cm = [''ws://a'', ''b'']"
proof -
  let ?a = "no_flags\<lparr>rabbitAddrArg := Some ''ws://a , ,b'', passwordArg := Some ''secret'', destArg := Some ''d:1''\<rparr>"
  have path: "config_path (\<lambda>_. False) ''/root'' ?a = ''''" and v: "\<not> printVersionArg ?a"
    and addr: "rabbitAddrArg ?a = Some ''ws://a , ,b''"
    by (simp_all add: config_path_def no_flags_def)
  have parts: "splitAndTrim ''ws://a , ,b'' (CHR '','') = [''ws://a'', ''b'']" and low: "ToLower ''client'' = ''client''"
    by code_simp+
  obtain names where "prom_init [] = Some names"
    using prom_init_ok by blast
  then obtain r c f where run: "main (\<lambda>_. []) (\<lambda>_. Inr sum_aead) (\<lambda>_. Inr sum_aead) (\<lambda>_. 9) sample_crand True (parseFlags
      (LoadConfig (\<lambda>_. False) (\<lambda>_. None) (\<lambda>_ _. None) ''/root'' ?a)) = RunsClient r c f"
    using path low initRand_enough [of sample_crand]
    by (simp add: main_client_def NewClient_def NewClientPeer_def NewLogger_def sample_crand_def LoadConfig_def no_flags_def main_def parseFlags_def check_config_def apply_flags_def NewDefaultConfig_def
        set_package_vars_def ClientMode_def DefaultPassword_def has_prefix_def)
  from client_from_command_line [OF path v addr run] parts run show ?thesis
    by auto
qed

text \<open>
  Without a system log there is no program. When no configuration file is found, every start without a
  system log to write to ends before anything runs, even when the command line asks not to use it: the
  default asks for it and the flag is not looked at.
\<close>

theorem no_system_log_no_program:
  assumes "config_path stat homeDir a = ''''"
  shows "run_of (main md5 mkAES mkChaCha uint32 crand False
    (parseFlags (LoadConfig stat readFile unmarshal homeDir (a\<lparr>useSyslogArg := x\<rparr>)))) = None"
proof -
  let ?a = "a\<lparr>useSyslogArg := x\<rparr>"
  have path: "config_path stat homeDir ?a = ''''"
    unfolding assms [symmetric] by (simp add: config_path_def)
  have sys: "UseSyslog (apply_flags ?a NewDefaultConfig)"
    by (simp add: apply_flags_def NewDefaultConfig_def Let_def)
  obtain pass cfg where chk: "check_config (apply_flags ?a NewDefaultConfig) = (pass, cfg)"
    by (meson surj_pair)
  have "UseSyslog cfg"
  proof (rule ccontr)
    assume "\<not> UseSyslog cfg"
    then have "\<not> UseSyslog (snd (check_config (apply_flags ?a NewDefaultConfig)))"
      by (simp add: chk)
    then show False
      using sys by (simp add: check_config_def Let_def split: if_splits)
  qed
  then have stop: "run_of (main md5 mkAES mkChaCha uint32 crand False
      (parseFlags (Inr (Some (apply_flags ?a NewDefaultConfig))))) = None"
    by (simp add: parseFlags_def chk main_def run_of_def NewLogger_def)
  show ?thesis
  proof (cases "printVersionArg ?a")
    case True
    then show ?thesis
      by (simp add: LoadConfig_def parseFlags_def main_def run_of_def)
  next
    case False
    then show ?thesis
      using stop path by (simp add: LoadConfig_def)
  qed
qed

theorem no_system_log_no_program_witness:
  "run_of (main (\<lambda>_. []) (\<lambda>_. Inr sum_aead) (\<lambda>_. Inr sum_aead) (\<lambda>_. 9) sample_crand False (parseFlags
      (LoadConfig (\<lambda>_. False) (\<lambda>_. None) (\<lambda>_ _. None) ''/root''
        (no_flags\<lparr>passwordArg := Some ''secret'', destArg := Some ''d:1'', useSyslogArg := Some False\<rparr>)))) = None"
  using no_system_log_no_program [of "\<lambda>_. False" "''/root''" "no_flags\<lparr>passwordArg := Some ''secret'', destArg := Some ''d:1''\<rparr>"
      "\<lambda>_. []" "\<lambda>_. Inr sum_aead" "\<lambda>_. Inr sum_aead" "\<lambda>_. 9" sample_crand "\<lambda>_. None" "\<lambda>_ _. None" "Some False"]
  by (simp add: config_path_def no_flags_def)

text \<open>
  A signal reaches every connection. After it, the client's peer, or every peer of the server, is cancelled
  together with both its pools and all the connections in them, and nothing is taken out of the maps by
  the signal itself.
\<close>

definition peer_cancelled :: "Peer \<Rightarrow> bool" where
  "peer_cancelled p \<longleftrightarrow> p_ctxDone p \<and> cp_ctxDone (connectionPool p) \<and> tp_ctxDone (tunnelPool p) \<and>
     list_all (\<lambda>(i, conn). conn_ctxDone conn) (connectionMapping (connectionPool p))"

theorem signal_cancels_connections:
  "case main_signal p of
     RunsClient run c f \<Rightarrow> peer_cancelled (cl_Peer c)
   | RunsServer run s addresses \<Rightarrow> list_all (\<lambda>(i, q). peer_cancelled q) (peerGroup s)
   | _ \<Rightarrow> main_signal p = p"
  using p_Stop_all
  by (cases p)
    (auto simp: main_signal_def cl_Cancel_def srv_Cancel_def pg_Stop_def peer_cancelled_def list_all_iff split_beta)

end
