(* ===== verification/Goroutine_Id.thy ===== *)
theory Goroutine_Id
  imports Cmd_Config
begin

text \<open>
  \<^verbatim>\<open>server/server.go\<close>: the number of the running goroutine, cut out of the text \<^verbatim>\<open>runtime.Stack\<close> writes
  into a buffer of 64 bytes, as the label of log lines and as a number. The functions of the packages
  strings and strconv it uses are written out for ASCII text.
\<close>

section \<open>Library functions\<close>

definition TrimPrefix :: "string \<Rightarrow> string \<Rightarrow> string" where
  "TrimPrefix s pre = (if has_prefix pre s then drop (length pre) s else s)"

fun fields_acc :: "string \<Rightarrow> string \<Rightarrow> string list" where
  "fields_acc w [] = (if w = [] then [] else [w])"
| "fields_acc w (c # cs) =
     (if is_space c then (if w = [] then fields_acc [] cs else w # fields_acc [] cs)
      else fields_acc (w @ [c]) cs)"

definition Fields :: "string \<Rightarrow> string list" where
  "Fields s = fields_acc [] s"

definition is_digit :: "char \<Rightarrow> bool" where
  "is_digit c \<longleftrightarrow> 48 \<le> (of_char c :: nat) \<and> (of_char c :: nat) \<le> 57"

definition digits_value :: "string \<Rightarrow> nat" where
  "digits_value s = foldl (\<lambda>v c. 10 * v + (of_char c - 48)) 0 s"

text \<open>\<^verbatim>\<open>strconv.Atoi\<close>: an optional sign and digits, within the range of a 64-bit integer; \<open>None\<close> is its error.\<close>

definition Atoi :: "string \<Rightarrow> int option" where
  "Atoi s =
     (let neg = has_prefix ''-'' s;
          ds = (if neg \<or> has_prefix ''+'' s then tl s else s);
          v = (if neg then - int (digits_value ds) else int (digits_value ds))
      in if ds = [] \<or> \<not> list_all is_digit ds \<or> v < - (2 ^ 63) \<or> 2 ^ 63 \<le> v then None else Some v)"

section \<open>The two functions\<close>

text \<open>The argument is what \<^verbatim>\<open>runtime.Stack\<close> has written; \<open>None\<close> is a panic.\<close>

definition goroutine_field :: "string \<Rightarrow> string option" where
  "goroutine_field stack =
     (case Fields (TrimPrefix (take 64 stack) ''goroutine '') of [] \<Rightarrow> None | f # _ \<Rightarrow> Some f)"

definition goroutineid :: "string \<Rightarrow> string option" where
  "goroutineid stack =
     map_option (\<lambda>f. let g = ''00000000'' @ f in drop (length g - 8) g) (goroutine_field stack)"

definition getGoroutineID :: "string \<Rightarrow> int option" where
  "getGoroutineID stack = (case goroutine_field stack of None \<Rightarrow> None | Some f \<Rightarrow> Atoi f)"

section \<open>Decimal numbers\<close>

fun decimal :: "nat \<Rightarrow> string" where
  "decimal n = (if n < 10 then [char_of (48 + n)] else decimal (n div 10) @ [char_of (48 + n mod 10)])"

declare decimal.simps [simp del]

lemma digit_char: "d < 10 \<Longrightarrow> is_digit (char_of (48 + d :: nat)) \<and> (of_char (char_of (48 + d :: nat)) :: nat) = 48 + d"
  by (simp add: is_digit_def)

lemma digit_not_space: "is_digit c \<Longrightarrow> \<not> is_space c"
  by (auto simp: is_digit_def is_space_def is_blank_def)

lemma decimal_digits: "list_all is_digit (decimal n) \<and> decimal n \<noteq> []"
proof (induction n rule: decimal.induct)
  case (1 n)
  then show ?case
    using digit_char [of n] digit_char [of "n mod 10"] by (simp add: decimal.simps [of n])
qed

lemma digits_value_decimal: "digits_value (decimal n) = n"
proof (induction n rule: decimal.induct)
  case (1 n)
  then show ?case
    using digit_char [of n] digit_char [of "n mod 10"] by (simp add: decimal.simps [of n] digits_value_def)
qed

lemma length_decimal: "n < 10 ^ k \<Longrightarrow> 0 < k \<Longrightarrow> length (decimal n) \<le> k"
proof (induction k arbitrary: n)
  case (Suc k)
  then show ?case
    by (cases "n < 10") (simp_all add: decimal.simps [of n] less_mult_imp_div_less, cases k, auto)
qed simp

lemma Atoi_decimal:
  assumes "n < 2 ^ 63"
  shows "Atoi (decimal n) = Some (int n)"
proof -
  have d: "list_all is_digit (decimal n)" "decimal n \<noteq> []"
    using decimal_digits by auto
  then have "\<not> has_prefix ''-'' (decimal n) \<and> \<not> has_prefix ''+'' (decimal n)"
    by (cases "decimal n") (auto simp: has_prefix_def is_digit_def)
  then show ?thesis
    using d assms by (simp add: Atoi_def digits_value_decimal)
qed

lemma fields_word:
  "list_all (\<lambda>c. \<not> is_space c) w \<Longrightarrow> fields_acc v (w @ rest) = fields_acc (v @ w) rest"
  by (induction w arbitrary: v) simp_all

section \<open>Properties\<close>

text \<open>
  The number comes back. On what \<^verbatim>\<open>runtime.Stack\<close> writes for goroutine \<open>n\<close>, \<open>getGoroutineID\<close> returns \<open>n\<close> and does
  not panic, and the label of the log lines consists of the last eight digits of \<open>n\<close>, filled up with
  zeros from the left.
\<close>

theorem goroutine_number:
  assumes "n < 2 ^ 63"
  shows "getGoroutineID (''goroutine '' @ decimal n @ '' [running]:'' @ rest) = Some (int n) \<and>
    goroutineid (''goroutine '' @ decimal n @ '' [running]:'' @ rest) =
      Some (drop (length (decimal n)) (''00000000'' @ decimal n))"
proof -
  have len: "length (decimal n) \<le> 19"
    by (rule length_decimal) (use assms in simp_all)
  let ?stack = "''goroutine '' @ decimal n @ '' [running]:'' @ rest"
  have t: "take 64 ?stack = ''goroutine '' @ decimal n @ '' '' @ take (53 - length (decimal n)) (''[running]:'' @ rest)"
    using len by (simp add: take_append take_Cons')
  have ns: "list_all (\<lambda>c. \<not> is_space c) (decimal n)"
    using decimal_digits [of n] digit_not_space by (auto simp: list_all_iff)
  have "is_space CHR '' ''"
    by (simp add: is_space_def is_blank_def)
  then have "\<exists>fs. Fields (TrimPrefix (take 64 ?stack) ''goroutine '') = decimal n # fs"
    using fields_word [OF ns, of "[]"] decimal_digits [of n]
    unfolding t by (simp add: Fields_def TrimPrefix_def has_prefix_def)
  then have f: "goroutine_field ?stack = Some (decimal n)"
    by (auto simp: goroutine_field_def)
  then show ?thesis
    using Atoi_decimal [OF assms] unfolding getGoroutineID_def goroutineid_def f by simp
qed

theorem goroutine_number_witness:
  "getGoroutineID (''goroutine '' @ decimal 17 @ '' [running]:'' @ ''main'') = Some 17"
  using goroutine_number [of 17 "''main''"] by simp

end
