(* ===== verification/Spec2Isabelle.thy ===== *)
theory Spec2Isabelle
  imports Whole_System Ordered_Relay Transport_Spec Tunnel_Stack Transport_Progress Idle_Peer Main_Program Goroutine_Id
begin

text \<open>
  A verification of \<^verbatim>\<open>rabbit-mtcp-ws-socks5\<close>, a tunnel that carries many TCP connections over
  several websocket connections at once. The client listens for local connections (plain forwarding
  or SOCKS5), cuts what it reads into numbered blocks and spreads the blocks of all connections over
  its tunnels; the server puts the blocks of each connection back into order and writes their data to
  the target, and the same way back.

  \<^bold>\<open>The parts and their theories\<close>

  The theories follow the packages under \<^verbatim>\<open>src/\<close>. A struct is a record, an enumeration or an interface
  with known implementations a datatype, a function or method one definition of the same name (with a
  prefix such as \<open>oc_\<close>, \<open>tun_\<close> or \<open>pg_\<close> where packages share names); state is passed explicitly, errors
  are values of sum and option types, panics are outcomes of their own, counters are words of their
  width. What a library or the network does is an argument or part of an event.

    \<^item> \<open>Rabbit_Prelude\<close>: byte strings, little-endian numbers, readers, error values and the named
      collections of simplification rules.
    \<^item> \<open>Go_Chan\<close>, \<open>Go_Map\<close>: channels and maps of the language, with the locales \<open>fifo_chan\<close> and
      \<open>keyed_pool\<close> for what the relays and the pools rely on, interpreted on them.
    \<^item> \<open>Block\<close> (\<^verbatim>\<open>block/block.go\<close>): block format, packing, reading and cutting of data.
    \<^item> \<open>Ring_Buffer\<close> (\<^verbatim>\<open>connection/ring_buffer.go\<close>): the buffer for what a read could not take, behind
      the locale of a byte buffer.
    \<^item> \<open>Byte_Reader\<close>, \<open>Aead_Stream\<close>, \<open>Stream_Conn\<close> (\<^verbatim>\<open>tunnel/\<close>): the websocket adapter, the encrypted
      record stream with its nonces, key derivation and the choice of the cipher. The code that reads
      is a function of the \<^verbatim>\<open>io.ReadFull\<close> it uses; the locale \<open>byte_reader\<close> says what makes a reader a
      byte stream, \<open>full_reader\<close>, which it gives by \<open>sublocale\<close>, what parsing relies on.
    \<^item> \<open>Tunnel_Stack\<close>: blocks over encryption over websocket messages, stacked as in the code.
    \<^item> \<open>Block_Processor\<close>, \<open>Ordered_Relay\<close> (\<^verbatim>\<open>connection/block_processor.go\<close>): numbering and reordering of
      blocks, a received block at a time, and the goroutine that does it, statement by statement between its
      two channels.
    \<^item> \<open>Inbound_Connection\<close>, \<open>Outbound_Connection\<close> (\<^verbatim>\<open>connection/\<close>): the client's and the server's end of
      a connection; the server's two relays run interleaved.
    \<^item> \<open>Stats\<close> (\<^verbatim>\<open>stats/stats.go\<close>): counters, sliding history and rates.
    \<^item> \<open>Tunnel\<close>, \<open>Tunnel_Pool\<close>, \<open>Idle_Peer\<close> (\<^verbatim>\<open>tunnel_pool/\<close>): the exchange of peer numbers, the relays of
      a tunnel and its pings; the pool and its managers, the dialling loop of the client; the state
      machine of a server peer that is removed when it is idle.
    \<^item> \<open>Connection_Pool\<close> (\<^verbatim>\<open>connection_pool/pool.go\<close>) and \<open>Peer_Group\<close> (\<^verbatim>\<open>peer/\<close>): routing of blocks to
      connections, registration, cancellation, the seed of the random numbers, peers and the group of peers.
    \<^item> \<open>Transport\<close>: the composition of connections, queues, tunnels and block processors as a step
      relation over all interleavings, with broken tunnels and failed sends; \<open>Transport_Progress\<close>: that
      it never gets stuck; \<open>Transport_Spec\<close>: a queue per connection as its abstract specification, behind
      the locale \<open>fifo_implementation\<close>.
    \<^item> \<open>Socks5\<close>, \<open>Client_Relay\<close> (\<^verbatim>\<open>client/client.go\<close>): the SOCKS5 dialogue, and the two copy loops
      between a local socket and a connection.
    \<^item> \<open>Client_Front\<close> (\<^verbatim>\<open>client/client.go\<close>): the client and its two accepting loops, both behind the locale
      \<open>accept_handler\<close>.
    \<^item> \<open>Server_Front\<close>, \<open>Goroutine_Id\<close> (\<^verbatim>\<open>server/server.go\<close>, \<^verbatim>\<open>client/client.go\<close>): listen addresses, TLS, the key
      check and the handler that makes tunnels of requests; the goroutine numbers of the log lines.
    \<^item> \<open>Cmd_Text\<close>, \<open>Cmd_Config\<close>, \<open>Status_Server\<close>, \<open>Main_Program\<close> (\<^verbatim>\<open>cmd/rabbit.go\<close>): text helpers,
      configuration and start checks, the status server with its access list and metrics, what
      \<^verbatim>\<open>main\<close> sets up and what a signal stops.
    \<^item> \<open>Logger\<close> (\<^verbatim>\<open>logger/\<close>): levels and lines of the log and the connections to the system log, for both
      builds.
    \<^item> \<open>End_To_End\<close>: client relay, transport and server connection composed; \<open>Whole_System\<close>: the accepting
      loops, the copy loops, the transport and the server's connection pool composed.

  \<^bold>\<open>What is shown\<close>

    \<^item> End to end: the bytes the target accepts are a prefix of what the local application sent, and
      the other way round, under every interleaving; they are equal once everything has settled, if no
      block was dropped (\<open>End_To_End\<close>). The transport hands every connection a prefix of what its peer
      sent, and all of it when nothing is under way (\<open>Transport\<close>), a state that can be reached from
      every state with a working tunnel and no lost blocks (\<open>Transport_Progress\<close>). Both
      rest on the invariants of the
      parts: the reordering of blocks (\<open>Block_Processor\<close>), a tunnel as a lossless carrier (\<open>Tunnel\<close>), the
      streams of the two kinds of connections and of the copy loops. The bytes a tunnel carries are
      what goes through the layers below it, also when the network stops in the middle (\<open>Tunnel_Stack\<close>).
    \<^item> Refinement: the transport implements a queue per connection, and every block anywhere in it is well
      formed (\<open>Transport_Spec\<close>); the goroutine of \<open>OrderedRelay\<close>, interleaved with the pool, the reader, the
      timer and cancellations, implements the block-at-a-time relay the other theories use, and always
      finishes its work (\<open>Ordered_Relay\<close>); the two builds of the logger write the same lines (\<open>Logger\<close>).
    \<^item> Formats: blocks, encrypted records, peer numbers and SOCKS5 messages are read back as they were
      written; nothing else is accepted as a block; nonces do not repeat.
    \<^item> Resources: the client's pool is refilled and keeps its endpoints, an idle server peer and only an
      idle one is removed, connection counters are exact, histories are sliding windows.
    \<^item> Access: SOCKS5 credentials, the key of the tunnels and the access list of the status server
      decide as they should. What the server dials for a client is the configured destination, or the
      address an authenticated application asked for (\<open>Whole_System\<close>). Every accepted connection gets a
      session of its own (\<open>Client_Front\<close>), and a signal cancels them all (\<open>Main_Program\<close>).
    \<^item> Behaviour a reader of the code would not expect, each as a theorem: a failed send may lose its
      block, since the tunnel's context is cancelled before the retry; a read after a local close
      spins, and the relay may panic; a short ping block panics; block numbers are compared without regard to their wrap-around;
      an unknown cipher starts the program without encryption; a malformed entry shuts the rest of the
      access list; two gauges never move; IPv6 targets are not bracketed; and others.

  \<^bold>\<open>Fuel and bounds\<close>

  Loops that end are recursive functions with a termination proof. \<open>Read\<close> of an inbound connection has
  fuel for its loop over the ordered queue: more fuel than queued blocks is enough while the queue is
  open (\<open>inbound_read_returns\<close>), and no fuel is enough after a local close, which is the theorem about
  that case. \<^verbatim>\<open>io.ReadFull\<close> has the rank of its reader as fuel, which the locale \<open>byte_reader\<close> shows to be
  enough. The hand-written \<open>split\<close> has fuel for its loop, one more than the length of the text for a
  separator of one character. The key derivation has fuel that its length lemma shows to be enough.
  Loops that serve for ever are modelled by their rounds, and the theorems quantify over all sequences
  of rounds. The end-to-end theorems assume fewer than \<open>2\<^sup>3\<^sup>2\<close> blocks per connection, because block
  numbers wrap around there.

  \<^bold>\<open>What is not modelled\<close>

  Third-party and library code appears as arguments: AEAD ciphers, hash and key derivation, websocket
  framing, TLS and certificates, YAML, the file system, the parsing of URLs, addresses and networks, the
  source of random seeds and the generator, the results of listening and accepting. JSON, the text format
  of the metrics, the HTTP servers and the profiling endpoint, the time stamps and the single calls of the
  log are left out, and so are methods nothing calls: two textual copies of the websocket adapter, its
  deadlines and addresses, and getters that only return a field. Except in \<open>Ordered_Relay\<close>, a round of a
  loop and a call on a shared object are atomic: data races inside them, such as the copies of the pools
  by value in \<^verbatim>\<open>peer/client.go\<close>, are outside the
  model. Floating point numbers are rationals and time is an argument.
\<close>

end
